theory Spec2Isabelle
  imports Complex_Main "HOL-Library.Multiset"
begin

unbundle bit_operations_syntax

section \<open>Data model of the Boolean-operation engine\<close>

text \<open>
  The engine of \<^verbatim>\<open>src/algorithms/boolean_op.js\<close> works on JavaScript objects with
  identity: edges, faces and crossing records are shared between arrays and mutated in
  place.  The objects live in explicit heaps (lists indexed by reference); an array of
  objects is a list of references.  JavaScript numbers are modelled as reals, the value
  \<^verbatim>\<open>undefined\<close> of an object-valued field as \<open>None\<close>, and the \<^verbatim>\<open>TypeError\<close> raised by
  reading a property of \<^verbatim>\<open>undefined\<close> as the error value of a sum type.
\<close>

datatype error = TypeError

definition bindE :: "error + 'a \<Rightarrow> ('a \<Rightarrow> error + 'b) \<Rightarrow> error + 'b" where
  "bindE m f = (case m of Inl e \<Rightarrow> Inl e | Inr x \<Rightarrow> f x)"

text \<open>Reading a property of a value that may be \<^verbatim>\<open>undefined\<close>.\<close>

definition deref :: "'a option \<Rightarrow> error + 'a" where
  "deref v = (case v of None \<Rightarrow> Inl TypeError | Some x \<Rightarrow> Inr x)"

text \<open>\<^verbatim>\<open>arr[i]\<close>: an index outside the array (also a negative one) reads \<^verbatim>\<open>undefined\<close>.\<close>

definition js_nth :: "'a list \<Rightarrow> int \<Rightarrow> 'a option" where
  "js_nth xs i = (if 0 \<le> i \<and> i < int (length xs) then Some (xs ! nat i) else None)"

type_synonym point = "real \<times> real"

record shape =
  sh_start :: point
  sh_end :: point
  sh_length :: real

datatype bvalue = INSIDE | OUTSIDE | BOUNDARY

record edge =
  e_shape :: shape
  e_bv :: "bvalue option"
  e_bvStart :: "bvalue option"
  e_bvEnd :: "bvalue option"
  e_overlap :: "nat option"
  e_arc_length :: real
  e_face :: "nat option"
  e_prev :: "nat option"
  e_next :: "nat option"

record face_obj =
  f_first :: "nat option"
  f_last :: "nat option"

record int_point =
  ip_id :: int
  pt :: point
  arc_length :: real
  edge_before :: "nat option"
  edge_after :: "nat option"
  face :: "nat option"
  is_vertex :: nat
  faceId :: "nat option"

record polygon =
  p_faces :: "nat list"
  p_edges :: "nat list"

record world =
  edges :: "edge list"
  faces :: "face_obj list"
  polys :: "polygon list"
  recs :: "int_point list"

record intersections =
  int_points1 :: "nat list"
  int_points2 :: "nat list"
  int_points1_sorted :: "nat list option"
  int_points2_sorted :: "nat list option"

definition NOT_VERTEX :: nat where "NOT_VERTEX = 0"
definition START_VERTEX :: nat where "START_VERTEX = 1"
definition END_VERTEX :: nat where "END_VERTEX = 2"

definition BOOLEAN_UNION :: nat where "BOOLEAN_UNION = 1"
definition BOOLEAN_INTERSECT :: nat where "BOOLEAN_INTERSECT = 2"
definition BOOLEAN_SUBTRACT :: nat where "BOOLEAN_SUBTRACT = 3"


subsection \<open>External collaborators\<close>

text \<open>
  Modelled from the spec: \<^verbatim>\<open>Utils.EQ\<close>, \<^verbatim>\<open>Utils.LT\<close>, \<^verbatim>\<open>Utils.GT\<close> and
  \<^verbatim>\<open>Point.equalTo\<close> are not part of the engine's source file; the spec (6.2) describes
  them as comparisons "under epsilon".  The tolerance is a parameter.
\<close>

definition EQ :: "real \<Rightarrow> real \<Rightarrow> real \<Rightarrow> bool" where
  "EQ tol x y \<longleftrightarrow> x - y < tol \<and> x - y > - tol"

definition LT :: "real \<Rightarrow> real \<Rightarrow> real \<Rightarrow> bool" where
  "LT tol x y \<longleftrightarrow> x - y < - tol"

definition GT :: "real \<Rightarrow> real \<Rightarrow> real \<Rightarrow> bool" where
  "GT tol x y \<longleftrightarrow> x - y > tol"

definition equalTo :: "real \<Rightarrow> point \<Rightarrow> point \<Rightarrow> bool" where
  "equalTo tol p q \<longleftrightarrow> EQ tol (fst p) (fst q) \<and> EQ tol (snd p) (snd q)"

text \<open>
  The primitive oracle and the polygon store are outside the source file as well.  The
  engine is parametric in them: \<open>env\<close> collects the operations it calls.  Store
  operations read and update the world and may fail.
\<close>

record env =
  DP_TOL :: real
  split :: "shape \<Rightarrow> point \<Rightarrow> shape option list"
  intersect :: "shape \<Rightarrow> shape \<Rightarrow> point list"
  search :: "world \<Rightarrow> nat \<Rightarrow> nat \<Rightarrow> nat list"
  addVertex :: "world \<Rightarrow> nat \<Rightarrow> point \<Rightarrow> nat \<Rightarrow> error + (world \<times> nat)"
  removeChain :: "world \<Rightarrow> nat \<Rightarrow> nat \<Rightarrow> nat \<Rightarrow> nat \<Rightarrow> error + world"
  isEmpty :: "world \<Rightarrow> nat \<Rightarrow> bool"
  setInclusion :: "world \<Rightarrow> nat \<Rightarrow> nat \<Rightarrow> error + world"
  setOverlap :: "world \<Rightarrow> nat \<Rightarrow> nat \<Rightarrow> error + world"
  addFace :: "world \<Rightarrow> nat \<Rightarrow> nat option \<Rightarrow> nat option \<Rightarrow> error + (world \<times> nat)"
  deleteFace :: "world \<Rightarrow> nat \<Rightarrow> nat \<Rightarrow> error + world"
  face_edges :: "world \<Rightarrow> nat \<Rightarrow> nat list"
  edges_add :: "world \<Rightarrow> nat \<Rightarrow> nat \<Rightarrow> error + world"
  clone :: "world \<Rightarrow> nat \<Rightarrow> error + (world \<times> nat)"
  reverse :: "world \<Rightarrow> nat \<Rightarrow> error + world"

text \<open>Assignments to fields of a crossing record or of an edge, through its reference.\<close>

definition upd_rec :: "nat \<Rightarrow> (int_point \<Rightarrow> int_point) \<Rightarrow> world \<Rightarrow> world" where
  "upd_rec r f w = w\<lparr>recs := (recs w)[r := f (recs w ! r)]\<rparr>"

definition upd_edge :: "nat \<Rightarrow> (edge \<Rightarrow> edge) \<Rightarrow> world \<Rightarrow> world" where
  "upd_edge e f w = w\<lparr>edges := (edges w)[e := f (edges w ! e)]\<rparr>"

text \<open>A \<^verbatim>\<open>for ... of\<close> loop over an array whose body may raise.\<close>

fun foldE :: "('a \<Rightarrow> 's \<Rightarrow> error + 's) \<Rightarrow> 'a list \<Rightarrow> 's \<Rightarrow> error + 's" where
  "foldE f [] s = Inr s"
| "foldE f (x # xs) s = bindE (f x s) (foldE f xs)"

section \<open>IntersectionCollector\<close>

text \<open>
  \<^verbatim>\<open>addToIntPoints(edge, pt, int_points)\<close>.  The array \<^verbatim>\<open>shapes\<close> holds sub-shapes or
  \<^verbatim>\<open>null\<close> (\<open>None\<close>); \<^verbatim>\<open>shapes[1]\<close> of a one-element array is \<^verbatim>\<open>undefined\<close>, which is not
  \<^verbatim>\<open>null\<close>.  The new record is allocated at the end of the record heap and its reference
  is pushed onto \<^verbatim>\<open>int_points\<close>.
\<close>

definition split_len :: "shape option list \<Rightarrow> real \<Rightarrow> real" where
  "split_len shapes edge_len =
     (case shapes of
        [] \<Rightarrow> 0
      | None # _ \<Rightarrow> 0
      | Some s0 # rest \<Rightarrow>
          (case rest of None # _ \<Rightarrow> edge_len | _ \<Rightarrow> sh_length s0))"

definition vertex_flags :: "real \<Rightarrow> real \<Rightarrow> real \<Rightarrow> nat" where
  "vertex_flags tol len edge_len =
     (let is_vertex = NOT_VERTEX;
          is_vertex = (if EQ tol len 0 then is_vertex OR START_VERTEX else is_vertex);
          is_vertex = (if EQ tol len edge_len then is_vertex OR END_VERTEX else is_vertex)
      in is_vertex)"

definition addToIntPoints ::
    "env \<Rightarrow> world \<Rightarrow> nat \<Rightarrow> point \<Rightarrow> nat list \<Rightarrow> error + (world \<times> nat list)" where
  "addToIntPoints env w edge p int_points =
     (let id = int (length int_points);
          e = edges w ! edge;
          shapes = split env (e_shape e) p
      in if length shapes = 0 then Inr (w, int_points)
         else
           let len = split_len shapes (sh_length (e_shape e));
               is_vertex = vertex_flags (DP_TOL env) len (sh_length (e_shape e))
           in bindE
                (if is_vertex AND END_VERTEX \<noteq> 0
                 then bindE (deref (e_next e))
                        (\<lambda>n. Inr (if e_arc_length (edges w ! n) = 0 then 0
                                   else e_arc_length e + len))
                 else Inr (e_arc_length e + len))
                (\<lambda>arc.
                   let r = \<lparr>ip_id = id, pt = p, arc_length = arc, edge_before = Some edge,
                            edge_after = None, face = e_face e, is_vertex = is_vertex,
                            faceId = None\<rparr>
                   in Inr (w\<lparr>recs := recs w @ [r]\<rparr>, int_points @ [length (recs w)])))"

text \<open>
  \<^verbatim>\<open>getIntersections(polygon1, polygon2)\<close>: the three nested loops, innermost first.
\<close>

definition getIntersections_pt ::
    "env \<Rightarrow> nat \<Rightarrow> nat \<Rightarrow> point \<Rightarrow> world \<times> intersections \<Rightarrow> error + (world \<times> intersections)" where
  "getIntersections_pt env edge1 edge2 p = (\<lambda>(w, ints).
     bindE (addToIntPoints env w edge1 p (int_points1 ints)) (\<lambda>(w1, l1).
     bindE (addToIntPoints env w1 edge2 p (int_points2 ints)) (\<lambda>(w2, l2).
     Inr (w2, ints\<lparr>int_points1 := l1, int_points2 := l2\<rparr>))))"

definition getIntersections_edge2 ::
    "env \<Rightarrow> nat \<Rightarrow> nat \<Rightarrow> world \<times> intersections \<Rightarrow> error + (world \<times> intersections)" where
  "getIntersections_edge2 env edge1 edge2 = (\<lambda>(w, ints).
     let ip = intersect env (e_shape (edges w ! edge1)) (e_shape (edges w ! edge2))
     in foldE (getIntersections_pt env edge1 edge2) ip (w, ints))"

definition getIntersections_edge1 ::
    "env \<Rightarrow> nat \<Rightarrow> nat \<Rightarrow> world \<times> intersections \<Rightarrow> error + (world \<times> intersections)" where
  "getIntersections_edge1 env polygon2 edge1 = (\<lambda>(w, ints).
     let resp = search env w polygon2 edge1
     in foldE (getIntersections_edge2 env edge1) resp (w, ints))"

definition getIntersections ::
    "env \<Rightarrow> world \<Rightarrow> nat \<Rightarrow> nat \<Rightarrow> error + (world \<times> intersections)" where
  "getIntersections env w polygon1 polygon2 =
     (let ints = \<lparr>int_points1 = [], int_points2 = [],
                  int_points1_sorted = None, int_points2_sorted = None\<rparr>
      in foldE (getIntersections_edge1 env polygon2) (p_edges (polys w ! polygon1)) (w, ints))"


section \<open>IntersectionSorter\<close>

text \<open>
  \<^verbatim>\<open>compareFn(ip1, ip2)\<close>.  A comparison of numbers with \<^verbatim>\<open>undefined\<close> is false in
  JavaScript, so an unstamped \<^verbatim>\<open>faceId\<close> compares neither smaller nor greater.
\<close>

definition js_less :: "nat option \<Rightarrow> nat option \<Rightarrow> bool" where
  "js_less a b = (case (a, b) of (Some x, Some y) \<Rightarrow> x < y | _ \<Rightarrow> False)"

definition compareFn :: "real \<Rightarrow> int_point \<Rightarrow> int_point \<Rightarrow> int" where
  "compareFn tol ip1 ip2 =
     (if js_less (faceId ip1) (faceId ip2) then - 1
      else if js_less (faceId ip2) (faceId ip1) then 1
      else if LT tol (arc_length ip1) (arc_length ip2) then - 1
      else if GT tol (arc_length ip1) (arc_length ip2) then 1
      else 0)"

text \<open>
  Modelled from the spec: \<^verbatim>\<open>Array.prototype.sort\<close> belongs to the JavaScript runtime;
  the spec (4.2) asks for a stable sort.  It is modelled as the stable insertion sort
  driven by the comparison function.
\<close>

fun insort_cmp :: "('a \<Rightarrow> 'a \<Rightarrow> int) \<Rightarrow> 'a \<Rightarrow> 'a list \<Rightarrow> 'a list" where
  "insort_cmp cmp x [] = [x]"
| "insort_cmp cmp x (y # ys) =
     (if cmp x y \<le> 0 then x # y # ys else y # insort_cmp cmp x ys)"

definition js_sort :: "('a \<Rightarrow> 'a \<Rightarrow> int) \<Rightarrow> 'a list \<Rightarrow> 'a list" where
  "js_sort cmp xs = foldr (insort_cmp cmp) xs []"

text \<open>\<^verbatim>\<open>getSortedArray(int_points)\<close>: build the face map, stamp the records, sort a copy.\<close>

definition faceMap_step ::
    "world \<Rightarrow> nat \<Rightarrow> (nat option \<rightharpoonup> nat) \<times> nat \<Rightarrow> (nat option \<rightharpoonup> nat) \<times> nat" where
  "faceMap_step w ip = (\<lambda>(faceMap, id).
     if faceMap (face (recs w ! ip)) = None
     then (faceMap(face (recs w ! ip) \<mapsto> id), id + 1)
     else (faceMap, id))"

definition set_faceId :: "(nat option \<rightharpoonup> nat) \<Rightarrow> nat \<Rightarrow> world \<Rightarrow> world" where
  "set_faceId faceMap ip w =
     upd_rec ip (\<lambda>r. r\<lparr>faceId := faceMap (face (recs w ! ip))\<rparr>) w"

definition getSortedArray :: "env \<Rightarrow> world \<Rightarrow> nat list \<Rightarrow> world \<times> nat list" where
  "getSortedArray env w int_points =
     (let faceMap = fst (fold (faceMap_step w) int_points (Map.empty, 0));
          w1 = fold (set_faceId faceMap) int_points w;
          int_points_sorted =
            js_sort (\<lambda>r1 r2. compareFn (DP_TOL env) (recs w1 ! r1) (recs w1 ! r2)) int_points
      in (w1, int_points_sorted))"

definition sortIntersections :: "env \<Rightarrow> world \<times> intersections \<Rightarrow> world \<times> intersections" where
  "sortIntersections env = (\<lambda>(w, ints).
     let (w1, s1) = getSortedArray env w (int_points1 ints);
         (w2, s2) = getSortedArray env w1 (int_points2 ints)
     in (w2, ints\<lparr>int_points1_sorted := Some s1, int_points2_sorted := Some s2\<rparr>))"

text \<open>
  "A dense integer in first-seen order" (spec 4.2): the number of distinct values that
  occur in the list before the first occurrence of \<open>x\<close>.
\<close>

definition first_seen_index :: "'a list \<Rightarrow> 'a \<Rightarrow> nat" where
  "first_seen_index xs x = card (set (takeWhile (\<lambda>y. y \<noteq> x) xs))"

section \<open>DuplicateFilter\<close>

definition set_id :: "nat \<Rightarrow> int \<Rightarrow> world \<Rightarrow> world" where
  "set_id r i w = upd_rec r (\<lambda>x. x\<lparr>ip_id := i\<rparr>) w"

text \<open>
  The body of the first sweep.  The loop state is the world, \<^verbatim>\<open>int_point_ref1\<close>,
  \<^verbatim>\<open>int_point_ref2\<close> (possibly \<^verbatim>\<open>undefined\<close>) and \<^verbatim>\<open>do_squeeze\<close>.  The counterpart
  records are read only when the first two conjuncts of the test hold.
\<close>

definition filter_scan1 ::
    "env \<Rightarrow> intersections \<Rightarrow> nat \<Rightarrow> world \<times> nat \<times> nat option \<times> bool
       \<Rightarrow> error + (world \<times> nat \<times> nat option \<times> bool)" where
  "filter_scan1 env ints cur1 = (\<lambda>(w, ref1, ref2, do_squeeze).
     if \<not> EQ (DP_TOL env) (arc_length (recs w ! cur1)) (arc_length (recs w ! ref1))
     then Inr (w, cur1, js_nth (int_points2 ints) (ip_id (recs w ! cur1)), do_squeeze)
     else
       let cur2 = js_nth (int_points2 ints) (ip_id (recs w ! cur1))
       in if edge_before (recs w ! cur1) = edge_before (recs w ! ref1) \<and>
             edge_after (recs w ! cur1) = edge_after (recs w ! ref1)
          then bindE (deref cur2) (\<lambda>c2. bindE (deref ref2) (\<lambda>r2.
                 if edge_before (recs w ! c2) = edge_before (recs w ! r2) \<and>
                    edge_after (recs w ! c2) = edge_after (recs w ! r2)
                 then Inr (set_id c2 (- 1) (set_id cur1 (- 1) w), ref1, ref2, True)
                 else Inr (w, ref1, ref2, do_squeeze)))
          else Inr (w, ref1, ref2, do_squeeze))"

text \<open>The body of the second sweep, over the sorted list of the second polygon.\<close>

definition filter_scan2 ::
    "env \<Rightarrow> intersections \<Rightarrow> nat \<Rightarrow> world \<times> nat \<times> nat option \<times> bool
       \<Rightarrow> error + (world \<times> nat \<times> nat option \<times> bool)" where
  "filter_scan2 env ints cur2 = (\<lambda>(w, ref2, ref1, do_squeeze).
     if ip_id (recs w ! cur2) = - 1 then Inr (w, ref2, ref1, do_squeeze)
     else if ip_id (recs w ! ref2) = - 1 \<or>
             \<not> EQ (DP_TOL env) (arc_length (recs w ! cur2)) (arc_length (recs w ! ref2))
     then Inr (w, cur2, js_nth (int_points1 ints) (ip_id (recs w ! cur2)), do_squeeze)
     else
       let cur1 = js_nth (int_points1 ints) (ip_id (recs w ! cur2))
       in bindE (deref cur1) (\<lambda>c1. bindE (deref ref1) (\<lambda>r1.
            if edge_before (recs w ! c1) = edge_before (recs w ! r1) \<and>
               edge_after (recs w ! c1) = edge_after (recs w ! r1) \<and>
               edge_before (recs w ! cur2) = edge_before (recs w ! ref2) \<and>
               edge_after (recs w ! cur2) = edge_after (recs w ! ref2)
            then Inr (set_id cur2 (- 1) (set_id c1 (- 1) w), ref2, ref1, True)
            else Inr (w, ref2, ref1, do_squeeze))))"

text \<open>\<^verbatim>\<open>int_points.forEach((int_point, index) => int_point.id = index)\<close>.\<close>

definition update_ids :: "nat list \<Rightarrow> world \<Rightarrow> world" where
  "update_ids int_points w =
     fold (\<lambda>(r, index). set_id r (int index)) (zip int_points [0..<length int_points]) w"

definition squeeze :: "env \<Rightarrow> world \<times> intersections \<Rightarrow> world \<times> intersections" where
  "squeeze env = (\<lambda>(w, ints).
     let l1 = filter (\<lambda>r. ip_id (recs w ! r) \<ge> 0) (int_points1 ints);
         l2 = filter (\<lambda>r. ip_id (recs w ! r) \<ge> 0) (int_points2 ints);
         w1 = update_ids l1 w;
         w2 = update_ids l2 w1
     in sortIntersections env
          (w2, ints\<lparr>int_points1 := l1, int_points2 := l2,
                    int_points1_sorted := Some [], int_points2_sorted := Some []\<rparr>))"

definition filterDuplicatedIntersections ::
    "env \<Rightarrow> world \<times> intersections \<Rightarrow> error + (world \<times> intersections)" where
  "filterDuplicatedIntersections env = (\<lambda>(w, ints).
     if length (int_points1 ints) < 2 then Inr (w, ints)
     else
       bindE (deref (int_points1_sorted ints)) (\<lambda>sorted1.
       bindE (deref (js_nth sorted1 0)) (\<lambda>ref1.
       bindE (foldE (filter_scan1 env ints) (drop 1 sorted1)
                (w, ref1, js_nth (int_points2 ints) (ip_id (recs w ! ref1)), False))
         (\<lambda>(w1, _, _, squeeze1).
       bindE (deref (int_points2_sorted ints)) (\<lambda>sorted2.
       bindE (deref (js_nth sorted2 0)) (\<lambda>ref2.
       bindE (foldE (filter_scan2 env ints) (drop 1 sorted2)
                (w1, ref2, js_nth (int_points1 ints) (ip_id (recs w1 ! ref2)), squeeze1))
         (\<lambda>(w2, _, _, do_squeeze).
       if do_squeeze then Inr (squeeze env (w2, ints)) else Inr (w2, ints))))))))"


section \<open>EdgeSplitter\<close>

text \<open>
  The body of the first loop of \<^verbatim>\<open>splitByIntersections(polygon, int_points)\<close>, and of
  the second.  \<^verbatim>\<open>int_point.is_vertex\<close> is assigned before the store is called.
\<close>

definition split_first_pass :: "env \<Rightarrow> nat \<Rightarrow> nat \<Rightarrow> world \<Rightarrow> error + world" where
  "split_first_pass env polygon ip w =
     bindE (deref (edge_before (recs w ! ip))) (\<lambda>edge.
       let e = edges w ! edge;
           p = pt (recs w ! ip);
           iv = NOT_VERTEX;
           iv = (if equalTo (DP_TOL env) (sh_start (e_shape e)) p then iv OR START_VERTEX else iv);
           iv = (if equalTo (DP_TOL env) (sh_end (e_shape e)) p then iv OR END_VERTEX else iv)
       in if iv AND START_VERTEX \<noteq> 0
          then Inr (upd_rec ip (\<lambda>r. r\<lparr>edge_before := e_prev e, is_vertex := END_VERTEX\<rparr>) w)
          else if iv AND END_VERTEX \<noteq> 0
          then Inr (upd_rec ip (\<lambda>r. r\<lparr>is_vertex := iv\<rparr>) w)
          else bindE (addVertex env (upd_rec ip (\<lambda>r. r\<lparr>is_vertex := iv\<rparr>) w) polygon p edge)
                 (\<lambda>(w1, newEdge). Inr (upd_rec ip (\<lambda>r. r\<lparr>edge_before := Some newEdge\<rparr>) w1)))"

definition split_second_pass :: "nat \<Rightarrow> world \<Rightarrow> error + world" where
  "split_second_pass ip w =
     bindE (deref (edge_before (recs w ! ip))) (\<lambda>eb.
       Inr (upd_rec ip (\<lambda>r. r\<lparr>edge_after := e_next (edges w ! eb)\<rparr>) w))"

definition splitByIntersections ::
    "env \<Rightarrow> nat \<Rightarrow> nat list option \<Rightarrow> world \<Rightarrow> error + world" where
  "splitByIntersections env polygon int_points w =
     (case int_points of
        None \<Rightarrow> Inr w
      | Some ips \<Rightarrow>
          bindE (foldE (split_first_pass env polygon) ips w) (foldE split_second_pass ips))"

section \<open>InclusionClassifier\<close>

text \<open>\<^verbatim>\<open>getNotIntersectedFaces(poly, int_points)\<close>.\<close>

definition getNotIntersectedFaces :: "world \<Rightarrow> nat \<Rightarrow> nat list \<Rightarrow> nat list" where
  "getNotIntersectedFaces w poly int_points =
     filter (\<lambda>fc. find (\<lambda>ip. face (recs w ! ip) = Some fc) int_points = None)
       (p_faces (polys w ! poly))"

text \<open>
  \<^verbatim>\<open>calcInclusionForNotIntersectedFaces(notIntersectedFaces, poly2)\<close>: the three
  assignments to the first edge of the face, then the store's \<^verbatim>\<open>setInclusion\<close>.
\<close>

definition calcInclusion_step :: "env \<Rightarrow> nat \<Rightarrow> nat \<Rightarrow> world \<Rightarrow> error + world" where
  "calcInclusion_step env poly2 fc w =
     bindE (deref (f_first (faces w ! fc))) (\<lambda>first.
       setInclusion env
         (upd_edge first (\<lambda>e. e\<lparr>e_bv := None, e_bvStart := None, e_bvEnd := None\<rparr>) w)
         first poly2)"

definition calcInclusionForNotIntersectedFaces ::
    "env \<Rightarrow> nat list \<Rightarrow> nat \<Rightarrow> world \<Rightarrow> error + world" where
  "calcInclusionForNotIntersectedFaces env notIntersectedFaces poly2 w =
     foldE (calcInclusion_step env poly2) notIntersectedFaces w"

text \<open>\<^verbatim>\<open>initializeInclusionFlags(int_points)\<close>: the bodies of its two loops.\<close>

definition clear_flags :: "edge \<Rightarrow> edge" where
  "clear_flags e = e\<lparr>e_bvStart := None, e_bvEnd := None, e_bv := None, e_overlap := None\<rparr>"

definition initialize_clear :: "nat \<Rightarrow> world \<Rightarrow> error + world" where
  "initialize_clear ip w =
     bindE (deref (edge_before (recs w ! ip))) (\<lambda>eb.
       let w1 = upd_edge eb clear_flags w
       in bindE (deref (edge_after (recs w1 ! ip))) (\<lambda>ea. Inr (upd_edge ea clear_flags w1)))"

definition initialize_boundary :: "nat \<Rightarrow> world \<Rightarrow> error + world" where
  "initialize_boundary ip w =
     bindE (deref (edge_before (recs w ! ip))) (\<lambda>eb.
       let w1 = upd_edge eb (\<lambda>e. e\<lparr>e_bvEnd := Some BOUNDARY\<rparr>) w
       in bindE (deref (edge_after (recs w1 ! ip))) (\<lambda>ea.
            Inr (upd_edge ea (\<lambda>e. e\<lparr>e_bvStart := Some BOUNDARY\<rparr>) w1)))"

definition initializeInclusionFlags :: "nat list \<Rightarrow> world \<Rightarrow> error + world" where
  "initializeInclusionFlags int_points w =
     bindE (foldE initialize_clear int_points w) (foldE initialize_boundary int_points)"

text \<open>\<^verbatim>\<open>calculateInclusionFlags(int_points, polygon)\<close>.\<close>

definition calculateInclusion_step :: "env \<Rightarrow> nat \<Rightarrow> nat \<Rightarrow> world \<Rightarrow> error + world" where
  "calculateInclusion_step env polygon ip w =
     bindE (deref (edge_before (recs w ! ip))) (\<lambda>eb.
     bindE (setInclusion env w eb polygon) (\<lambda>w1.
     bindE (deref (edge_after (recs w1 ! ip))) (\<lambda>ea. setInclusion env w1 ea polygon)))"

definition calculateInclusionFlags :: "env \<Rightarrow> nat list \<Rightarrow> nat \<Rightarrow> world \<Rightarrow> error + world" where
  "calculateInclusionFlags env int_points polygon w =
     foldE (calculateInclusion_step env polygon) int_points w"

text \<open>
  \<^verbatim>\<open>setOverlappingFlags(intersections)\<close>.  The two tests on a chain, with the
  short-circuit evaluation of \<^verbatim>\<open>&&\<close>: the second edge is read only when the first one is
  on the boundary.
\<close>

definition boundary_chain :: "world \<Rightarrow> nat option \<Rightarrow> nat option \<Rightarrow> error + bool" where
  "boundary_chain w edge_from edge_to =
     bindE (deref edge_from) (\<lambda>ef.
       if e_bv (edges w ! ef) = Some BOUNDARY
       then bindE (deref edge_to) (\<lambda>et. Inr (e_bv (edges w ! et) = Some BOUNDARY))
       else Inr False)"

definition overlapping_chain :: "world \<Rightarrow> nat option \<Rightarrow> nat option \<Rightarrow> error + bool" where
  "overlapping_chain w edge_from edge_to =
     bindE (boundary_chain w edge_from edge_to) (\<lambda>b. Inr (b \<and> edge_from = edge_to))"

text \<open>
  The chain of the second polygon between the counterparts of the records \<open>a\<close> and \<open>b\<close>:
  \<^verbatim>\<open>int_points2[a.id].edge_after\<close> and \<^verbatim>\<open>int_points2[b.id].edge_before\<close>.
\<close>

definition chain2 ::
    "world \<Rightarrow> intersections \<Rightarrow> nat \<Rightarrow> nat \<Rightarrow> error + (nat option \<times> nat option)" where
  "chain2 w ints a b =
     bindE (deref (js_nth (int_points2 ints) (ip_id (recs w ! a)))) (\<lambda>cur_int_point2.
     bindE (deref (js_nth (int_points2 ints) (ip_id (recs w ! b)))) (\<lambda>next_int_point2.
       Inr (edge_after (recs w ! cur_int_point2), edge_before (recs w ! next_int_point2))))"

text \<open>
  The record that follows the one at position \<open>i\<close> of the sorted list on the same face:
  \<^verbatim>\<open>next_int_point1\<close>, which wraps around to the first record of the face.
\<close>

definition next_in_face ::
    "world \<Rightarrow> intersections \<Rightarrow> nat list \<Rightarrow> nat \<Rightarrow> nat option \<Rightarrow> nat option \<Rightarrow> error + nat option" where
  "next_in_face w ints sorted1 i cur_face first_int_point_in_face =
     (if i + 1 = length (int_points1 ints) then Inr first_int_point_in_face
      else bindE (deref (js_nth sorted1 (int (i + 1)))) (\<lambda>following.
             Inr (if face (recs w ! following) \<noteq> cur_face
                  then first_int_point_in_face else Some following)))"

text \<open>
  The tests of the loop body between two records of the first polygon: \<open>None\<close> where the
  body continues with the next round, and otherwise the two edges \<^verbatim>\<open>edge_from1\<close> and
  \<^verbatim>\<open>edge_from2\<close> of the final \<^verbatim>\<open>setOverlap\<close>.
\<close>

definition find_overlap ::
    "world \<Rightarrow> intersections \<Rightarrow> nat \<Rightarrow> nat \<Rightarrow> error + (nat option \<times> nat option) option" where
  "find_overlap w ints cur_int_point1 next_int_point1 =
     (let edge_from1 = edge_after (recs w ! cur_int_point1);
          edge_to1 = edge_before (recs w ! next_int_point1)
      in bindE (boundary_chain w edge_from1 edge_to1) (\<lambda>is_boundary.
           if \<not> is_boundary then Inr None
           else if edge_from1 \<noteq> edge_to1 then Inr None
           else
             bindE (chain2 w ints cur_int_point1 next_int_point1) (\<lambda>(edge_from2, edge_to2).
             bindE (overlapping_chain w edge_from2 edge_to2) (\<lambda>direct.
             bindE (if direct then Inr (edge_from2, edge_to2)
                    else chain2 w ints next_int_point1 cur_int_point1)
               (\<lambda>(edge_from2, edge_to2).
             bindE (overlapping_chain w edge_from2 edge_to2) (\<lambda>overlapping.
               Inr (if overlapping then Some (edge_from1, edge_from2) else None)))))))"

text \<open>
  The loop body.  The loop state is the world, \<^verbatim>\<open>cur_face\<close> and
  \<^verbatim>\<open>first_int_point_in_face\<close>; \<^verbatim>\<open>next_int_point1\<close> is assigned in every round before it
  is read.
\<close>

definition setOverlappingFlags_step ::
    "env \<Rightarrow> intersections \<Rightarrow> nat \<Rightarrow> world \<times> nat option \<times> nat option
       \<Rightarrow> error + (world \<times> nat option \<times> nat option)" where
  "setOverlappingFlags_step env ints i = (\<lambda>(w, cur_face0, first0).
     bindE (deref (int_points1_sorted ints)) (\<lambda>sorted1.
     bindE (deref (js_nth sorted1 (int i))) (\<lambda>cur_int_point1.
       let started = (face (recs w ! cur_int_point1) \<noteq> cur_face0);
           first_int_point_in_face = (if started then Some cur_int_point1 else first0);
           cur_face = (if started then face (recs w ! cur_int_point1) else cur_face0)
       in bindE (next_in_face w ints sorted1 i cur_face first_int_point_in_face) (\<lambda>next1.
          bindE (deref next1) (\<lambda>next_int_point1.
          bindE (find_overlap w ints cur_int_point1 next_int_point1) (\<lambda>found.
            case found of
              None \<Rightarrow> Inr (w, cur_face, first_int_point_in_face)
            | Some (edge_from1, edge_from2) \<Rightarrow>
                bindE (deref edge_from1) (\<lambda>ef1.
                bindE (deref edge_from2) (\<lambda>ef2.
                bindE (setOverlap env w ef1 ef2) (\<lambda>w1.
                  Inr (w1, cur_face, first_int_point_in_face))))))))))"

definition setOverlappingFlags :: "env \<Rightarrow> intersections \<Rightarrow> world \<Rightarrow> error + world" where
  "setOverlappingFlags env ints w =
     bindE (foldE (setOverlappingFlags_step env ints) [0..<length (int_points1 ints)]
              (w, None, None))
       (\<lambda>(w1, cur_face, first_int_point_in_face). Inr w1)"

text \<open>\<^verbatim>\<open>removeNotRelevantNotIntersectedFaces(polygon, notIntersectedFaces, op, is_res_polygon)\<close>.\<close>

definition removeNotIntersected_step ::
    "env \<Rightarrow> nat \<Rightarrow> nat \<Rightarrow> bool \<Rightarrow> nat \<Rightarrow> world \<Rightarrow> error + world" where
  "removeNotIntersected_step env polygon op is_res_polygon fc w =
     bindE (deref (f_first (faces w ! fc))) (\<lambda>first.
       let rel = e_bv (edges w ! first)
       in if (op = BOOLEAN_UNION \<and> rel = Some INSIDE) \<or>
             (op = BOOLEAN_SUBTRACT \<and> rel = Some INSIDE \<and> is_res_polygon) \<or>
             (op = BOOLEAN_SUBTRACT \<and> rel = Some OUTSIDE \<and> \<not> is_res_polygon) \<or>
             (op = BOOLEAN_INTERSECT \<and> rel = Some OUTSIDE)
          then deleteFace env w polygon fc
          else Inr w)"

definition removeNotRelevantNotIntersectedFaces ::
    "env \<Rightarrow> nat \<Rightarrow> nat list \<Rightarrow> nat \<Rightarrow> bool \<Rightarrow> world \<Rightarrow> error + world" where
  "removeNotRelevantNotIntersectedFaces env polygon notIntersectedFaces op is_res_polygon w =
     foldE (removeNotIntersected_step env polygon op is_res_polygon) notIntersectedFaces w"

section \<open>ChainExcisor\<close>

text \<open>
  Modelled from the spec: the overlap flags \<^verbatim>\<open>OVERLAP_SAME\<close> and \<^verbatim>\<open>OVERLAP_OPPOSITE\<close>
  are constants of the library (spec 6.4), tested by the engine with a bitwise and; they are
  the two distinct one-bit flags.
\<close>

definition OVERLAP_SAME :: nat where "OVERLAP_SAME = 1"
definition OVERLAP_OPPOSITE :: nat where "OVERLAP_OPPOSITE = 2"

text \<open>\<^verbatim>\<open>edge.overlap & FLAG\<close> as a condition; \<^verbatim>\<open>undefined & FLAG\<close> is 0.\<close>

definition overlap_has :: "nat option \<Rightarrow> nat \<Rightarrow> bool" where
  "overlap_has ov flag = (case ov of None \<Rightarrow> False | Some v \<Rightarrow> v AND flag \<noteq> 0)"

text \<open>\<^verbatim>\<open>intPointsPullCount(int_points, cur_int_point_num, cur_face)\<close>.\<close>

fun pull_run :: "real \<Rightarrow> world \<Rightarrow> nat option \<Rightarrow> nat \<Rightarrow> nat list \<Rightarrow> nat" where
  "pull_run tol w cur_face cur [] = 0"
| "pull_run tol w cur_face cur (nxt # rest) =
     (if face (recs w ! cur) \<noteq> cur_face then 0
      else if \<not> (equalTo tol (pt (recs w ! nxt)) (pt (recs w ! cur)) \<and>
                 edge_before (recs w ! nxt) = edge_before (recs w ! cur) \<and>
                 edge_after (recs w ! nxt) = edge_after (recs w ! cur)) then 0
      else 1 + pull_run tol w cur_face cur rest)"

definition intPointsPullCount :: "env \<Rightarrow> world \<Rightarrow> nat list \<Rightarrow> nat \<Rightarrow> nat option \<Rightarrow> nat" where
  "intPointsPullCount env w int_points cur_int_point_num cur_face =
     (if length int_points = 1 then 1
      else 1 + pull_run (DP_TOL env) w cur_face (int_points ! cur_int_point_num)
                 (drop (cur_int_point_num + 1) int_points))"

text \<open>The test that decides whether the chain is removed.\<close>

definition chain_not_relevant :: "nat \<Rightarrow> bool \<Rightarrow> edge \<Rightarrow> edge \<Rightarrow> bool" where
  "chain_not_relevant op is_res_polygon edge_from edge_to \<longleftrightarrow>
     (e_bv edge_from = Some INSIDE \<and> e_bv edge_to = Some INSIDE \<and> op = BOOLEAN_UNION) \<or>
     (e_bv edge_from = Some OUTSIDE \<and> e_bv edge_to = Some OUTSIDE \<and> op = BOOLEAN_INTERSECT) \<or>
     ((e_bv edge_from = Some OUTSIDE \<or> e_bv edge_to = Some OUTSIDE) \<and> op = BOOLEAN_SUBTRACT \<and>
        \<not> is_res_polygon) \<or>
     ((e_bv edge_from = Some INSIDE \<or> e_bv edge_to = Some INSIDE) \<and> op = BOOLEAN_SUBTRACT \<and>
        is_res_polygon) \<or>
     (e_bv edge_from = Some BOUNDARY \<and> e_bv edge_to = Some BOUNDARY \<and>
        overlap_has (e_overlap edge_from) OVERLAP_SAME \<and> is_res_polygon) \<or>
     (e_bv edge_from = Some BOUNDARY \<and> e_bv edge_to = Some BOUNDARY \<and>
        overlap_has (e_overlap edge_from) OVERLAP_OPPOSITE)"

text \<open>
  The part of the loop body of \<^verbatim>\<open>removeNotRelevantChains\<close> after the pulls have been
  counted: read the two end edges, test, remove the chain and run the two update loops.
  Each update loop assigns to the one captured record, once per member of the pull.
\<close>

definition remove_chain_between ::
    "env \<Rightarrow> nat \<Rightarrow> nat \<Rightarrow> bool \<Rightarrow> nat \<Rightarrow> nat \<Rightarrow> nat \<Rightarrow> nat \<Rightarrow> nat \<Rightarrow> nat \<Rightarrow> nat
       \<Rightarrow> world \<Rightarrow> error + world" where
  "remove_chain_between env polygon op is_res_polygon cur_face int_point_current int_point_next
       from_pull_start from_pull_num to_pull_start to_pull_num w =
     bindE (deref (edge_after (recs w ! int_point_current))) (\<lambda>edge_from.
     bindE (deref (edge_before (recs w ! int_point_next))) (\<lambda>edge_to.
       if chain_not_relevant op is_res_polygon (edges w ! edge_from) (edges w ! edge_to)
       then bindE (removeChain env w polygon cur_face edge_from edge_to) (\<lambda>w1.
              let w2 = fold (\<lambda>k. upd_rec int_point_current (\<lambda>r. r\<lparr>edge_after := None\<rparr>))
                         [from_pull_start..<from_pull_start + from_pull_num] w1;
                  w3 = fold (\<lambda>k. upd_rec int_point_next (\<lambda>r. r\<lparr>edge_before := None\<rparr>))
                         [to_pull_start..<to_pull_start + to_pull_num] w2
              in Inr w3)
       else Inr w))"

function removeNotRelevantChains_loop ::
    "env \<Rightarrow> nat \<Rightarrow> nat \<Rightarrow> nat list \<Rightarrow> bool \<Rightarrow> nat \<Rightarrow> nat option \<Rightarrow> nat option \<Rightarrow> world
       \<Rightarrow> error + world" where
  "removeNotRelevantChains_loop env polygon op int_points is_res_polygon i cur_face0 first0 w =
     (if i < length int_points then
        let int_point_current = int_points ! i;
            started = (face (recs w ! int_point_current) \<noteq> cur_face0);
            first_int_point_in_face_num = (if started then Some i else first0);
            cur_face = (if started then face (recs w ! int_point_current) else cur_face0)
        in case cur_face of
             None \<Rightarrow> Inl TypeError
           | Some cf \<Rightarrow>
               if isEmpty env w cf
               then removeNotRelevantChains_loop env polygon op int_points is_res_polygon
                      (i + 1) cur_face first_int_point_in_face_num w
               else
                 let from_pull_num = intPointsPullCount env w int_points i cur_face;
                     next_int_point_num =
                       (if i + from_pull_num < length int_points \<and>
                           face (recs w ! (int_points ! (i + from_pull_num))) =
                             face (recs w ! int_point_current)
                        then Some (i + from_pull_num) else first_int_point_in_face_num)
                 in case next_int_point_num of
                      None \<Rightarrow> Inl TypeError
                    | Some nn \<Rightarrow>
                        (case remove_chain_between env polygon op is_res_polygon cf
                                int_point_current (int_points ! nn) i from_pull_num nn
                                (intPointsPullCount env w int_points nn cur_face) w of
                           Inl err \<Rightarrow> Inl err
                         | Inr w1 \<Rightarrow>
                             removeNotRelevantChains_loop env polygon op int_points
                               is_res_polygon (i + (from_pull_num - 1) + 1) cur_face
                               first_int_point_in_face_num w1)
      else Inr w)"
  by pat_completeness auto
termination
  by (relation "measure (\<lambda>(env, polygon, op, int_points, is_res, i, cf, first, w).
                  length int_points - i)")
     (auto simp: intPointsPullCount_def)

definition removeNotRelevantChains ::
    "env \<Rightarrow> nat \<Rightarrow> nat \<Rightarrow> nat list option \<Rightarrow> bool \<Rightarrow> world \<Rightarrow> error + world" where
  "removeNotRelevantChains env polygon op int_points is_res_polygon w =
     (case int_points of
        None \<Rightarrow> Inr w
      | Some ips \<Rightarrow>
          removeNotRelevantChains_loop env polygon op ips is_res_polygon 0 None None w)"


text \<open>
  The excisor in the words of the spec (4.6), for comparison with the code.  The deletion
  rule reads the operator, the side, the boundary values of the two end edges and the
  overlap of the chain's first edge, which the data model (spec 3) gives as one of
  \<open>SAME\<close>, \<open>OPPOSITE\<close> or none.
\<close>

definition spec_delete_chain ::
    "nat \<Rightarrow> bool \<Rightarrow> bvalue option \<Rightarrow> bvalue option \<Rightarrow> nat option \<Rightarrow> bool" where
  "spec_delete_chain op is_res bv_from bv_to ov \<longleftrightarrow>
     (op = BOOLEAN_UNION \<and> bv_from = Some INSIDE \<and> bv_to = Some INSIDE) \<or>
     (op = BOOLEAN_INTERSECT \<and> bv_from = Some OUTSIDE \<and> bv_to = Some OUTSIDE) \<or>
     (op = BOOLEAN_SUBTRACT \<and> \<not> is_res \<and> (bv_from = Some OUTSIDE \<or> bv_to = Some OUTSIDE)) \<or>
     (op = BOOLEAN_SUBTRACT \<and> is_res \<and> (bv_from = Some INSIDE \<or> bv_to = Some INSIDE)) \<or>
     (bv_from = Some BOUNDARY \<and> bv_to = Some BOUNDARY \<and> ov = Some OVERLAP_SAME \<and> is_res) \<or>
     (bv_from = Some BOUNDARY \<and> bv_to = Some BOUNDARY \<and> ov = Some OVERLAP_OPPOSITE)"

text \<open>
  The position in the sorted list of the first crossing that lies on face \<open>f\<close>, and the
  position of \<open>next\<close> for the crossing at position \<open>i\<close>: the following crossing if it is
  on the same face, the face's first crossing otherwise.
\<close>

definition face_first :: "world \<Rightarrow> nat list \<Rightarrow> nat option \<Rightarrow> nat" where
  "face_first w int_points f = length (takeWhile (\<lambda>r. face (recs w ! r) \<noteq> f) int_points)"

definition spec_next :: "world \<Rightarrow> nat list \<Rightarrow> nat \<Rightarrow> nat" where
  "spec_next w int_points i =
     (if i + 1 < length int_points \<and>
         face (recs w ! (int_points ! (i + 1))) = face (recs w ! (int_points ! i))
      then i + 1 else face_first w int_points (face (recs w ! (int_points ! i))))"

text \<open>
  What the spec says of the crossing at position \<open>i\<close>: on a non-empty face, with
  \<open>edge_from = cur.edge_after\<close> and \<open>edge_to = next.edge_before\<close>, the chain is removed
  by the store exactly if the rule holds, and then \<open>cur.edge_after\<close> and
  \<open>next.edge_before\<close> are cleared; and of the list: every crossing in turn.
\<close>

definition spec_excise :: "env \<Rightarrow> nat \<Rightarrow> nat \<Rightarrow> bool \<Rightarrow> nat list \<Rightarrow> nat \<Rightarrow> world \<Rightarrow> error + world" where
  "spec_excise env polygon op is_res int_points i w =
     (let cur = int_points ! i; nxt = int_points ! spec_next w int_points i
      in bindE (deref (face (recs w ! cur))) (\<lambda>cur_face.
           if isEmpty env w cur_face then Inr w
           else
             bindE (deref (edge_after (recs w ! cur))) (\<lambda>edge_from.
             bindE (deref (edge_before (recs w ! nxt))) (\<lambda>edge_to.
               if spec_delete_chain op is_res (e_bv (edges w ! edge_from))
                    (e_bv (edges w ! edge_to)) (e_overlap (edges w ! edge_from))
               then bindE (removeChain env w polygon cur_face edge_from edge_to) (\<lambda>w1.
                      Inr (upd_rec nxt (\<lambda>r. r\<lparr>edge_before := None\<rparr>)
                             (upd_rec cur (\<lambda>r. r\<lparr>edge_after := None\<rparr>) w1)))
               else Inr w))))"

definition spec_removeChains :: "env \<Rightarrow> nat \<Rightarrow> nat \<Rightarrow> bool \<Rightarrow> nat list \<Rightarrow> world \<Rightarrow> error + world" where
  "spec_removeChains env polygon op is_res int_points w =
     foldE (spec_excise env polygon op is_res int_points) [0..<length int_points] w"

text \<open>
  What the comparison supposes of the state the excisor is given.  The records of a face are
  next to each other in the sorted list (the sorter groups them by \<open>faceId\<close>); no two
  neighbours of the list are at the same point, so that no pull has a second member; the
  overlap of the edge after each crossing is one of the three values of the data model.
\<close>

fun grouped :: "'a list \<Rightarrow> bool" where
  "grouped [] = True"
| "grouped (x # xs) = (x \<notin> set (dropWhile (\<lambda>y. y = x) xs) \<and> grouped xs)"

definition faces_grouped :: "world \<Rightarrow> nat list \<Rightarrow> bool" where
  "faces_grouped w int_points = grouped (map (\<lambda>r. face (recs w ! r)) int_points)"

definition crossings_apart :: "real \<Rightarrow> world \<Rightarrow> nat list \<Rightarrow> bool" where
  "crossings_apart tol w int_points =
     successively (\<lambda>a b. \<not> equalTo tol (pt (recs w ! b)) (pt (recs w ! a))) int_points"

definition overlap_flags_ok :: "world \<Rightarrow> nat list \<Rightarrow> bool" where
  "overlap_flags_ok w int_points =
     list_all (\<lambda>r. case edge_after (recs w ! r) of
                     None \<Rightarrow> True
                   | Some e \<Rightarrow> e_overlap (edges w ! e) = None \<or>
                              e_overlap (edges w ! e) = Some OVERLAP_SAME \<or>
                              e_overlap (edges w ! e) = Some OVERLAP_OPPOSITE) int_points"

text \<open>
  Modelled from the spec: \<^verbatim>\<open>removeChain(face, from, to)\<close> is an operation of the store
  (spec 6.3).  It unlinks edges; the crossing records are not the store's, and the
  classification of an edge is not touched.
\<close>

definition removeChain_contract :: "env \<Rightarrow> bool" where
  "removeChain_contract env \<longleftrightarrow>
     (\<forall>w polygon f edge_from edge_to w'.
        removeChain env w polygon f edge_from edge_to = Inr w' \<longrightarrow>
          recs w' = recs w \<and> (\<forall>e. e_overlap (edges w' ! e) = e_overlap (edges w ! e)))"

text \<open>
  The variables \<^verbatim>\<open>cur_face\<close> and \<^verbatim>\<open>first_int_point_in_face_num\<close> of the loop on
  entry to iteration \<open>i\<close>: undefined before the first iteration, the face of the previous
  crossing and the position of that face's first crossing afterwards.
\<close>

definition loop_at :: "world \<Rightarrow> nat list \<Rightarrow> nat \<Rightarrow> nat option \<Rightarrow> nat option \<Rightarrow> bool" where
  "loop_at w ips i cur_face0 first0 \<longleftrightarrow>
     (if i = 0 then cur_face0 = None \<and> first0 = None
      else cur_face0 = face (recs w ! (ips ! (i - 1))) \<and>
           first0 = Some (face_first w ips (face (recs w ! (ips ! (i - 1))))))"

section \<open>Restitcher\<close>

text \<open>\<^verbatim>\<open>copyWrkToRes(res_polygon, wrk_polygon, op, int_points)\<close>.\<close>

definition copyWrkToRes_face :: "env \<Rightarrow> nat \<Rightarrow> nat list \<Rightarrow> nat \<Rightarrow> world \<Rightarrow> error + world" where
  "copyWrkToRes_face env res_polygon int_points fc w =
     bindE (foldE (\<lambda>edge w'. edges_add env w' res_polygon edge) (face_edges env w fc) w) (\<lambda>w1.
       if find (\<lambda>ip. face (recs w1 ! ip) = Some fc) int_points = None
       then bindE (addFace env w1 res_polygon (f_first (faces w1 ! fc)) (f_last (faces w1 ! fc)))
              (\<lambda>(w2, new_face). Inr w2)
       else Inr w1)"

definition copyWrkToRes :: "env \<Rightarrow> nat \<Rightarrow> nat \<Rightarrow> nat \<Rightarrow> nat list \<Rightarrow> world \<Rightarrow> error + world" where
  "copyWrkToRes env res_polygon wrk_polygon op int_points w =
     foldE (copyWrkToRes_face env res_polygon int_points) (p_faces (polys w ! wrk_polygon)) w"

text \<open>
  \<^verbatim>\<open>swapLinks\<close>.  \<open>connect a b\<close> is the four assignments that link the edge before
  record \<open>a\<close> to the edge after record \<open>b\<close> and complete the two records.
\<close>

definition connect :: "nat \<Rightarrow> nat \<Rightarrow> nat \<Rightarrow> nat \<Rightarrow> world \<Rightarrow> world" where
  "connect a a_before b b_after w =
     (let w1 = upd_edge a_before (\<lambda>e. e\<lparr>e_next := Some b_after\<rparr>) w;
          w2 = upd_edge b_after (\<lambda>e. e\<lparr>e_prev := Some a_before\<rparr>) w1;
          w3 = upd_rec a (\<lambda>r. r\<lparr>edge_after := Some b_after\<rparr>) w2;
          w4 = upd_rec b (\<lambda>r. r\<lparr>edge_before := Some a_before\<rparr>) w3
      in w4)"

text \<open>The simple case: the continuation of record \<open>a\<close> is on the other polygon, at \<open>b\<close>.\<close>

definition swap_simple :: "nat \<Rightarrow> nat \<Rightarrow> world \<Rightarrow> world" where
  "swap_simple a b w =
     (case (edge_before (recs w ! a), edge_after (recs w ! a)) of
        (Some a_before, None) \<Rightarrow>
          (case (edge_before (recs w ! b), edge_after (recs w ! b)) of
             (None, Some b_after) \<Rightarrow> connect a a_before b b_after w
           | _ \<Rightarrow> w)
      | _ \<Rightarrow> w)"

text \<open>
  The complex case: the loop over the sorted list of the same polygon.  The test on
  \<open>a\<close> is made once, before the loop; inside, \<^verbatim>\<open>int_point1.edge_before\<close> is read again
  at each connection.
\<close>

definition swap_touching_step :: "env \<Rightarrow> nat \<Rightarrow> nat \<Rightarrow> world \<Rightarrow> error + world" where
  "swap_touching_step env a ip w =
     (if ip = a then Inr w
      else case (edge_before (recs w ! ip), edge_after (recs w ! ip)) of
             (None, Some ip_after) \<Rightarrow>
               if equalTo (DP_TOL env) (pt (recs w ! ip)) (pt (recs w ! a))
               then bindE (deref (edge_before (recs w ! a)))
                      (\<lambda>a_before. Inr (connect a a_before ip ip_after w))
               else Inr w
           | _ \<Rightarrow> Inr w)"

definition swap_touching :: "env \<Rightarrow> nat \<Rightarrow> nat list option \<Rightarrow> world \<Rightarrow> error + world" where
  "swap_touching env a sorted_points w =
     (case (edge_before (recs w ! a), edge_after (recs w ! a)) of
        (Some a_before, None) \<Rightarrow>
          bindE (deref sorted_points) (\<lambda>ips. foldE (swap_touching_step env a) ips w)
      | _ \<Rightarrow> Inr w)"

definition swapLinks_step :: "env \<Rightarrow> intersections \<Rightarrow> nat \<Rightarrow> world \<Rightarrow> error + world" where
  "swapLinks_step env ints i w =
     (let int_point1 = int_points1 ints ! i
      in bindE (deref (js_nth (int_points2 ints) (int i))) (\<lambda>int_point2.
           let w1 = swap_simple int_point1 int_point2 w;
               w2 = swap_simple int_point2 int_point1 w1
           in bindE (swap_touching env int_point1 (int_points1_sorted ints) w2)
                (swap_touching env int_point2 (int_points2_sorted ints))))"

definition swapLinks :: "env \<Rightarrow> nat \<Rightarrow> nat \<Rightarrow> intersections \<Rightarrow> world \<Rightarrow> error + world" where
  "swapLinks env res_polygon wrk_polygon ints w =
     (if length (int_points1 ints) = 0 then Inr w
      else foldE (swapLinks_step env ints) [0..<length (int_points1 ints)] w)"

text \<open>
  \<^verbatim>\<open>removeOldFaces(polygon, int_points)\<close>.  Modelled from the spec:
  \<^verbatim>\<open>polygon.faces.delete(face)\<close> (spec 6.3) removes the face from the polygon's face set.
\<close>

definition faces_delete :: "nat \<Rightarrow> nat option \<Rightarrow> world \<Rightarrow> world" where
  "faces_delete polygon fc w =
     w\<lparr>polys := (polys w)[polygon :=
          (polys w ! polygon)\<lparr>p_faces := filter (\<lambda>f. Some f \<noteq> fc) (p_faces (polys w ! polygon))\<rparr>]\<rparr>"

definition clear_edge_face :: "nat option \<Rightarrow> world \<Rightarrow> world" where
  "clear_edge_face e w = (case e of None \<Rightarrow> w | Some x \<Rightarrow> upd_edge x (\<lambda>d. d\<lparr>e_face := None\<rparr>) w)"

definition removeOldFaces_step :: "nat \<Rightarrow> nat \<Rightarrow> world \<Rightarrow> world" where
  "removeOldFaces_step polygon ip w =
     (let w1 = faces_delete polygon (face (recs w ! ip)) w;
          w2 = upd_rec ip (\<lambda>r. r\<lparr>face := None\<rparr>) w1;
          w3 = clear_edge_face (edge_before (recs w2 ! ip)) w2;
          w4 = clear_edge_face (edge_after (recs w3 ! ip)) w3
      in w4)"

definition removeOldFaces :: "nat \<Rightarrow> nat list \<Rightarrow> world \<Rightarrow> world" where
  "removeOldFaces polygon int_points w = fold (removeOldFaces_step polygon) int_points w"

text \<open>\<^verbatim>\<open>restoreFaces(polygon, int_points, other_int_points)\<close>.\<close>

definition mark_face :: "nat \<Rightarrow> nat \<Rightarrow> world \<Rightarrow> world" where
  "mark_face fc ip w =
     (case (edge_before (recs w ! ip), edge_after (recs w ! ip)) of
        (Some eb, Some ea) \<Rightarrow>
          if e_face (edges w ! eb) = Some fc \<and> e_face (edges w ! ea) = Some fc
          then upd_rec ip (\<lambda>r. r\<lparr>face := Some fc\<rparr>) w else w
      | _ \<Rightarrow> w)"

definition restoreFaces_step ::
    "env \<Rightarrow> nat \<Rightarrow> nat list \<Rightarrow> nat list \<Rightarrow> nat \<Rightarrow> world \<Rightarrow> error + world" where
  "restoreFaces_step env polygon int_points other_int_points ip w =
     (case (edge_before (recs w ! ip), edge_after (recs w ! ip)) of
        (Some eb, Some ea) \<Rightarrow>
          if face (recs w ! ip) \<noteq> None then Inr w
          else if e_face (edges w ! ea) \<noteq> None \<or> e_face (edges w ! eb) \<noteq> None then Inr w
          else bindE (addFace env w polygon (Some ea) (Some eb)) (\<lambda>(w1, fc).
                 Inr (fold (mark_face fc) other_int_points (fold (mark_face fc) int_points w1)))
      | _ \<Rightarrow> Inr w)"

definition restoreFaces :: "env \<Rightarrow> nat \<Rightarrow> nat list \<Rightarrow> nat list \<Rightarrow> world \<Rightarrow> error + world" where
  "restoreFaces env polygon int_points other_int_points w =
     foldE (restoreFaces_step env polygon int_points other_int_points) int_points w"

text \<open>\<^verbatim>\<open>swapLinksAndRestore(res_poly, wrk_poly, intersections, op)\<close>.\<close>

definition swapLinksAndRestore ::
    "env \<Rightarrow> nat \<Rightarrow> nat \<Rightarrow> intersections \<Rightarrow> nat \<Rightarrow> world \<Rightarrow> error + world" where
  "swapLinksAndRestore env res_poly wrk_poly ints op w =
     bindE (copyWrkToRes env res_poly wrk_poly op (int_points2 ints) w) (\<lambda>w1.
     bindE (swapLinks env res_poly wrk_poly ints w1) (\<lambda>w2.
       let w3 = removeOldFaces res_poly (int_points1 ints) w2;
           w4 = removeOldFaces wrk_poly (int_points2 ints) w3
       in bindE (restoreFaces env res_poly (int_points1 ints) (int_points2 ints) w4)
            (restoreFaces env res_poly (int_points2 ints) (int_points1 ints))))"


section \<open>Drivers\<close>

text \<open>\<^verbatim>\<open>filterNotRelevantEdges(res_poly, wrk_poly, intersections, op)\<close>.\<close>

definition filterNotRelevantEdges ::
    "env \<Rightarrow> nat \<Rightarrow> nat \<Rightarrow> intersections \<Rightarrow> nat \<Rightarrow> world \<Rightarrow> error + world" where
  "filterNotRelevantEdges env res_poly wrk_poly ints op w =
     (let notIntersectedFacesRes = getNotIntersectedFaces w res_poly (int_points1 ints);
          notIntersectedFacesWrk = getNotIntersectedFaces w wrk_poly (int_points2 ints)
      in bindE (calcInclusionForNotIntersectedFaces env notIntersectedFacesRes wrk_poly w) (\<lambda>w1.
         bindE (calcInclusionForNotIntersectedFaces env notIntersectedFacesWrk res_poly w1) (\<lambda>w2.
         bindE (initializeInclusionFlags (int_points1 ints) w2) (\<lambda>w3.
         bindE (initializeInclusionFlags (int_points2 ints) w3) (\<lambda>w4.
         bindE (calculateInclusionFlags env (int_points1 ints) wrk_poly w4) (\<lambda>w5.
         bindE (calculateInclusionFlags env (int_points2 ints) res_poly w5) (\<lambda>w6.
         bindE (setOverlappingFlags env ints w6) (\<lambda>w7.
         bindE (removeNotRelevantChains env res_poly op (int_points1_sorted ints) True w7) (\<lambda>w8.
         bindE (removeNotRelevantChains env wrk_poly op (int_points2_sorted ints) False w8) (\<lambda>w9.
         bindE (removeNotRelevantNotIntersectedFaces env res_poly notIntersectedFacesRes op True w9)
           (removeNotRelevantNotIntersectedFaces env wrk_poly notIntersectedFacesWrk op
              False)))))))))))"

text \<open>
  The first five stages, shared by \<^verbatim>\<open>booleanOpBinary\<close> and \<^verbatim>\<open>calculateIntersections\<close>:
  clone both arguments, collect, sort, split both clones, filter.  The result is the world
  with the two clones and the intersections object.
\<close>

definition clone_and_split ::
    "env \<Rightarrow> world \<Rightarrow> nat \<Rightarrow> nat \<Rightarrow> error + (world \<times> nat \<times> nat \<times> intersections)" where
  "clone_and_split env w polygon1 polygon2 =
     bindE (clone env w polygon1) (\<lambda>(w1, res_poly).
     bindE (clone env w1 polygon2) (\<lambda>(w2, wrk_poly).
     bindE (getIntersections env w2 res_poly wrk_poly) (\<lambda>collected.
       case sortIntersections env collected of (w3, ints) \<Rightarrow>
         bindE (splitByIntersections env res_poly (int_points1_sorted ints) w3) (\<lambda>w4.
         bindE (splitByIntersections env wrk_poly (int_points2_sorted ints) w4) (\<lambda>w5.
         bindE (filterDuplicatedIntersections env (w5, ints)) (\<lambda>(w6, ints').
           Inr (w6, res_poly, wrk_poly, ints')))))))"

text \<open>\<^verbatim>\<open>booleanOpBinary(polygon1, polygon2, op, restore)\<close>.\<close>

definition booleanOpBinary ::
    "env \<Rightarrow> world \<Rightarrow> nat \<Rightarrow> nat \<Rightarrow> nat \<Rightarrow> bool \<Rightarrow> error + (world \<times> nat \<times> nat)" where
  "booleanOpBinary env w polygon1 polygon2 op restore =
     bindE (clone_and_split env w polygon1 polygon2) (\<lambda>(w1, res_poly, wrk_poly, ints).
     bindE (filterNotRelevantEdges env res_poly wrk_poly ints op w1) (\<lambda>w2.
     bindE (if restore then swapLinksAndRestore env res_poly wrk_poly ints op w2 else Inr w2)
       (\<lambda>w3. Inr (w3, res_poly, wrk_poly))))"

text \<open>
  The public entry points.  Each returns the world it leaves and its result: the result
  polygon, the clipped shapes or the crossing points.  Modelled from the spec (6.3):
  \<^verbatim>\<open>reverse()\<close> flips the polygon it is called on and returns that same polygon, so
  \<^verbatim>\<open>polygon2_reversed\<close> in \<^verbatim>\<open>subtract\<close> is \<^verbatim>\<open>polygon2_tmp\<close>.
\<close>

definition unify :: "env \<Rightarrow> world \<Rightarrow> nat \<Rightarrow> nat \<Rightarrow> error + (world \<times> nat)" where
  "unify env w polygon1 polygon2 =
     bindE (booleanOpBinary env w polygon1 polygon2 BOOLEAN_UNION True)
       (\<lambda>(w1, res_poly, wrk_poly). Inr (w1, res_poly))"

definition subtract :: "env \<Rightarrow> world \<Rightarrow> nat \<Rightarrow> nat \<Rightarrow> error + (world \<times> nat)" where
  "subtract env w polygon1 polygon2 =
     bindE (clone env w polygon2) (\<lambda>(w1, polygon2_tmp).
     bindE (reverse env w1 polygon2_tmp) (\<lambda>w2.
       let polygon2_reversed = polygon2_tmp
       in bindE (booleanOpBinary env w2 polygon1 polygon2_reversed BOOLEAN_SUBTRACT True)
            (\<lambda>(w3, res_poly, wrk_poly). Inr (w3, res_poly))))"

definition intersect_polygons :: "env \<Rightarrow> world \<Rightarrow> nat \<Rightarrow> nat \<Rightarrow> error + (world \<times> nat)" where
  "intersect_polygons env w polygon1 polygon2 =
     bindE (booleanOpBinary env w polygon1 polygon2 BOOLEAN_INTERSECT True)
       (\<lambda>(w1, res_poly, wrk_poly). Inr (w1, res_poly))"

text \<open>The shapes of the edges of all faces of a polygon, face by face.\<close>

definition clip_shapes :: "env \<Rightarrow> world \<Rightarrow> nat \<Rightarrow> shape list" where
  "clip_shapes env w poly =
     concat (map (\<lambda>fc. map (\<lambda>edge. e_shape (edges w ! edge)) (face_edges env w fc))
               (p_faces (polys w ! poly)))"

definition innerClip ::
    "env \<Rightarrow> world \<Rightarrow> nat \<Rightarrow> nat \<Rightarrow> error + (world \<times> shape list \<times> shape list)" where
  "innerClip env w polygon1 polygon2 =
     bindE (booleanOpBinary env w polygon1 polygon2 BOOLEAN_INTERSECT False)
       (\<lambda>(w1, res_poly, wrk_poly).
          Inr (w1, clip_shapes env w1 res_poly, clip_shapes env w1 wrk_poly))"

definition outerClip :: "env \<Rightarrow> world \<Rightarrow> nat \<Rightarrow> nat \<Rightarrow> error + (world \<times> shape list)" where
  "outerClip env w polygon1 polygon2 =
     bindE (booleanOpBinary env w polygon1 polygon2 BOOLEAN_SUBTRACT False)
       (\<lambda>(w1, res_poly, wrk_poly). Inr (w1, clip_shapes env w1 res_poly))"

definition calculateIntersections ::
    "env \<Rightarrow> world \<Rightarrow> nat \<Rightarrow> nat \<Rightarrow> error + (world \<times> point list \<times> point list)" where
  "calculateIntersections env w polygon1 polygon2 =
     bindE (clone_and_split env w polygon1 polygon2) (\<lambda>(w1, res_poly, wrk_poly, ints).
     bindE (deref (int_points1_sorted ints)) (\<lambda>sorted1.
     bindE (deref (int_points2_sorted ints)) (\<lambda>sorted2.
       Inr (w1, map (\<lambda>int_point. pt (recs w1 ! int_point)) sorted1,
                map (\<lambda>int_point. pt (recs w1 ! int_point)) sorted2))))"

section \<open>A store and an oracle for segments\<close>

text \<open>
  Modelled from the spec: an instance of the external collaborators on which the engine
  can be run.  Shapes are segments measured along the axes; \<open>seg_split\<close> follows the
  oracle's interface (spec 6.2): two sub-shapes, \<^verbatim>\<open>null\<close> where the point coincides with
  the start or the end.  \<open>store_addVertex\<close> follows the splitter's description of the
  store (spec 4.3): it inserts a new edge that ends at the point before the edge that is
  split, and the split edge keeps the remainder.
\<close>

definition seg_len :: "point \<Rightarrow> point \<Rightarrow> real" where
  "seg_len a b = \<bar>fst a - fst b\<bar> + \<bar>snd a - snd b\<bar>"

definition seg :: "point \<Rightarrow> point \<Rightarrow> shape" where
  "seg a b = \<lparr>sh_start = a, sh_end = b, sh_length = seg_len a b\<rparr>"

definition seg_split :: "real \<Rightarrow> shape \<Rightarrow> point \<Rightarrow> shape option list" where
  "seg_split tol s p =
     (if equalTo tol (sh_start s) p then [None, Some s]
      else if equalTo tol (sh_end s) p then [Some s, None]
      else [Some (seg (sh_start s) p), Some (seg p (sh_end s))])"

definition store_addVertex ::
    "(shape \<Rightarrow> point \<Rightarrow> shape option list) \<Rightarrow> world \<Rightarrow> nat \<Rightarrow> point \<Rightarrow> nat
       \<Rightarrow> error + (world \<times> nat)" where
  "store_addVertex splt w polygon p edge =
     (let e = edges w ! edge
      in case splt (e_shape e) p of
           [Some s0, Some s1] \<Rightarrow>
             bindE (deref (e_prev e)) (\<lambda>edgeBefore.
               let newEdge = length (edges w);
                   w1 = w\<lparr>edges := edges w @ [e\<lparr>e_shape := s0, e_next := Some edge\<rparr>]\<rparr>;
                   w2 = upd_edge edgeBefore (\<lambda>d. d\<lparr>e_next := Some newEdge\<rparr>) w1;
                   w3 = upd_edge edge
                          (\<lambda>d. d\<lparr>e_shape := s1, e_prev := Some newEdge,
                                  e_arc_length := e_arc_length d + sh_length s0\<rparr>) w2;
                   w4 = w3\<lparr>polys := (polys w3)[polygon :=
                          (polys w3 ! polygon)\<lparr>p_edges := p_edges (polys w3 ! polygon) @ [newEdge]\<rparr>]\<rparr>
               in Inr (w4, newEdge))
         | _ \<Rightarrow> Inl TypeError)"

text \<open>
  Modelled from the spec: \<^verbatim>\<open>clone()\<close> is a deep copy and \<^verbatim>\<open>reverse()\<close> flips the
  orientation of every face (spec 6.3).  The copy is allocated at the end of the heaps; a
  link of a copied object leads to the copy of its target, and a link that leaves the
  polygon is dropped.
\<close>

fun index_of :: "nat list \<Rightarrow> nat \<Rightarrow> nat option" where
  "index_of [] x = None"
| "index_of (y # ys) x = (if x = y then Some 0 else map_option Suc (index_of ys x))"

definition relocate :: "nat list \<Rightarrow> nat \<Rightarrow> nat option \<Rightarrow> nat option" where
  "relocate olds base x =
     (case x of
        None \<Rightarrow> None
      | Some v \<Rightarrow> (case index_of olds v of None \<Rightarrow> None | Some i \<Rightarrow> Some (base + i)))"

definition store_clone :: "world \<Rightarrow> nat \<Rightarrow> error + (world \<times> nat)" where
  "store_clone w p =
     (let old_edges = p_edges (polys w ! p);
          old_faces = p_faces (polys w ! p);
          to_edge = relocate old_edges (length (edges w));
          to_face = relocate old_faces (length (faces w));
          new_edges = map (\<lambda>e. (edges w ! e)\<lparr>e_prev := to_edge (e_prev (edges w ! e)),
                                              e_next := to_edge (e_next (edges w ! e)),
                                              e_face := to_face (e_face (edges w ! e))\<rparr>) old_edges;
          new_faces = map (\<lambda>f. \<lparr>f_first = to_edge (f_first (faces w ! f)),
                                 f_last = to_edge (f_last (faces w ! f))\<rparr>) old_faces;
          copy = \<lparr>p_faces = [length (faces w)..<length (faces w) + length old_faces],
                  p_edges = [length (edges w)..<length (edges w) + length old_edges]\<rparr>
      in Inr (w\<lparr>edges := edges w @ new_edges, faces := faces w @ new_faces,
                 polys := polys w @ [copy]\<rparr>, length (polys w)))"

definition reverse_edge :: "edge \<Rightarrow> edge" where
  "reverse_edge e =
     e\<lparr>e_shape := seg (sh_end (e_shape e)) (sh_start (e_shape e)),
       e_prev := e_next e, e_next := e_prev e\<rparr>"

definition reverse_face :: "nat \<Rightarrow> world \<Rightarrow> world" where
  "reverse_face f w =
     w\<lparr>faces := (faces w)[f := \<lparr>f_first = f_last (faces w ! f),
                                 f_last = f_first (faces w ! f)\<rparr>]\<rparr>"

definition store_reverse :: "world \<Rightarrow> nat \<Rightarrow> error + world" where
  "store_reverse w p =
     Inr (fold reverse_face (p_faces (polys w ! p))
            (fold (\<lambda>e. upd_edge e reverse_edge) (p_edges (polys w ! p)) w))"

definition between :: "real \<Rightarrow> real \<Rightarrow> real \<Rightarrow> bool" where
  "between a b x \<longleftrightarrow> min a b \<le> x \<and> x \<le> max a b"

text \<open>Crossing points of two segments along the axes that meet at a right angle.\<close>

definition seg_intersect :: "shape \<Rightarrow> shape \<Rightarrow> point list" where
  "seg_intersect s1 s2 =
     (let (x1, y1) = sh_start s1; (x2, y2) = sh_end s1;
          (u1, v1) = sh_start s2; (u2, v2) = sh_end s2
      in if x1 = x2 \<and> v1 = v2 \<and> between u1 u2 x1 \<and> between y1 y2 v1 then [(x1, v1)]
         else if y1 = y2 \<and> u1 = u2 \<and> between x1 x2 u1 \<and> between v1 v2 y1 then [(u1, y1)]
         else [])"

definition segment_env :: env where
  "segment_env =
     \<lparr>DP_TOL = 1 / 1000,
      split = seg_split (1 / 1000),
      intersect = seg_intersect,
      search = (\<lambda>w polygon edge. p_edges (polys w ! polygon)),
      addVertex = store_addVertex (seg_split (1 / 1000)),
      removeChain = (\<lambda>w polygon fc edge_from edge_to. Inr w),
      isEmpty = (\<lambda>w fc. f_first (faces w ! fc) = None),
      setInclusion = (\<lambda>w edge polygon. Inr w),
      setOverlap = (\<lambda>w edge1 edge2. Inr w),
      addFace = (\<lambda>w polygon first last. Inl TypeError),
      deleteFace = (\<lambda>w polygon fc. Inr w),
      face_edges = (\<lambda>w fc. []),
      edges_add = (\<lambda>w polygon edge. Inr w),
      clone = store_clone,
      reverse = store_reverse\<rparr>"

text \<open>An edge that carries a segment and its links, with no classification yet.\<close>

definition mk_edge :: "point \<Rightarrow> point \<Rightarrow> real \<Rightarrow> nat \<Rightarrow> nat \<Rightarrow> nat \<Rightarrow> edge" where
  "mk_edge a b arc fc pr nx =
     \<lparr>e_shape = seg a b, e_bv = None, e_bvStart = None, e_bvEnd = None, e_overlap = None,
      e_arc_length = arc, e_face = Some fc, e_prev = Some pr, e_next = Some nx\<rparr>"

text \<open>
  The overlapping squares of scenario 2 of the spec: polygon 0 is the square
  \<open>(0,0) (0,4) (4,4) (4,0)\<close> (edges 0 to 3, face 0), polygon 1 the square
  \<open>(2,2) (2,6) (6,6) (6,2)\<close> (edges 4 to 7, face 1).
\<close>

definition two_squares :: world where
  "two_squares =
     \<lparr>edges = [mk_edge (0, 0) (0, 4) 0 0 3 1, mk_edge (0, 4) (4, 4) 4 0 0 2,
               mk_edge (4, 4) (4, 0) 8 0 1 3, mk_edge (4, 0) (0, 0) 12 0 2 0,
               mk_edge (2, 2) (2, 6) 0 1 7 5, mk_edge (2, 6) (6, 6) 4 1 4 6,
               mk_edge (6, 6) (6, 2) 8 1 5 7, mk_edge (6, 2) (2, 2) 12 1 6 4],
      faces = [\<lparr>f_first = Some 0, f_last = Some 3\<rparr>, \<lparr>f_first = Some 4, f_last = Some 7\<rparr>],
      polys = [\<lparr>p_faces = [0], p_edges = [0, 1, 2, 3]\<rparr>, \<lparr>p_faces = [1], p_edges = [4, 5, 6, 7]\<rparr>],
      recs = []\<rparr>"

text \<open>
  The same first square against a second polygon with a vertex \<open>(2,4)\<close> in the middle of
  its left side: \<open>(2,2) (2,4) (2,6) (6,6) (6,2)\<close> (edges 4 to 8, face 1).  The crossing at
  \<open>(2,4)\<close> is reported twice, once for each edge of the second polygon that meets it.
\<close>

definition square_and_vertex :: world where
  "square_and_vertex =
     \<lparr>edges = [mk_edge (0, 0) (0, 4) 0 0 3 1, mk_edge (0, 4) (4, 4) 4 0 0 2,
               mk_edge (4, 4) (4, 0) 8 0 1 3, mk_edge (4, 0) (0, 0) 12 0 2 0,
               mk_edge (2, 2) (2, 4) 0 1 8 5, mk_edge (2, 4) (2, 6) 2 1 4 6,
               mk_edge (2, 6) (6, 6) 4 1 5 7, mk_edge (6, 6) (6, 2) 8 1 6 8,
               mk_edge (6, 2) (2, 2) 12 1 7 4],
      faces = [\<lparr>f_first = Some 0, f_last = Some 3\<rparr>, \<lparr>f_first = Some 4, f_last = Some 8\<rparr>],
      polys = [\<lparr>p_faces = [0], p_edges = [0, 1, 2, 3]\<rparr>,
               \<lparr>p_faces = [1], p_edges = [4, 5, 6, 7, 8]\<rparr>],
      recs = []\<rparr>"

text \<open>
  The state the engine reaches on \<open>square_and_vertex\<close> after collecting, sorting and
  splitting: edges 9, 10 and 11 are the new edges that end at the crossing points, and the
  records 2 and 3 repeat the records 0 and 1.
\<close>

definition mk_rec :: "int \<Rightarrow> point \<Rightarrow> real \<Rightarrow> nat \<Rightarrow> nat \<Rightarrow> nat \<Rightarrow> nat \<Rightarrow> int_point" where
  "mk_rec i p arc eb ea fc iv =
     \<lparr>ip_id = i, pt = p, arc_length = arc, edge_before = Some eb, edge_after = Some ea,
      face = Some fc, is_vertex = iv, faceId = Some 0\<rparr>"

definition vertex_crossings :: "world \<times> intersections" where
  "vertex_crossings =
     (\<lparr>edges = [mk_edge (0, 0) (0, 4) 0 0 3 9, mk_edge (2, 4) (4, 4) 6 0 9 10,
                mk_edge (4, 2) (4, 0) 10 0 10 3, mk_edge (4, 0) (0, 0) 12 0 2 0,
                mk_edge (2, 2) (2, 4) 0 1 8 5, mk_edge (2, 4) (2, 6) 2 1 4 6,
                mk_edge (2, 6) (6, 6) 4 1 5 7, mk_edge (6, 6) (6, 2) 8 1 6 11,
                mk_edge (4, 2) (2, 2) 14 1 11 4, mk_edge (0, 4) (2, 4) 4 0 0 1,
                mk_edge (4, 4) (4, 2) 8 0 1 2, mk_edge (6, 2) (4, 2) 12 1 7 8],
       faces = [\<lparr>f_first = Some 0, f_last = Some 3\<rparr>, \<lparr>f_first = Some 4, f_last = Some 8\<rparr>],
       polys = [\<lparr>p_faces = [0], p_edges = [0, 1, 2, 3, 9, 10]\<rparr>,
                \<lparr>p_faces = [1], p_edges = [4, 5, 6, 7, 8, 11]\<rparr>],
       recs = [mk_rec 0 (2, 4) 6 9 1 0 0, mk_rec 0 (2, 4) 2 4 5 1 2,
               mk_rec 1 (2, 4) 6 9 1 0 2, mk_rec 1 (2, 4) 2 4 5 1 2,
               mk_rec 2 (4, 2) 10 10 2 0 0, mk_rec 2 (4, 2) 14 11 8 1 0]\<rparr>,
      \<lparr>int_points1 = [0, 2, 4], int_points2 = [1, 3, 5],
       int_points1_sorted = Some [0, 2, 4], int_points2_sorted = Some [1, 3, 5]\<rparr>)"

text \<open>
  The first square after classification, with its top edge crossed at \<open>(2,4)\<close> and
  \<open>(3,4)\<close>: edge 4 ends at \<open>(2,4)\<close>, edge 5 runs from \<open>(2,4)\<close> to \<open>(3,4)\<close> inside the
  other polygon, edge 1 is the rest of the top edge.  The crossing at \<open>(2,4)\<close> has two
  records (two edges of the other polygon pass through it), which form a pull.  Only the
  records of this polygon are in the heap.
\<close>

definition pull_world :: world where
  "pull_world =
     \<lparr>edges = [(mk_edge (0, 0) (0, 4) 0 0 3 4)\<lparr>e_bv := Some OUTSIDE\<rparr>,
               (mk_edge (3, 4) (4, 4) 7 0 5 2)\<lparr>e_bv := Some OUTSIDE\<rparr>,
               (mk_edge (4, 4) (4, 0) 8 0 1 3)\<lparr>e_bv := Some OUTSIDE\<rparr>,
               (mk_edge (4, 0) (0, 0) 12 0 2 0)\<lparr>e_bv := Some OUTSIDE\<rparr>,
               (mk_edge (0, 4) (2, 4) 4 0 0 5)\<lparr>e_bv := Some OUTSIDE\<rparr>,
               (mk_edge (2, 4) (3, 4) 6 0 4 1)\<lparr>e_bv := Some INSIDE\<rparr>],
      faces = [\<lparr>f_first = Some 0, f_last = Some 3\<rparr>],
      polys = [\<lparr>p_faces = [0], p_edges = [0, 1, 2, 3, 4, 5]\<rparr>],
      recs = [mk_rec 0 (2, 4) 6 4 5 0 2, mk_rec 1 (2, 4) 6 4 5 0 2, mk_rec 2 (3, 4) 7 5 1 0 2]\<rparr>"

text \<open>
  The two overlapping squares after collecting, sorting, splitting and classifying (edges 8
  to 11 are the new edges that end at the crossing points \<open>(2,4)\<close> and \<open>(4,2)\<close>; the
  records 0 and 2 are the crossings on the first square, 1 and 3 their counterparts on the
  second).  The classification is the store's: here it has marked the part of the first
  square between the crossings as inside, and on the second square the part from \<open>(2,4)\<close>
  over \<open>(6,6)\<close> to \<open>(4,2)\<close> as inside too.
\<close>

definition judged_squares :: "world \<times> intersections" where
  "judged_squares =
     (\<lparr>edges = [(mk_edge (0, 0) (0, 4) 0 0 3 8)\<lparr>e_bv := Some OUTSIDE\<rparr>,
                (mk_edge (2, 4) (4, 4) 6 0 8 9)\<lparr>e_bv := Some INSIDE\<rparr>,
                (mk_edge (4, 2) (4, 0) 10 0 9 3)\<lparr>e_bv := Some OUTSIDE\<rparr>,
                (mk_edge (4, 0) (0, 0) 12 0 2 0)\<lparr>e_bv := Some OUTSIDE\<rparr>,
                (mk_edge (2, 4) (2, 6) 2 1 10 5)\<lparr>e_bv := Some INSIDE\<rparr>,
                (mk_edge (2, 6) (6, 6) 4 1 4 6)\<lparr>e_bv := Some INSIDE\<rparr>,
                (mk_edge (6, 6) (6, 2) 8 1 5 11)\<lparr>e_bv := Some INSIDE\<rparr>,
                (mk_edge (4, 2) (2, 2) 14 1 11 10)\<lparr>e_bv := Some OUTSIDE\<rparr>,
                (mk_edge (0, 4) (2, 4) 4 0 0 1)\<lparr>e_bv := Some OUTSIDE\<rparr>,
                (mk_edge (4, 4) (4, 2) 8 0 1 2)\<lparr>e_bv := Some INSIDE\<rparr>,
                (mk_edge (2, 2) (2, 4) 0 1 7 4)\<lparr>e_bv := Some OUTSIDE\<rparr>,
                (mk_edge (6, 2) (4, 2) 12 1 6 7)\<lparr>e_bv := Some INSIDE\<rparr>],
       faces = [\<lparr>f_first = Some 0, f_last = Some 3\<rparr>, \<lparr>f_first = Some 4, f_last = Some 7\<rparr>],
       polys = [\<lparr>p_faces = [0], p_edges = [0, 1, 2, 3, 8, 9]\<rparr>,
                \<lparr>p_faces = [1], p_edges = [4, 5, 6, 7, 10, 11]\<rparr>],
       recs = [mk_rec 0 (2, 4) 6 8 1 0 0, mk_rec 0 (2, 4) 2 10 4 1 0,
               mk_rec 1 (4, 2) 10 9 2 0 0, mk_rec 1 (4, 2) 14 11 7 1 0]\<rparr>,
      \<lparr>int_points1 = [0, 2], int_points2 = [1, 3],
       int_points1_sorted = Some [0, 2], int_points2_sorted = Some [1, 3]\<rparr>)"

text \<open>
  The state the excisor leaves on \<open>judged_squares\<close> for a union: on each polygon the chain
  after the crossing \<open>(2,4)\<close> has been removed, so both records of that crossing have an
  \<open>edge_before\<close> and no \<open>edge_after\<close>, and both records of the crossing \<open>(4,2)\<close> have an
  \<open>edge_after\<close> and no \<open>edge_before\<close>.
\<close>

definition dead_ends :: "world \<times> intersections" where
  "dead_ends =
     ((fst judged_squares)\<lparr>recs :=
        [(mk_rec 0 (2, 4) 6 8 1 0 0)\<lparr>edge_after := None\<rparr>,
         (mk_rec 0 (2, 4) 2 10 4 1 0)\<lparr>edge_after := None\<rparr>,
         (mk_rec 1 (4, 2) 10 9 2 0 0)\<lparr>edge_before := None\<rparr>,
         (mk_rec 1 (4, 2) 14 11 7 1 0)\<lparr>edge_before := None\<rparr>]\<rparr>,
      snd judged_squares)"

text \<open>
  Crossing records as the collector leaves them (no \<open>edge_after\<close>, no \<open>faceId\<close>).
\<close>

definition mk_collected :: "int \<Rightarrow> point \<Rightarrow> real \<Rightarrow> nat \<Rightarrow> nat \<Rightarrow> nat \<Rightarrow> int_point" where
  "mk_collected i p arc eb fc iv =
     \<lparr>ip_id = i, pt = p, arc_length = arc, edge_before = Some eb, edge_after = None,
      face = Some fc, is_vertex = iv, faceId = None\<rparr>"

text \<open>
  A polygon that doubles back on itself and the square \<open>(2,2)\<close>--\<open>(6,6)\<close>: three
  horizontal edges of the first polygon (edges 0, 2 and 4) cross the left edge of the square
  (edge 8) at the heights \<open>4.0016\<close>, \<open>4.0008\<close> and \<open>4\<close>, less than two
  tolerances of \<open>segment_env\<close> apart, and edge 5 crosses the bottom edge at \<open>(3,2)\<close>.
\<close>

definition slit_world :: world where
  "slit_world =
     \<lparr>edges = [mk_edge (- 1, 40016 / 10000) (3, 40016 / 10000) 0 0 7 1,
               mk_edge (3, 40016 / 10000) (3, 40008 / 10000) 4 0 0 2,
               mk_edge (3, 40008 / 10000) (0, 40008 / 10000) (40008 / 10000) 0 1 3,
               mk_edge (0, 40008 / 10000) (0, 4) (70008 / 10000) 0 2 4,
               mk_edge (0, 4) (3, 4) (70016 / 10000) 0 3 5,
               mk_edge (3, 4) (3, 0) (100016 / 10000) 0 4 6,
               mk_edge (3, 0) (- 1, 0) (140016 / 10000) 0 5 7,
               mk_edge (- 1, 0) (- 1, 40016 / 10000) (180016 / 10000) 0 6 0,
               mk_edge (2, 2) (2, 6) 0 1 11 9, mk_edge (2, 6) (6, 6) 4 1 8 10,
               mk_edge (6, 6) (6, 2) 8 1 9 11, mk_edge (6, 2) (2, 2) 12 1 10 8],
      faces = [\<lparr>f_first = Some 0, f_last = Some 7\<rparr>, \<lparr>f_first = Some 8, f_last = Some 11\<rparr>],
      polys = [\<lparr>p_faces = [0], p_edges = [0, 1, 2, 3, 4, 5, 6, 7]\<rparr>,
               \<lparr>p_faces = [1], p_edges = [8, 9, 10, 11]\<rparr>],
      recs = []\<rparr>"

text \<open>
  The state the collector and the sorter leave on \<open>slit_world\<close> (lemma
  \<open>slit_collected\<close> below): four crossings, the records with even index on the first
  polygon, those with odd index on the square.
\<close>

definition slit_sorted :: "world \<times> intersections" where
  "slit_sorted =
     (slit_world\<lparr>recs :=
        [(mk_collected 0 (2, 40016 / 10000) 3 0 0 0)\<lparr>faceId := Some 0\<rparr>,
         (mk_collected 0 (2, 40016 / 10000) (20016 / 10000) 8 1 0)\<lparr>faceId := Some 0\<rparr>,
         (mk_collected 1 (2, 40008 / 10000) (50008 / 10000) 2 0 0)\<lparr>faceId := Some 0\<rparr>,
         (mk_collected 1 (2, 40008 / 10000) (20008 / 10000) 8 1 0)\<lparr>faceId := Some 0\<rparr>,
         (mk_collected 2 (2, 4) (90016 / 10000) 4 0 0)\<lparr>faceId := Some 0\<rparr>,
         (mk_collected 2 (2, 4) 2 8 1 0)\<lparr>faceId := Some 0\<rparr>,
         (mk_collected 3 (3, 2) (120016 / 10000) 5 0 0)\<lparr>faceId := Some 0\<rparr>,
         (mk_collected 3 (3, 2) 15 11 1 0)\<lparr>faceId := Some 0\<rparr>]\<rparr>,
      \<lparr>int_points1 = [0, 2, 4, 6], int_points2 = [1, 3, 5, 7],
       int_points1_sorted = Some [0, 2, 4, 6], int_points2_sorted = Some [1, 3, 5, 7]\<rparr>)"

text \<open>Four records on two faces, collected in an order that is not the sorted one.\<close>

definition sorter_faces :: world where
  "sorter_faces =
     square_and_vertex\<lparr>recs :=
       [mk_collected 0 (2, 6) 4 5 1 2, mk_collected 1 (4, 0) 12 2 0 2,
        mk_collected 2 (2, 4) 2 4 1 2, mk_collected 3 (0, 4) 4 0 0 2]\<rparr>"

text \<open>
  A state with a single pair of crossing records, for the point \<open>(2,4)\<close> on edge 1 of
  the first square and on edge 4 of the second.
\<close>

definition one_crossing :: "world \<times> intersections" where
  "one_crossing =
     (two_squares\<lparr>recs :=
        [\<lparr>ip_id = 0, pt = (2, 4), arc_length = 6, edge_before = Some 1, edge_after = None,
          face = Some 0, is_vertex = 0, faceId = Some 0\<rparr>,
         \<lparr>ip_id = 0, pt = (2, 4), arc_length = 2, edge_before = Some 4, edge_after = None,
          face = Some 1, is_vertex = 0, faceId = Some 0\<rparr>]\<rparr>,
      \<lparr>int_points1 = [0], int_points2 = [1],
       int_points1_sorted = Some [0], int_points2_sorted = Some [1]\<rparr>)"

section \<open>Invariants\<close>

text \<open>
  Invariant I1 of the spec: the two crossing lists have the same length, the \<open>id\<close> of
  every record is its index, and the records at the same index have the same point under
  epsilon.
\<close>

definition paired :: "env \<Rightarrow> world \<Rightarrow> intersections \<Rightarrow> bool" where
  "paired env w ints \<longleftrightarrow>
     length (int_points1 ints) = length (int_points2 ints) \<and>
     (\<forall>i < length (int_points1 ints).
        ip_id (recs w ! (int_points1 ints ! i)) = int i \<and>
        ip_id (recs w ! (int_points2 ints ! i)) = int i \<and>
        equalTo (DP_TOL env) (pt (recs w ! (int_points1 ints ! i)))
          (pt (recs w ! (int_points2 ints ! i))))"

text \<open>
  The shape of the intersections object between sorting and filtering: the records of the
  two lists are distinct objects of the heap, and each sorted array is a rearrangement of
  its list.
\<close>

definition crossings_wf :: "world \<Rightarrow> intersections \<Rightarrow> bool" where
  "crossings_wf w ints \<longleftrightarrow>
     distinct (int_points1 ints @ int_points2 ints) \<and>
     (\<forall>r \<in> set (int_points1 ints @ int_points2 ints). r < length (recs w)) \<and>
     (\<exists>s1 s2. int_points1_sorted ints = Some s1 \<and> int_points2_sorted ints = Some s2 \<and>
        distinct s1 \<and> set s1 = set (int_points1 ints) \<and>
        distinct s2 \<and> set s2 = set (int_points2 ints))"

text \<open>
  While the filter sweeps, marked records have \<open>id = -1\<close>.  The two lists stay in
  lockstep with respect to the world \<open>w0\<close> at entry: no record is added, no point
  changes, and at every index either both records still carry the index or both are marked.
\<close>

definition lockstep :: "world \<Rightarrow> nat list \<Rightarrow> nat list \<Rightarrow> world \<Rightarrow> bool" where
  "lockstep w0 P Q w \<longleftrightarrow>
     length (recs w) = length (recs w0) \<and>
     (\<forall>r. pt (recs w ! r) = pt (recs w0 ! r)) \<and>
     (\<forall>i < length P.
        (ip_id (recs w ! (P ! i)) = int i \<and> ip_id (recs w ! (Q ! i)) = int i) \<or>
        (ip_id (recs w ! (P ! i)) = - 1 \<and> ip_id (recs w ! (Q ! i)) = - 1))"

text \<open>
  Well-formed input of the splitter (spec 3: each face is a circular doubly-linked list of
  edges): every edge of the heap has a next and a previous edge, the links are inverse to
  each other, and the next edge starts where the edge ends.
\<close>

definition ring_ok :: "world \<Rightarrow> bool" where
  "ring_ok w \<longleftrightarrow>
     (\<forall>e < length (edges w).
        \<exists>n p. e_next (edges w ! e) = Some n \<and> n < length (edges w) \<and>
              e_prev (edges w ! e) = Some p \<and> p < length (edges w) \<and>
              e_prev (edges w ! n) = Some e \<and> e_next (edges w ! p) = Some e \<and>
              sh_start (e_shape (edges w ! n)) = sh_end (e_shape (edges w ! e)))"

text \<open>
  What the splitter relies on when it calls the store (spec 4.3): a successful
  \<^verbatim>\<open>addVertex(pt, edge)\<close> on a well-formed polygon returns an edge whose shape ends at
  \<open>pt\<close>; the polygon stays well formed; the edges that existed keep their end points (the
  edge that is split keeps the remainder); the crossing records are not the store's.
\<close>

definition addVertex_contract :: "env \<Rightarrow> bool" where
  "addVertex_contract env \<longleftrightarrow>
     (\<forall>w polygon p e w' n.
        ring_ok w \<and> e < length (edges w) \<and> addVertex env w polygon p e = Inr (w', n) \<longrightarrow>
          ring_ok w' \<and> recs w' = recs w \<and> length (edges w) \<le> length (edges w') \<and>
          (\<forall>x < length (edges w).
             sh_end (e_shape (edges w' ! x)) = sh_end (e_shape (edges w ! x))) \<and>
          n < length (edges w') \<and> sh_end (e_shape (edges w' ! n)) = p)"

text \<open>
  The two overlapping squares after collecting and sorting: the input of the splitter.
\<close>

definition squares_sorted :: "world \<times> intersections" where
  "squares_sorted =
     (two_squares\<lparr>recs :=
        [(mk_collected 0 (2, 4) 6 1 0 0)\<lparr>faceId := Some 0\<rparr>,
         (mk_collected 0 (2, 4) 2 4 1 0)\<lparr>faceId := Some 0\<rparr>,
         (mk_collected 1 (4, 2) 10 2 0 0)\<lparr>faceId := Some 0\<rparr>,
         (mk_collected 1 (4, 2) 14 7 1 0)\<lparr>faceId := Some 0\<rparr>]\<rparr>,
      \<lparr>int_points1 = [0, 2], int_points2 = [1, 3],
       int_points1_sorted = Some [0, 2], int_points2_sorted = Some [1, 3]\<rparr>)"

text \<open>
  The two facts the first pass of the splitter establishes for a record: its \<open>edge_before\<close>
  is an edge of the store that ends at the crossing point, and, before the record is visited,
  that its \<open>edge_before\<close> is an edge of the store at all.
\<close>

definition split_good :: "real \<Rightarrow> nat \<Rightarrow> world \<Rightarrow> bool" where
  "split_good tol r w \<longleftrightarrow>
     (\<exists>e. edge_before (recs w ! r) = Some e \<and> e < length (edges w) \<and>
          equalTo tol (sh_end (e_shape (edges w ! e))) (pt (recs w ! r)))"

definition split_valid :: "nat \<Rightarrow> world \<Rightarrow> bool" where
  "split_valid r w \<longleftrightarrow>
     r < length (recs w) \<and> (\<exists>e. edge_before (recs w ! r) = Some e \<and> e < length (edges w))"

section \<open>Ownership\<close>

text \<open>
  The objects a call has allocated since it started in the world \<open>w0\<close>: the cells of the
  heaps of \<open>w\<close> beyond the sizes the heaps had in \<open>w0\<close>.  A clone and everything the engine
  and the store create for it are allocated there.
\<close>

definition own_edges :: "world \<Rightarrow> world \<Rightarrow> nat set" where
  "own_edges w0 w = {length (edges w0)..<length (edges w)}"

definition own_faces :: "world \<Rightarrow> world \<Rightarrow> nat set" where
  "own_faces w0 w = {length (faces w0)..<length (faces w)}"

definition own_polys :: "world \<Rightarrow> world \<Rightarrow> nat set" where
  "own_polys w0 w = {length (polys w0)..<length (polys w)}"

definition own_recs :: "world \<Rightarrow> world \<Rightarrow> nat set" where
  "own_recs w0 w = {length (recs w0)..<length (recs w)}"

text \<open>The links of an object lead into the sets \<open>E\<close> of edges and \<open>F\<close> of faces.\<close>

definition link_ok :: "nat set \<Rightarrow> nat option \<Rightarrow> bool" where
  "link_ok S x \<longleftrightarrow> set_option x \<subseteq> S"

definition edge_ok :: "nat set \<Rightarrow> nat set \<Rightarrow> edge \<Rightarrow> bool" where
  "edge_ok E F e \<longleftrightarrow> link_ok E (e_prev e) \<and> link_ok E (e_next e) \<and> link_ok F (e_face e)"

definition face_ok :: "nat set \<Rightarrow> face_obj \<Rightarrow> bool" where
  "face_ok E f \<longleftrightarrow> link_ok E (f_first f) \<and> link_ok E (f_last f)"

definition poly_ok :: "nat set \<Rightarrow> nat set \<Rightarrow> polygon \<Rightarrow> bool" where
  "poly_ok E F p \<longleftrightarrow> set (p_edges p) \<subseteq> E \<and> set (p_faces p) \<subseteq> F"

definition rec_ok :: "nat set \<Rightarrow> nat set \<Rightarrow> int_point \<Rightarrow> bool" where
  "rec_ok E F r \<longleftrightarrow>
     link_ok E (edge_before r) \<and> link_ok E (edge_after r) \<and> link_ok F (face r)"

text \<open>
  The polygons the caller holds in \<open>w0\<close> are unchanged in \<open>w\<close>: the edges, faces and
  polygons of \<open>w0\<close> are where they were and as they were.
\<close>

definition unchanged :: "world \<Rightarrow> world \<Rightarrow> bool" where
  "unchanged w0 w \<longleftrightarrow>
     take (length (edges w0)) (edges w) = edges w0 \<and>
     take (length (faces w0)) (faces w) = faces w0 \<and>
     take (length (polys w0)) (polys w) = polys w0"

text \<open>
  The invariant of a call that started in \<open>w0\<close>: the caller's objects are unchanged, and
  the objects of the call refer to objects of the call only.
\<close>

definition confined :: "world \<Rightarrow> world \<Rightarrow> bool" where
  "confined w0 w \<longleftrightarrow>
     unchanged w0 w \<and> length (recs w0) \<le> length (recs w) \<and>
     (\<forall>e \<in> own_edges w0 w. edge_ok (own_edges w0 w) (own_faces w0 w) (edges w ! e)) \<and>
     (\<forall>f \<in> own_faces w0 w. face_ok (own_edges w0 w) (faces w ! f)) \<and>
     (\<forall>p \<in> own_polys w0 w. poly_ok (own_edges w0 w) (own_faces w0 w) (polys w ! p)) \<and>
     (\<forall>r \<in> own_recs w0 w. rec_ok (own_edges w0 w) (own_faces w0 w) (recs w ! r))"

text \<open>No heap shrinks from \<open>w\<close> to \<open>w'\<close>.\<close>

definition grows :: "world \<Rightarrow> world \<Rightarrow> bool" where
  "grows w w' \<longleftrightarrow>
     length (edges w) \<le> length (edges w') \<and> length (faces w) \<le> length (faces w') \<and>
     length (polys w) \<le> length (polys w') \<and> length (recs w) \<le> length (recs w')"

definition keeps :: "world \<Rightarrow> world \<Rightarrow> world \<Rightarrow> bool" where
  "keeps w0 w w' \<longleftrightarrow> confined w0 w' \<and> grows w w'"

text \<open>The crossing lists hold records of the call.\<close>

definition ints_ok :: "nat set \<Rightarrow> intersections \<Rightarrow> bool" where
  "ints_ok R ints \<longleftrightarrow>
     set (int_points1 ints) \<subseteq> R \<and> set (int_points2 ints) \<subseteq> R \<and>
     (case int_points1_sorted ints of None \<Rightarrow> True | Some s \<Rightarrow> set s \<subseteq> R) \<and>
     (case int_points2_sorted ints of None \<Rightarrow> True | Some s \<Rightarrow> set s \<subseteq> R)"

text \<open>
  Modelled from the spec: what the engine relies on when it calls the store (spec 3 and
  6.3: \<^verbatim>\<open>clone()\<close> is deep, and a Boolean call owns its two clones).  A clone is made of
  new objects, whatever polygon is cloned, and an operation of the store that is given
  objects of the call changes and returns objects of the call only.
\<close>

definition store_confined :: "env \<Rightarrow> bool" where
  "store_confined env \<longleftrightarrow>
     (\<forall>w0 w. confined w0 w \<longrightarrow>
        (\<forall>p w' q. clone env w p = Inr (w', q) \<longrightarrow> keeps w0 w w' \<and> q \<in> own_polys w0 w') \<and>
        (\<forall>p w'. p \<in> own_polys w0 w \<and> reverse env w p = Inr w' \<longrightarrow> keeps w0 w w') \<and>
        (\<forall>p e. p \<in> own_polys w0 w \<longrightarrow> set (search env w p e) \<subseteq> own_edges w0 w) \<and>
        (\<forall>p x e w' n. p \<in> own_polys w0 w \<and> e \<in> own_edges w0 w \<and>
            addVertex env w p x e = Inr (w', n) \<longrightarrow> keeps w0 w w' \<and> n \<in> own_edges w0 w') \<and>
        (\<forall>p f a b w'. p \<in> own_polys w0 w \<and> f \<in> own_faces w0 w \<and> a \<in> own_edges w0 w \<and>
            b \<in> own_edges w0 w \<and> removeChain env w p f a b = Inr w' \<longrightarrow> keeps w0 w w') \<and>
        (\<forall>e p w'. e \<in> own_edges w0 w \<and> p \<in> own_polys w0 w \<and>
            setInclusion env w e p = Inr w' \<longrightarrow> keeps w0 w w') \<and>
        (\<forall>a b w'. a \<in> own_edges w0 w \<and> b \<in> own_edges w0 w \<and>
            setOverlap env w a b = Inr w' \<longrightarrow> keeps w0 w w') \<and>
        (\<forall>p a b w' f. p \<in> own_polys w0 w \<and> link_ok (own_edges w0 w) a \<and>
            link_ok (own_edges w0 w) b \<and> addFace env w p a b = Inr (w', f) \<longrightarrow>
              keeps w0 w w' \<and> f \<in> own_faces w0 w') \<and>
        (\<forall>p f w'. p \<in> own_polys w0 w \<and> f \<in> own_faces w0 w \<and>
            deleteFace env w p f = Inr w' \<longrightarrow> keeps w0 w w') \<and>
        (\<forall>f. f \<in> own_faces w0 w \<longrightarrow> set (face_edges env w f) \<subseteq> own_edges w0 w) \<and>
        (\<forall>p e w'. p \<in> own_polys w0 w \<and> e \<in> own_edges w0 w \<and>
            edges_add env w p e = Inr w' \<longrightarrow> keeps w0 w w'))"

text \<open>
  The two overlapping squares and a third polygon without faces.
\<close>

definition squares_and_none :: world where
  "squares_and_none = two_squares\<lparr>polys := polys two_squares @ [\<lparr>p_faces = [], p_edges = []\<rparr>]\<rparr>"

section \<open>Properties of the collector\<close>

lemma bindE_Inr [simp]: "bindE (Inr x) f = f x"
  by (simp add: bindE_def)

lemma bindE_Inl [simp]: "bindE (Inl e) f = Inl e"
  by (simp add: bindE_def)

lemma bindE_eq_Inr: "bindE m f = Inr y \<longleftrightarrow> (\<exists>x. m = Inr x \<and> f x = Inr y)"
  by (cases m) simp_all

lemma deref_simps [simp]: "deref None = Inl TypeError" "deref (Some x) = Inr x"
  by (simp_all add: deref_def)

lemma deref_eq_Inr: "deref v = Inr x \<longleftrightarrow> v = Some x"
  by (cases v) simp_all

text \<open>
  C8: when \<^verbatim>\<open>shape.split(pt)\<close> reports zero sub-shapes, \<^verbatim>\<open>addToIntPoints\<close> emits no
  record: it returns normally, and the crossing list and the world are those it was given.
\<close>

theorem addToIntPoints_drops_degenerate:
  assumes "split env (e_shape (edges w ! edge)) p = []"
  shows "addToIntPoints env w edge p int_points = Inr (w, int_points)"
  using assms by (simp add: addToIntPoints_def)

theorem addToIntPoints_drops_degenerate_witness:
  "split (segment_env\<lparr>split := \<lambda>s q. []\<rparr>) (e_shape (edges two_squares ! 1)) (2, 4) = [] \<and>
   addToIntPoints (segment_env\<lparr>split := \<lambda>s q. []\<rparr>) two_squares 1 (2, 4) [] =
     Inr (two_squares, [])"
  using addToIntPoints_drops_degenerate
          [of "segment_env\<lparr>split := \<lambda>s q. []\<rparr>" two_squares 1 "(2, 4)" "[]"]
  by simp

lemmas run_defs = segment_env_def two_squares_def mk_edge_def seg_def seg_len_def seg_split_def
  seg_intersect_def between_def equalTo_def EQ_def LT_def GT_def
  NOT_VERTEX_def START_VERTEX_def END_VERTEX_def Let_def

lemma vertex_flags_end: "vertex_flags tol len L AND END_VERTEX \<noteq> 0 \<longleftrightarrow> EQ tol len L"
  by (simp add: vertex_flags_def NOT_VERTEX_def START_VERTEX_def END_VERTEX_def Let_def)

lemma split_len_Cons:
  "split_len (s0 # rest) L =
     (if s0 = None then 0 else if (\<exists>t. rest = None # t) then L else sh_length (the s0))"
  by (auto simp: split_len_def split: option.splits list.splits)

text \<open>
  C7: every record emitted by \<^verbatim>\<open>addToIntPoints\<close> (a new record at the end of the list,
  for a split with at least one entry) has \<open>arc_length = 0\<close> when the point is at the
  end vertex of the edge (\<open>len\<close> equals the edge's length under epsilon) and the next edge
  starts the face (\<open>arc_length = 0\<close> exactly); otherwise \<open>edge.arc_length + len\<close>.  Here
  \<open>len\<close> is 0 if the first sub-shape is \<^verbatim>\<open>null\<close>, the edge's length if the second is
  \<^verbatim>\<open>null\<close>, and the first sub-shape's length otherwise.
\<close>

theorem addToIntPoints_arc_length:
  assumes "addToIntPoints env w edge p int_points = Inr (w', int_points')"
      and "split env (e_shape (edges w ! edge)) p = s0 # rest"
  shows "\<exists>r. recs w' = recs w @ [r] \<and> int_points' = int_points @ [length (recs w)] \<and>
           (let e = edges w ! edge;
                len = (if s0 = None then 0
                       else if (\<exists>t. rest = None # t) then sh_length (e_shape e)
                       else sh_length (the s0))
            in arc_length r =
                 (if EQ (DP_TOL env) len (sh_length (e_shape e)) \<and>
                     (\<exists>n. e_next e = Some n \<and> e_arc_length (edges w ! n) = 0)
                  then 0 else e_arc_length e + len))"
proof -
  let ?e = "edges w ! edge"
  let ?L = "sh_length (e_shape ?e)"
  let ?len = "split_len (s0 # rest) ?L"
  show ?thesis
  proof (cases "EQ (DP_TOL env) ?len ?L")
    case True
    then have fl: "vertex_flags (DP_TOL env) ?len ?L AND END_VERTEX \<noteq> 0"
      by (simp only: vertex_flags_end)
    from assms fl True show ?thesis
      unfolding addToIntPoints_def Let_def split_len_Cons [symmetric]
      by (auto simp: bindE_eq_Inr deref_eq_Inr simp del: neq0_conv)
  next
    case False
    then have fl: "vertex_flags (DP_TOL env) ?len ?L AND END_VERTEX = 0"
      using vertex_flags_end [of "DP_TOL env" ?len ?L] by blast
    from assms fl False show ?thesis
      unfolding addToIntPoints_def Let_def split_len_Cons [symmetric]
      by (auto simp: bindE_eq_Inr deref_eq_Inr simp del: neq0_conv)
  qed
qed

text \<open>
  The witness is the wrap to the face origin: the point \<open>(0,0)\<close> ends edge 3 of the
  first square, whose next edge has arc length 0, so the record stores 0 and not
  \<open>12 + 4\<close>.
\<close>

theorem addToIntPoints_arc_length_witness:
  "addToIntPoints segment_env two_squares 3 (0, 0) [] =
     Inr (two_squares\<lparr>recs := [\<lparr>ip_id = 0, pt = (0, 0), arc_length = 0, edge_before = Some 3,
            edge_after = None, face = Some 0, is_vertex = 2, faceId = None\<rparr>]\<rparr>, [0]) \<and>
   split segment_env (e_shape (edges two_squares ! 3)) (0, 0) = [Some (seg (4, 0) (0, 0)), None] \<and>
   e_next (edges two_squares ! 3) = Some 0 \<and> e_arc_length (edges two_squares ! 0) = 0 \<and>
   e_arc_length (edges two_squares ! 3) = 12"
proof -
  have run: "addToIntPoints segment_env two_squares 3 (0, 0) [] =
     Inr (two_squares\<lparr>recs := [\<lparr>ip_id = 0, pt = (0, 0), arc_length = 0, edge_before = Some 3,
            edge_after = None, face = Some 0, is_vertex = 2, faceId = None\<rparr>]\<rparr>, [0])"
    by (simp add: addToIntPoints_def split_len_def vertex_flags_def run_defs)
  have sp: "split segment_env (e_shape (edges two_squares ! 3)) (0, 0) =
      [Some (seg (4, 0) (0, 0)), None]"
    by (simp add: run_defs)
  from addToIntPoints_arc_length [OF run sp] run sp show ?thesis
    by (simp add: run_defs)
qed

section \<open>Heap updates and loops\<close>

lemma upd_rec_simps [simp]:
  "recs (upd_rec r f w) = (recs w)[r := f (recs w ! r)]"
  "edges (upd_rec r f w) = edges w"
  "faces (upd_rec r f w) = faces w"
  "polys (upd_rec r f w) = polys w"
  by (simp_all add: upd_rec_def)

lemma upd_edge_simps [simp]:
  "edges (upd_edge e f w) = (edges w)[e := f (edges w ! e)]"
  "recs (upd_edge e f w) = recs w"
  "faces (upd_edge e f w) = faces w"
  "polys (upd_edge e f w) = polys w"
  by (simp_all add: upd_edge_def)

lemma foldE_invariant:
  assumes "I xs s"
      and "\<And>x ys t. I (x # ys) t \<Longrightarrow> \<exists>t'. f x t = Inr t' \<and> I ys t'"
  shows "\<exists>s'. foldE f xs s = Inr s' \<and> I [] s'"
  using assms(1)
proof (induction xs arbitrary: s)
  case Nil
  then show ?case by simp
next
  case (Cons x xs)
  from assms(2) [OF Cons.prems] obtain t' where "f x s = Inr t'" "I xs t'" by blast
  with Cons.IH [of t'] show ?case by simp
qed

section \<open>Properties of the duplicate filter\<close>

text \<open>
  C10: with fewer than two crossing records on the first polygon,
  \<^verbatim>\<open>filterDuplicatedIntersections\<close> returns at once: the world (every record, so every
  \<open>id\<close>) and the intersections object (both crossing lists and both sorted arrays) are
  returned as they were given; no record is marked or removed.
\<close>

theorem filterDuplicatedIntersections_short:
  assumes "length (int_points1 ints) < 2"
  shows "filterDuplicatedIntersections env (w, ints) = Inr (w, ints)"
  using assms by (simp add: filterDuplicatedIntersections_def)

theorem filterDuplicatedIntersections_short_witness:
  "length (int_points1 (snd one_crossing)) < 2 \<and>
   filterDuplicatedIntersections segment_env one_crossing = Inr one_crossing"
  using filterDuplicatedIntersections_short [of "snd one_crossing" segment_env "fst one_crossing"]
  by (simp add: one_crossing_def)

text \<open>Filtering two lists at the same positions.\<close>

lemma filter_same_positions:
  assumes "length xs = length ys"
      and "\<forall>i < length xs. p (xs ! i) \<longleftrightarrow> q (ys ! i)"
  shows "length (filter p xs) = length (filter q ys) \<and>
         (\<forall>k < length (filter p xs). \<exists>i < length xs.
            filter p xs ! k = xs ! i \<and> filter q ys ! k = ys ! i)"
  using assms
proof (induction xs ys rule: list_induct2)
  case Nil
  then show ?case by simp
next
  case (Cons x xs y ys)
  have hd: "p x \<longleftrightarrow> q y" using Cons.prems by (auto dest: spec [of _ 0])
  have tl: "\<forall>i < length xs. p (xs ! i) \<longleftrightarrow> q (ys ! i)"
    using Cons.prems by (auto dest: spec [of _ "Suc i" for i])
  note IH = Cons.IH [OF tl]
  show ?case
  proof (cases "p x")
    case True
    with hd have qy: "q y" by simp
    show ?thesis
    proof (intro conjI allI impI)
      show "length (filter p (x # xs)) = length (filter q (y # ys))"
        using True qy IH by simp
    next
      fix k assume k: "k < length (filter p (x # xs))"
      show "\<exists>i<length (x # xs). filter p (x # xs) ! k = (x # xs) ! i \<and>
               filter q (y # ys) ! k = (y # ys) ! i"
      proof (cases k)
        case 0
        then show ?thesis using True qy by (intro exI [of _ 0]) simp
      next
        case (Suc k')
        with k True have "k' < length (filter p xs)" by simp
        with IH obtain i where "i < length xs" "filter p xs ! k' = xs ! i"
          "filter q ys ! k' = ys ! i" by blast
        then show ?thesis using True qy Suc by (intro exI [of _ "Suc i"]) simp
      qed
    qed
  next
    case False
    with hd have qy: "\<not> q y" by simp
    show ?thesis
    proof (intro conjI allI impI)
      show "length (filter p (x # xs)) = length (filter q (y # ys))"
        using False qy IH by simp
    next
      fix k assume k: "k < length (filter p (x # xs))"
      with False have "k < length (filter p xs)" by simp
      with IH obtain i where "i < length xs" "filter p xs ! k = xs ! i"
        "filter q ys ! k = ys ! i" by blast
      then show "\<exists>i<length (x # xs). filter p (x # xs) ! k = (x # xs) ! i \<and>
               filter q (y # ys) ! k = (y # ys) ! i"
        using False qy by (intro exI [of _ "Suc i"]) simp
    qed
  qed
qed


lemma set_id_nth:
  "r < length (recs w) \<Longrightarrow>
   recs (set_id r v w) ! r' = (if r' = r then (recs w ! r)\<lparr>ip_id := v\<rparr> else recs w ! r')"
  by (simp add: set_id_def nth_list_update)

lemma set_id_length [simp]: "length (recs (set_id r v w)) = length (recs w)"
  by (simp add: set_id_def)

lemma nth_list_update_proj:
  "g (f (xs ! i)) = g (xs ! i) \<Longrightarrow> g (xs[i := f (xs ! i)] ! j) = g (xs ! j)"
  by (cases "i < length xs") (auto simp: nth_list_update not_less list_update_beyond)

lemma set_id_pt [simp]: "pt (recs (set_id r v w) ! r') = pt (recs w ! r')"
  by (simp add: set_id_def nth_list_update_proj)

lemma js_nth_int: "i < length xs \<Longrightarrow> js_nth xs (int i) = Some (xs ! i)"
  by (simp add: js_nth_def)

lemma js_nth_neg [simp]: "js_nth xs (- 1) = None"
  by (simp add: js_nth_def)

lemma lockstep_mark:
  assumes d: "distinct (P @ Q)" and len: "length P = length Q"
      and v: "\<forall>r\<in>set (P @ Q). r < length (recs w0)"
      and l: "lockstep w0 P Q w" and i: "i < length P"
  shows "lockstep w0 P Q (set_id (Q ! i) (- 1) (set_id (P ! i) (- 1) w))"
    and "lockstep w0 P Q (set_id (P ! i) (- 1) (set_id (Q ! i) (- 1) w))"
    and "\<And>j. j < length P \<Longrightarrow> j \<noteq> i \<Longrightarrow>
           recs (set_id (Q ! i) (- 1) (set_id (P ! i) (- 1) w)) ! (P ! j) = recs w ! (P ! j)"
    and "\<And>j. j < length P \<Longrightarrow> j \<noteq> i \<Longrightarrow>
           recs (set_id (P ! i) (- 1) (set_id (Q ! i) (- 1) w)) ! (Q ! j) = recs w ! (Q ! j)"
proof -
  from l have lw: "length (recs w) = length (recs w0)" by (simp add: lockstep_def)
  from v i len lw have pv: "P ! i < length (recs w)" and qv: "Q ! i < length (recs w)" by auto
  have dP: "distinct P" and dQ: "distinct Q" and dj: "set P \<inter> set Q = {}" using d by auto
  have pq: "\<And>a b. a < length P \<Longrightarrow> b < length P \<Longrightarrow> P ! a \<noteq> Q ! b"
    using dj len by (metis disjoint_iff nth_mem)
  have qp: "\<And>a b. a < length P \<Longrightarrow> b < length P \<Longrightarrow> Q ! a \<noteq> P ! b"
    using pq by metis
  have pp: "\<And>a b. a < length P \<Longrightarrow> b < length P \<Longrightarrow> P ! a = P ! b \<longleftrightarrow> a = b"
    using dP by (simp add: nth_eq_iff_index_eq)
  have qq: "\<And>a b. a < length P \<Longrightarrow> b < length P \<Longrightarrow> Q ! a = Q ! b \<longleftrightarrow> a = b"
    using dQ len by (simp add: nth_eq_iff_index_eq)
  show "lockstep w0 P Q (set_id (Q ! i) (- 1) (set_id (P ! i) (- 1) w))"
    using l i pv qv unfolding lockstep_def
    by (auto simp: set_id_nth pp qq pq qp)
  show "lockstep w0 P Q (set_id (P ! i) (- 1) (set_id (Q ! i) (- 1) w))"
    using l i pv qv unfolding lockstep_def
    by (auto simp: set_id_nth pp qq pq qp)
  show "\<And>j. j < length P \<Longrightarrow> j \<noteq> i \<Longrightarrow>
           recs (set_id (Q ! i) (- 1) (set_id (P ! i) (- 1) w)) ! (P ! j) = recs w ! (P ! j)"
    using i pv qv by (simp add: set_id_nth pp pq)
  show "\<And>j. j < length P \<Longrightarrow> j \<noteq> i \<Longrightarrow>
           recs (set_id (P ! i) (- 1) (set_id (Q ! i) (- 1) w)) ! (Q ! j) = recs w ! (Q ! j)"
    using i pv qv by (simp add: set_id_nth qq qp)
qed


lemma in_set_nth: "x \<in> set xs \<Longrightarrow> \<exists>i < length xs. xs ! i = x"
  by (simp add: in_set_conv_nth)

lemma filter_scan1_sweep:
  assumes d: "distinct (P @ Q)" and len: "length P = length Q"
      and v: "\<forall>r\<in>set (P @ Q). r < length (recs w0)"
      and ints: "int_points1 ints = P" "int_points2 ints = Q"
      and l: "lockstep w0 P Q w"
      and rest: "distinct rest" "set rest \<subseteq> set P"
      and unmarked: "\<forall>i < length P. P ! i \<in> set rest \<longrightarrow> ip_id (recs w ! (P ! i)) = int i"
      and r2: "ref2 \<noteq> None" and sq: "\<not> sq \<longrightarrow> w = w0"
  shows "\<exists>w' ref1' ref2' sq'.
           foldE (filter_scan1 env ints) rest (w, ref1, ref2, sq) = Inr (w', ref1', ref2', sq') \<and>
           lockstep w0 P Q w' \<and> (\<not> sq' \<longrightarrow> w' = w0)"
proof -
  define I where "I = (\<lambda>ys (t :: world \<times> nat \<times> nat option \<times> bool).
     case t of (w, ref1, ref2, sq) \<Rightarrow>
       lockstep w0 P Q w \<and> distinct ys \<and> set ys \<subseteq> set P \<and>
       (\<forall>i < length P. P ! i \<in> set ys \<longrightarrow> ip_id (recs w ! (P ! i)) = int i) \<and>
       ref2 \<noteq> None \<and> (\<not> sq \<longrightarrow> w = w0))"
  have start: "I rest (w, ref1, ref2, sq)"
    using l rest unmarked r2 sq by (simp add: I_def)
  have step: "\<exists>t'. filter_scan1 env ints x t = Inr t' \<and> I ys t'" if inv: "I (x # ys) t" for x ys t
  proof -
    obtain w ref1 ref2 sq where t: "t = (w, ref1, ref2, sq)" by (cases t) auto
    from inv t have lk: "lockstep w0 P Q w" and dx: "x \<notin> set ys" "distinct ys"
      and sub: "x \<in> set P" "set ys \<subseteq> set P"
      and un: "\<forall>i < length P. P ! i \<in> set (x # ys) \<longrightarrow> ip_id (recs w ! (P ! i)) = int i"
      and r2: "ref2 \<noteq> None" and sq: "\<not> sq \<longrightarrow> w = w0"
      by (auto simp: I_def)
    from sub obtain i where i: "i < length P" "P ! i = x" by (auto dest: in_set_nth)
    with un have idx: "ip_id (recs w ! x) = int i" by auto
    from i len have cur2: "js_nth Q (ip_id (recs w ! x)) = Some (Q ! i)"
      by (simp add: idx js_nth_int)
    from r2 obtain r2v where r2v: "ref2 = Some r2v" by auto
    have keep: "I ys (w, a, Some b, sq)" for a b
      using lk dx sub un sq by (auto simp: I_def)
    have marked: "I ys (set_id (Q ! i) (- 1) (set_id x (- 1) w), ref1, ref2, True)"
    proof -
      have "lockstep w0 P Q (set_id (Q ! i) (- 1) (set_id (P ! i) (- 1) w))"
        by (rule lockstep_mark(1) [OF d len v lk i(1)])
      moreover have "ip_id (recs (set_id (Q ! i) (- 1) (set_id (P ! i) (- 1) w)) ! (P ! j)) = int j"
        if "j < length P" "P ! j \<in> set ys" for j
      proof -
        from that dx i have "j \<noteq> i" by auto
        with lockstep_mark(3) [OF d len v lk i(1) that(1)] un that show ?thesis by auto
      qed
      ultimately show ?thesis using dx sub r2 i by (auto simp: I_def)
    qed
    show ?thesis
      using keep marked cur2 r2v
      by (auto simp: t filter_scan1_def ints Let_def)
  qed
  from foldE_invariant [of I rest "(w, ref1, ref2, sq)" "filter_scan1 env ints", OF start step]
  show ?thesis by (auto simp: I_def)
qed


lemma filter_scan2_sweep:
  assumes d: "distinct (P @ Q)" and len: "length P = length Q"
      and v: "\<forall>r\<in>set (P @ Q). r < length (recs w0)"
      and ints: "int_points1 ints = P" "int_points2 ints = Q"
      and l: "lockstep w0 P Q w"
      and rest: "distinct rest" "set rest \<subseteq> set Q"
      and r1: "ip_id (recs w ! ref2) \<noteq> - 1 \<longrightarrow> ref1 \<noteq> None" and sq: "\<not> sq \<longrightarrow> w = w0"
  shows "\<exists>w' ref2' ref1' sq'.
           foldE (filter_scan2 env ints) rest (w, ref2, ref1, sq) = Inr (w', ref2', ref1', sq') \<and>
           lockstep w0 P Q w' \<and> (\<not> sq' \<longrightarrow> w' = w0)"
proof -
  define I where "I = (\<lambda>ys (t :: world \<times> nat \<times> nat option \<times> bool).
     case t of (w, ref2, ref1, sq) \<Rightarrow>
       lockstep w0 P Q w \<and> distinct ys \<and> set ys \<subseteq> set Q \<and>
       (ip_id (recs w ! ref2) \<noteq> - 1 \<longrightarrow> ref1 \<noteq> None) \<and> (\<not> sq \<longrightarrow> w = w0))"
  have start: "I rest (w, ref2, ref1, sq)"
    using l rest r1 sq by (simp add: I_def)
  have step: "\<exists>t'. filter_scan2 env ints x t = Inr t' \<and> I ys t'" if inv: "I (x # ys) t" for x ys t
  proof -
    obtain w ref2 ref1 sq where t: "t = (w, ref2, ref1, sq)" by (cases t) auto
    from inv t have lk: "lockstep w0 P Q w" and dx: "x \<notin> set ys" "distinct ys"
      and sub: "x \<in> set Q" "set ys \<subseteq> set Q"
      and r1: "ip_id (recs w ! ref2) \<noteq> - 1 \<longrightarrow> ref1 \<noteq> None" and sq: "\<not> sq \<longrightarrow> w = w0"
      by (auto simp: I_def)
    from sub len obtain j where j: "j < length P" "Q ! j = x" by (auto dest: in_set_nth)
    have keep: "I ys (w, ref2, ref1, sq)"
      using lk dx sub r1 sq by (auto simp: I_def)
    show ?thesis
    proof (cases "ip_id (recs w ! x) = - 1")
      case True
      with keep show ?thesis by (simp add: t filter_scan2_def)
    next
      case False
      with lk j have idx: "ip_id (recs w ! x) = int j"
        by (auto simp: lockstep_def)
      from j have cur1: "js_nth P (ip_id (recs w ! x)) = Some (P ! j)"
        by (simp add: idx js_nth_int)
      have new_ref: "I ys (w, x, Some (P ! j), sq)"
        using lk dx sub sq by (auto simp: I_def)
      have marked: "I ys (set_id x (- 1) (set_id (P ! j) (- 1) w), ref2, Some b, True)" for b
        using lockstep_mark(1) [OF d len v lk j(1)] dx sub j by (auto simp: I_def)
      show ?thesis
      proof (cases "ip_id (recs w ! ref2) = - 1")
        case True
        with False new_ref cur1 show ?thesis
          by (simp add: t filter_scan2_def ints)
      next
        case ref_ok: False
        with r1 obtain r1v where r1v: "ref1 = Some r1v" by auto
        from False ref_ok new_ref cur1 keep marked [of r1v] show ?thesis
          by (auto simp: t filter_scan2_def ints Let_def r1v)
      qed
    qed
  qed
  from foldE_invariant [of I rest "(w, ref2, ref1, sq)" "filter_scan2 env ints", OF start step]
  show ?thesis by (auto simp: I_def)
qed

lemma fold_set_ids:
  assumes "length l = length js" and "distinct l" and "\<forall>r\<in>set l. r < length (recs w)"
  shows "length (recs (fold (\<lambda>(r, index). set_id r (int index)) (zip l js) w)) = length (recs w) \<and>
         (\<forall>r. r \<notin> set l \<longrightarrow>
            recs (fold (\<lambda>(r, index). set_id r (int index)) (zip l js) w) ! r = recs w ! r) \<and>
         (\<forall>k < length l.
            recs (fold (\<lambda>(r, index). set_id r (int index)) (zip l js) w) ! (l ! k)
              = (recs w ! (l ! k))\<lparr>ip_id := int (js ! k)\<rparr>)"
  using assms
proof (induction l js arbitrary: w rule: list_induct2)
  case Nil
  then show ?case by simp
next
  case (Cons x xs j js)
  let ?w1 = "set_id x (int j) w"
  from Cons.prems have xv: "x < length (recs w)" and xs: "x \<notin> set xs" "distinct xs"
    and v1: "\<forall>r\<in>set xs. r < length (recs ?w1)" by auto
  note IH = Cons.IH [OF xs(2) v1]
  show ?case
  proof (intro conjI allI impI)
    show "length (recs (fold (\<lambda>(r, index). set_id r (int index)) (zip (x # xs) (j # js)) w))
            = length (recs w)"
      using IH by simp
  next
    fix r assume "r \<notin> set (x # xs)"
    then show "recs (fold (\<lambda>(r, index). set_id r (int index)) (zip (x # xs) (j # js)) w) ! r
                 = recs w ! r"
      using IH xv by (simp add: set_id_nth)
  next
    fix k assume k: "k < length (x # xs)"
    show "recs (fold (\<lambda>(r, index). set_id r (int index)) (zip (x # xs) (j # js)) w) ! ((x # xs) ! k)
            = (recs w ! ((x # xs) ! k))\<lparr>ip_id := int ((j # js) ! k)\<rparr>"
    proof (cases k)
      case 0
      then show ?thesis using IH xv xs by (simp add: set_id_nth)
    next
      case (Suc k')
      with k have k': "k' < length xs" by simp
      then have "xs ! k' \<noteq> x" using xs by auto
      with IH k' xv Suc show ?thesis by (simp add: set_id_nth)
    qed
  qed
qed

lemma update_ids_props:
  assumes "distinct l" and "\<forall>r\<in>set l. r < length (recs w)"
  shows "length (recs (update_ids l w)) = length (recs w)"
    and "\<And>r. r \<notin> set l \<Longrightarrow> recs (update_ids l w) ! r = recs w ! r"
    and "\<And>k. k < length l \<Longrightarrow> recs (update_ids l w) ! (l ! k) = (recs w ! (l ! k))\<lparr>ip_id := int k\<rparr>"
  using fold_set_ids [of l "[0..<length l]" w, OF _ assms] by (simp_all add: update_ids_def)

lemma update_ids_pt: 
  assumes "distinct l" and "\<forall>r\<in>set l. r < length (recs w)"
  shows "pt (recs (update_ids l w) ! r) = pt (recs w ! r)"
proof (cases "r \<in> set l")
  case True
  then obtain k where "k < length l" "l ! k = r" by (auto dest: in_set_nth)
  with update_ids_props(3) [OF assms, of k] show ?thesis by simp
next
  case False
  with update_ids_props(2) [OF assms] show ?thesis by simp
qed


lemma set_faceId_keeps:
  "ip_id (recs (set_faceId m ip w) ! r) = ip_id (recs w ! r)"
  "pt (recs (set_faceId m ip w) ! r) = pt (recs w ! r)"
  "length (recs (set_faceId m ip w)) = length (recs w)"
  by (cases "ip < length (recs w)"; simp add: set_faceId_def nth_list_update not_less list_update_beyond)+

lemma fold_set_faceId_keeps:
  "ip_id (recs (fold (set_faceId m) l w) ! r) = ip_id (recs w ! r) \<and>
   pt (recs (fold (set_faceId m) l w) ! r) = pt (recs w ! r) \<and>
   length (recs (fold (set_faceId m) l w)) = length (recs w)"
  by (induction l arbitrary: w) (simp_all add: set_faceId_keeps)

lemma getSortedArray_keeps:
  "ip_id (recs (fst (getSortedArray env w l)) ! r) = ip_id (recs w ! r)"
  "pt (recs (fst (getSortedArray env w l)) ! r) = pt (recs w ! r)"
  "length (recs (fst (getSortedArray env w l))) = length (recs w)"
  by (simp_all add: getSortedArray_def Let_def fold_set_faceId_keeps)

lemma sortIntersections_keeps:
  "ip_id (recs (fst (sortIntersections env (w, ints))) ! r) = ip_id (recs w ! r)"
  "pt (recs (fst (sortIntersections env (w, ints))) ! r) = pt (recs w ! r)"
  "length (recs (fst (sortIntersections env (w, ints)))) = length (recs w)"
  "int_points1 (snd (sortIntersections env (w, ints))) = int_points1 ints"
  "int_points2 (snd (sortIntersections env (w, ints))) = int_points2 ints"
  by (simp_all add: sortIntersections_def Let_def split_beta getSortedArray_keeps)

lemma squeeze_paired:
  assumes d: "distinct (P @ Q)" and len: "length P = length Q"
      and v: "\<forall>r\<in>set (P @ Q). r < length (recs w0)"
      and ints: "int_points1 ints = P" "int_points2 ints = Q"
      and p0: "paired env w0 ints"
      and l: "lockstep w0 P Q w"
  shows "paired env (fst (squeeze env (w, ints))) (snd (squeeze env (w, ints)))"
proof -
  let ?keep = "\<lambda>r. ip_id (recs w ! r) \<ge> 0"
  let ?l1 = "filter ?keep P" and ?l2 = "filter ?keep Q"
  let ?w1 = "update_ids ?l1 w"
  let ?w2 = "update_ids ?l2 ?w1"
  let ?ints = "ints\<lparr>int_points1 := ?l1, int_points2 := ?l2,
                     int_points1_sorted := Some [], int_points2_sorted := Some []\<rparr>"
  have sq: "squeeze env (w, ints) = sortIntersections env (?w2, ?ints)"
    by (simp add: squeeze_def ints Let_def)
  from l have lw: "length (recs w) = length (recs w0)"
    and pts: "\<And>r. pt (recs w ! r) = pt (recs w0 ! r)"
    by (simp_all add: lockstep_def)
  have same: "\<forall>i < length P. ?keep (P ! i) \<longleftrightarrow> ?keep (Q ! i)"
    using l by (auto simp: lockstep_def)
  from filter_same_positions [OF len same]
  have ll: "length ?l1 = length ?l2"
    and pos: "\<And>k. k < length ?l1 \<Longrightarrow> \<exists>i < length P. ?l1 ! k = P ! i \<and> ?l2 ! k = Q ! i"
    by blast+
  have d1: "distinct ?l1" and d2: "distinct ?l2" using d by auto
  have v1: "\<forall>r\<in>set ?l1. r < length (recs w)" using v lw by auto
  have lw1: "length (recs ?w1) = length (recs w)"
    by (rule update_ids_props(1) [OF d1 v1])
  have v2: "\<forall>r\<in>set ?l2. r < length (recs ?w1)" using v lw lw1 by auto
  have disj: "\<And>k. k < length ?l1 \<Longrightarrow> ?l1 ! k \<notin> set ?l2"
  proof -
    fix k assume "k < length ?l1"
    then have "?l1 ! k \<in> set P" using nth_mem [of k ?l1] by auto
    then show "?l1 ! k \<notin> set ?l2" using d by auto
  qed
  have id1: "ip_id (recs ?w2 ! (?l1 ! k)) = int k" if "k < length ?l1" for k
    using update_ids_props(2) [OF d2 v2 disj [OF that]] update_ids_props(3) [OF d1 v1 that]
    by simp
  have id2: "ip_id (recs ?w2 ! (?l2 ! k)) = int k" if "k < length ?l2" for k
    using update_ids_props(3) [OF d2 v2 that] by simp
  have pt2: "pt (recs ?w2 ! r) = pt (recs w0 ! r)" for r
    using update_ids_pt [OF d2 v2] update_ids_pt [OF d1 v1] pts by simp
  have eq: "equalTo (DP_TOL env) (pt (recs w0 ! (?l1 ! k))) (pt (recs w0 ! (?l2 ! k)))"
    if "k < length ?l1" for k
  proof -
    from pos [OF that] obtain i where "i < length P" "?l1 ! k = P ! i" "?l2 ! k = Q ! i"
      by blast
    with p0 ints show ?thesis by (simp add: paired_def)
  qed
  show ?thesis
    unfolding sq paired_def
    by (simp add: sortIntersections_keeps ll id1 id2 pt2 eq)
qed

text \<open>
  C1: if the two crossing lists are paired when \<^verbatim>\<open>filterDuplicatedIntersections\<close> starts
  (as the collector leaves them, with the sorted arrays built by the sorter), then the filter
  completes, and afterwards, with or without squeeze and re-densification, the lists have
  equal length, \<open>int_points1[i].id = i\<close>, \<open>int_points2[i].id = i\<close> and the two points at
  index \<open>i\<close> are equal under epsilon.
\<close>

theorem filterDuplicatedIntersections_keeps_pairing:
  assumes wf: "crossings_wf w ints" and p0: "paired env w ints"
  shows "\<exists>w' ints'. filterDuplicatedIntersections env (w, ints) = Inr (w', ints') \<and>
           paired env w' ints'"
proof (cases "length (int_points1 ints) < 2")
  case True
  with p0 show ?thesis by (simp add: filterDuplicatedIntersections_def)
next
  case False
  define P where "P = int_points1 ints"
  define Q where "Q = int_points2 ints"
  from wf obtain s1 s2 where s: "int_points1_sorted ints = Some s1" "int_points2_sorted ints = Some s2"
    and s1: "distinct s1" "set s1 = set P" and s2: "distinct s2" "set s2 = set Q"
    and d: "distinct (P @ Q)" and v: "\<forall>r\<in>set (P @ Q). r < length (recs w)"
    by (auto simp: crossings_wf_def P_def Q_def)
  from p0 have len: "length P = length Q"
    and ids: "\<And>i. i < length P \<Longrightarrow> ip_id (recs w ! (P ! i)) = int i"
             "\<And>i. i < length P \<Longrightarrow> ip_id (recs w ! (Q ! i)) = int i"
    by (simp_all add: paired_def P_def Q_def)
  have l0: "lockstep w P Q w" using ids by (simp add: lockstep_def)
  from False have "P \<noteq> []" by (auto simp: P_def)
  with s1 len have ne1: "s1 \<noteq> []" and "Q \<noteq> []" by auto
  with s2 have ne2: "s2 \<noteq> []" by auto
  from ne1 obtain a t1 where s1c: "s1 = a # t1" by (cases s1) auto
  from ne2 obtain b t2 where s2c: "s2 = b # t2" by (cases s2) auto
  from s1 s1c obtain i where i: "i < length P" "P ! i = a" by (auto dest: in_set_nth)
  have ref2: "js_nth Q (ip_id (recs w ! a)) \<noteq> None"
    using i ids(1) [of i] len by (simp add: js_nth_int)
  have un: "\<forall>i < length P. P ! i \<in> set t1 \<longrightarrow> ip_id (recs w ! (P ! i)) = int i"
    using ids by simp
  have t1: "distinct t1" "set t1 \<subseteq> set P" using s1 s1c by auto
  from filter_scan1_sweep [where sq = False and ?ref1.0 = a and env = env,
         OF d len v P_def [symmetric] Q_def [symmetric] l0 t1 un ref2]
  obtain w1 ra rb sq1 where
    run1: "foldE (filter_scan1 env ints) t1 (w, a, js_nth Q (ip_id (recs w ! a)), False)
             = Inr (w1, ra, rb, sq1)"
    and l1: "lockstep w P Q w1" and q1: "\<not> sq1 \<longrightarrow> w1 = w"
    by auto
  from s2 s2c len obtain j where j: "j < length P" "Q ! j = b" by (auto dest: in_set_nth)
  have ref1: "ip_id (recs w1 ! b) \<noteq> - 1 \<longrightarrow> js_nth P (ip_id (recs w1 ! b)) \<noteq> None"
    using l1 j by (auto simp: lockstep_def js_nth_int)
  have t2: "distinct t2" "set t2 \<subseteq> set Q" using s2 s2c by auto
  from filter_scan2_sweep [where env = env,
         OF d len v P_def [symmetric] Q_def [symmetric] l1 t2 ref1 q1]
  obtain w2 rc rd sq2 where
    run2: "foldE (filter_scan2 env ints) t2 (w1, b, js_nth P (ip_id (recs w1 ! b)), sq1)
             = Inr (w2, rc, rd, sq2)"
    and l2: "lockstep w P Q w2" and q2: "\<not> sq2 \<longrightarrow> w2 = w"
    by auto
  have res: "filterDuplicatedIntersections env (w, ints) =
               (if sq2 then Inr (squeeze env (w2, ints)) else Inr (w2, ints))"
    using False run1 run2
    by (simp add: filterDuplicatedIntersections_def s s1c s2c js_nth_def P_def Q_def)
  show ?thesis
  proof (cases sq2)
    case True
    from squeeze_paired [OF d len v P_def [symmetric] Q_def [symmetric] p0 l2]
    show ?thesis by (simp add: res True) (metis prod.collapse)
  next
    case False
    with q2 p0 show ?thesis by (simp add: res)
  qed
qed

text \<open>
  The witness runs the filter on \<open>vertex_crossings\<close>, the state the engine reaches on
  \<open>square_and_vertex\<close>; there the second report of the crossing at \<open>(2,4)\<close> is marked on
  both sides and squeezed out.
\<close>

lemmas run_defs2 = run_defs square_and_vertex_def vertex_crossings_def mk_rec_def

lemma vertex_crossings_run:
  "bindE (getIntersections segment_env square_and_vertex 0 1) (\<lambda>s.
     case sortIntersections segment_env s of (w1, i1) \<Rightarrow>
       bindE (splitByIntersections segment_env 0 (int_points1_sorted i1) w1) (\<lambda>w2.
       bindE (splitByIntersections segment_env 1 (int_points2_sorted i1) w2) (\<lambda>w3.
         Inr (w3, i1)))) = Inr vertex_crossings"
  by (simp add: getIntersections_def getIntersections_edge1_def getIntersections_edge2_def
        getIntersections_pt_def addToIntPoints_def split_len_def vertex_flags_def
        sortIntersections_def getSortedArray_def faceMap_step_def set_faceId_def js_sort_def
        compareFn_def js_less_def splitByIntersections_def split_first_pass_def
        split_second_pass_def store_addVertex_def upd_rec_def upd_edge_def run_defs2)

lemma vertex_crossings_wf: "crossings_wf (fst vertex_crossings) (snd vertex_crossings)"
  by (simp add: crossings_wf_def vertex_crossings_def)

lemma vertex_crossings_paired: "paired segment_env (fst vertex_crossings) (snd vertex_crossings)"
  by (simp add: paired_def run_defs2 less_Suc_eq numeral_3_eq_3 all_conj_distrib)

lemma vertex_crossings_filtered:
  "filterDuplicatedIntersections segment_env vertex_crossings =
   Inr (fst vertex_crossings\<lparr>recs :=
          [mk_rec 0 (2, 4) 6 9 1 0 0, mk_rec 0 (2, 4) 2 4 5 1 2,
           mk_rec (- 1) (2, 4) 6 9 1 0 2, mk_rec (- 1) (2, 4) 2 4 5 1 2,
           mk_rec 1 (4, 2) 10 10 2 0 0, mk_rec 1 (4, 2) 14 11 8 1 0]\<rparr>,
        \<lparr>int_points1 = [0, 4], int_points2 = [1, 5],
         int_points1_sorted = Some [0, 4], int_points2_sorted = Some [1, 5]\<rparr>)"
  by (simp add: filterDuplicatedIntersections_def filter_scan1_def filter_scan2_def squeeze_def
        update_ids_def set_id_def sortIntersections_def getSortedArray_def faceMap_step_def
        set_faceId_def js_sort_def js_nth_def compareFn_def js_less_def upd_rec_def run_defs2)

theorem filterDuplicatedIntersections_keeps_pairing_witness:
  "crossings_wf (fst vertex_crossings) (snd vertex_crossings) \<and>
   paired segment_env (fst vertex_crossings) (snd vertex_crossings) \<and>
   (\<exists>w' ints'. filterDuplicatedIntersections segment_env vertex_crossings = Inr (w', ints') \<and>
      int_points1 ints' = [0, 4] \<and> int_points2 ints' = [1, 5] \<and>
      paired segment_env w' ints')"
  using filterDuplicatedIntersections_keeps_pairing
          [OF vertex_crossings_wf vertex_crossings_paired]
        vertex_crossings_wf vertex_crossings_paired vertex_crossings_filtered
  by auto

section \<open>Properties of the chain excisor\<close>


lemma chain_not_relevant_spec:
  assumes "e_overlap ef = None \<or> e_overlap ef = Some OVERLAP_SAME \<or>
           e_overlap ef = Some OVERLAP_OPPOSITE"
  shows "chain_not_relevant op is_res ef et =
           spec_delete_chain op is_res (e_bv ef) (e_bv et) (e_overlap ef)"
  using assms
  by (auto simp: chain_not_relevant_def spec_delete_chain_def overlap_has_def
        OVERLAP_SAME_def OVERLAP_OPPOSITE_def)

lemma upd_rec_idem: "upd_rec r (\<lambda>x. x\<lparr>edge_after := None\<rparr>) (upd_rec r (\<lambda>x. x\<lparr>edge_after := None\<rparr>) w)
   = upd_rec r (\<lambda>x. x\<lparr>edge_after := None\<rparr>) w"
  "upd_rec r (\<lambda>x. x\<lparr>edge_before := None\<rparr>) (upd_rec r (\<lambda>x. x\<lparr>edge_before := None\<rparr>) w)
   = upd_rec r (\<lambda>x. x\<lparr>edge_before := None\<rparr>) w"
  by (cases "r < length (recs w)"; simp add: upd_rec_def list_update_beyond not_less)+

lemma fold_idem_upd:
  assumes "\<And>w. f (f w) = f w" and "0 < n"
  shows "fold (\<lambda>k. f) [a..<a + n] w = f w"
  using assms(2)
proof (induction n)
  case 0
  then show ?case by simp
next
  case (Suc n)
  show ?case
  proof (cases "n = 0")
    case True
    then show ?thesis by simp
  next
    case False
    with Suc.IH have "fold (\<lambda>k. f) [a..<a + n] w = f w" by simp
    then show ?thesis by (simp add: assms(1))
  qed
qed

lemma intPointsPullCount_pos: "0 < intPointsPullCount env w int_points k cf"
  by (simp add: intPointsPullCount_def)

lemmas pull_defs = pull_world_def mk_rec_def run_defs BOOLEAN_UNION_def BOOLEAN_INTERSECT_def
  BOOLEAN_SUBTRACT_def OVERLAP_SAME_def OVERLAP_OPPOSITE_def overlap_has_def

lemma pull_count: "intPointsPullCount segment_env pull_world [0, 1, 2] 0 (Some 0) = 2"
  by (simp add: intPointsPullCount_def pull_defs)

lemma remove_chain_between_eq:
  assumes ok: "case edge_after (recs w ! cur) of None \<Rightarrow> True
               | Some e \<Rightarrow> e_overlap (edges w ! e) = None \<or>
                          e_overlap (edges w ! e) = Some OVERLAP_SAME \<or>
                          e_overlap (edges w ! e) = Some OVERLAP_OPPOSITE"
      and "0 < fnum" "0 < tnum"
  shows "remove_chain_between env polygon op is_res cf cur nxt fs fnum ts tnum w =
           bindE (deref (edge_after (recs w ! cur))) (\<lambda>edge_from.
           bindE (deref (edge_before (recs w ! nxt))) (\<lambda>edge_to.
             if spec_delete_chain op is_res (e_bv (edges w ! edge_from))
                  (e_bv (edges w ! edge_to)) (e_overlap (edges w ! edge_from))
             then bindE (removeChain env w polygon cf edge_from edge_to) (\<lambda>w1.
                    Inr (upd_rec nxt (\<lambda>r. r\<lparr>edge_before := None\<rparr>)
                           (upd_rec cur (\<lambda>r. r\<lparr>edge_after := None\<rparr>) w1)))
             else Inr w))"
proof (cases "edge_after (recs w ! cur)")
  case None
  then show ?thesis by (simp add: remove_chain_between_def deref_def bindE_def)
next
  case (Some e)
  with ok have fl: "e_overlap (edges w ! e) = None \<or> e_overlap (edges w ! e) = Some OVERLAP_SAME \<or>
      e_overlap (edges w ! e) = Some OVERLAP_OPPOSITE" by simp
  show ?thesis
    using assms(2,3) Some
    by (simp add: remove_chain_between_def chain_not_relevant_spec [OF fl] Let_def deref_def
        bindE_def
        fold_idem_upd [of "upd_rec cur (\<lambda>r. r\<lparr>edge_after := None\<rparr>)", OF upd_rec_idem(1)]
        fold_idem_upd [of "upd_rec nxt (\<lambda>r. r\<lparr>edge_before := None\<rparr>)", OF upd_rec_idem(2)]
        split: option.splits sum.splits)
qed

lemma run_prefix:
  "x \<notin> set (dropWhile (\<lambda>y. y = x) xs) \<Longrightarrow> i < length xs \<Longrightarrow> xs ! i = x \<Longrightarrow> k \<le> i
     \<Longrightarrow> xs ! k = x"
proof (induction xs arbitrary: i k)
  case Nil
  then show ?case by simp
next
  case (Cons a xs)
  show ?case
  proof (cases "a = x")
    case True
    show ?thesis
    proof (cases k)
      case 0
      with True show ?thesis by simp
    next
      case (Suc k')
      with Cons.prems obtain i' where i: "i = Suc i'" by (cases i) auto
      from Cons.prems True i Suc have "xs ! k' = x"
        by (intro Cons.IH [of i' k']) auto
      with Suc show ?thesis by simp
    qed
  next
    case False
    with Cons.prems have "x \<notin> set (a # xs)" by simp
    moreover from Cons.prems have "(a # xs) ! i \<in> set (a # xs)" by (intro nth_mem) simp
    ultimately show ?thesis using Cons.prems by simp
  qed
qed

lemma grouped_run:
  "grouped xs \<Longrightarrow> j < i \<Longrightarrow> i < length xs \<Longrightarrow> xs ! j = xs ! i \<Longrightarrow> xs ! (i - 1) = xs ! i"
proof (induction xs arbitrary: i j)
  case Nil
  then show ?case by simp
next
  case (Cons x xs)
  from Cons.prems obtain i' where i: "i = Suc i'" by (cases i) auto
  show ?case
  proof (cases j)
    case 0
    with Cons.prems i have x: "xs ! i' = x" and notin: "x \<notin> set (dropWhile (\<lambda>y. y = x) xs)"
      and len: "i' < length xs" by auto
    show ?thesis
    proof (cases i')
      case 0
      with i x show ?thesis by simp
    next
      case (Suc k)
      from run_prefix [OF notin len x, of k] Suc have "xs ! k = x" by simp
      with i Suc x show ?thesis by simp
    qed
  next
    case (Suc j')
    with Cons.prems i have "grouped xs" "j' < i'" "i' < length xs" "xs ! j' = xs ! i'" by auto
    from Cons.IH [OF this] have "xs ! (i' - 1) = xs ! i'" .
    moreover from \<open>j' < i'\<close> obtain k where "i' = Suc k" by (cases i') auto
    ultimately show ?thesis using i by simp
  qed
qed

lemma face_first_eq:
  assumes "i < length ips" and "\<And>j. j < i \<Longrightarrow> face (recs w ! (ips ! j)) \<noteq> face (recs w ! (ips ! i))"
  shows "face_first w ips (face (recs w ! (ips ! i))) = i"
proof -
  let ?P = "\<lambda>r. face (recs w ! r) \<noteq> face (recs w ! (ips ! i))"
  let ?k = "length (takeWhile ?P ips)"
  have ge: "i \<le> ?k"
    by (rule length_takeWhile_less_P_nth) (use assms in auto)
  have "\<not> i < ?k"
  proof
    assume "i < ?k"
    then have "ips ! i \<in> set (takeWhile ?P ips)"
      by (metis nth_mem takeWhile_nth)
    then have "?P (ips ! i)" by (rule set_takeWhileD [THEN conjunct2])
    then show False by simp
  qed
  with ge show ?thesis by (simp add: face_first_def)
qed

lemma face_first_run:
  assumes g: "faces_grouped w ips" and i: "i < length ips" and pos: "0 < i"
      and ne: "face (recs w ! (ips ! i)) \<noteq> face (recs w ! (ips ! (i - 1)))"
  shows "face_first w ips (face (recs w ! (ips ! i))) = i"
proof (rule face_first_eq [OF i])
  fix j assume j: "j < i"
  show "face (recs w ! (ips ! j)) \<noteq> face (recs w ! (ips ! i))"
  proof
    assume eq: "face (recs w ! (ips ! j)) = face (recs w ! (ips ! i))"
    let ?fs = "map (\<lambda>r. face (recs w ! r)) ips"
    from g have "grouped ?fs" by (simp add: faces_grouped_def)
    from grouped_run [OF this j, of] i j eq have "?fs ! (i - 1) = ?fs ! i" by simp
    with i pos ne show False by simp
  qed
qed

lemma pull_count_apart:
  assumes "crossings_apart (DP_TOL env) w ips" and "i < length ips"
  shows "intPointsPullCount env w ips i cf = 1"
proof (cases "Suc i < length ips")
  case False
  then have "drop (Suc i) ips = []" by simp
  then show ?thesis by (simp add: intPointsPullCount_def)
next
  case True
  then have d: "drop (Suc i) ips = ips ! Suc i # drop (Suc (Suc i)) ips"
    by (simp add: Cons_nth_drop_Suc)
  from assms(1) True have "\<not> equalTo (DP_TOL env) (pt (recs w ! (ips ! Suc i))) (pt (recs w ! (ips ! i)))"
    by (simp add: crossings_apart_def successively_conv_nth)
  then show ?thesis by (simp add: intPointsPullCount_def d)
qed


lemma upd_rec_nth:
  "recs (upd_rec a f w) ! r = (if r = a \<and> a < length (recs w) then f (recs w ! a) else recs w ! r)"
  by (cases "a < length (recs w)") (auto simp: upd_rec_def nth_list_update list_update_beyond)

lemma upd_rec_edges: "edges (upd_rec a f w) = edges w"
  by (simp add: upd_rec_def)

lemma spec_excise_frame:
  assumes c: "removeChain_contract env"
      and r: "spec_excise env polygon op is_res ips i w = Inr w1"
  shows "(\<forall>r. face (recs w1 ! r) = face (recs w ! r) \<and> pt (recs w1 ! r) = pt (recs w ! r) \<and>
              (edge_after (recs w1 ! r) = None \<or>
               edge_after (recs w1 ! r) = edge_after (recs w ! r))) \<and>
         (\<forall>e. e_overlap (edges w1 ! e) = e_overlap (edges w ! e))"
proof -
  let ?cur = "ips ! i" and ?nxt = "ips ! spec_next w ips i"
  from r have "w1 = w \<or> (\<exists>cf ef et w'. removeChain env w polygon cf ef et = Inr w' \<and>
      w1 = upd_rec ?nxt (\<lambda>r. r\<lparr>edge_before := None\<rparr>)
             (upd_rec ?cur (\<lambda>r. r\<lparr>edge_after := None\<rparr>) w'))"
    by (auto simp: spec_excise_def Let_def bindE_def deref_def
          split: option.splits sum.splits if_splits)
  then show ?thesis
  proof
    assume "w1 = w"
    then show ?thesis by simp
  next
    assume "\<exists>cf ef et w'. removeChain env w polygon cf ef et = Inr w' \<and>
      w1 = upd_rec ?nxt (\<lambda>r. r\<lparr>edge_before := None\<rparr>)
             (upd_rec ?cur (\<lambda>r. r\<lparr>edge_after := None\<rparr>) w')"
    then obtain cf ef et w' where rc: "removeChain env w polygon cf ef et = Inr w'"
      and w1: "w1 = upd_rec ?nxt (\<lambda>r. r\<lparr>edge_before := None\<rparr>)
             (upd_rec ?cur (\<lambda>r. r\<lparr>edge_after := None\<rparr>) w')" by blast
    from c rc have keep: "recs w' = recs w" "\<And>e. e_overlap (edges w' ! e) = e_overlap (edges w ! e)"
      unfolding removeChain_contract_def by blast+
    show ?thesis
      unfolding w1 by (simp add: upd_rec_nth upd_rec_edges keep del: upd_rec_simps)
  qed
qed

lemma frame_keeps:
  assumes f: "(\<forall>r. face (recs w1 ! r) = face (recs w ! r) \<and> pt (recs w1 ! r) = pt (recs w ! r) \<and>
              (edge_after (recs w1 ! r) = None \<or>
               edge_after (recs w1 ! r) = edge_after (recs w ! r))) \<and>
         (\<forall>e. e_overlap (edges w1 ! e) = e_overlap (edges w ! e))"
  shows "faces_grouped w1 ips = faces_grouped w ips"
    and "crossings_apart tol w1 ips = crossings_apart tol w ips"
    and "overlap_flags_ok w ips \<Longrightarrow> overlap_flags_ok w1 ips"
    and "face_first w1 ips g = face_first w ips g"
    and "face (recs w1 ! r) = face (recs w ! r)"
proof -
  from f have fc: "\<And>r. face (recs w1 ! r) = face (recs w ! r)"
    and p: "\<And>r. pt (recs w1 ! r) = pt (recs w ! r)"
    and ea: "\<And>r. edge_after (recs w1 ! r) = None \<or> edge_after (recs w1 ! r) = edge_after (recs w ! r)"
    and ov: "\<And>e. e_overlap (edges w1 ! e) = e_overlap (edges w ! e)" by blast+
  show "faces_grouped w1 ips = faces_grouped w ips" by (simp add: faces_grouped_def fc)
  show "crossings_apart tol w1 ips = crossings_apart tol w ips" by (simp add: crossings_apart_def p)
  show "face_first w1 ips g = face_first w ips g" by (simp add: face_first_def fc)
  show "face (recs w1 ! r) = face (recs w ! r)" by (rule fc)
  show "overlap_flags_ok w1 ips" if ok: "overlap_flags_ok w ips"
    unfolding overlap_flags_ok_def list_all_iff
  proof
    fix r assume "r \<in> set ips"
    with ok have a: "case edge_after (recs w ! r) of None \<Rightarrow> True
        | Some e \<Rightarrow> e_overlap (edges w ! e) = None \<or> e_overlap (edges w ! e) = Some OVERLAP_SAME \<or>
                   e_overlap (edges w ! e) = Some OVERLAP_OPPOSITE"
      by (simp add: overlap_flags_ok_def list_all_iff)
    from ea [of r] a
    show "case edge_after (recs w1 ! r) of None \<Rightarrow> True
        | Some e \<Rightarrow> e_overlap (edges w1 ! e) = None \<or> e_overlap (edges w1 ! e) = Some OVERLAP_SAME \<or>
                   e_overlap (edges w1 ! e) = Some OVERLAP_OPPOSITE"
      by (auto simp: ov split: option.splits)
  qed
qed

lemma loop_first:
  assumes g: "faces_grouped w ips" and i: "i < length ips" and at: "loop_at w ips i cur_face0 first0"
      and fc: "face (recs w ! (ips ! i)) = Some cf"
  shows "(if face (recs w ! (ips ! i)) \<noteq> cur_face0 then Some i else first0) =
           Some (face_first w ips (Some cf))"
proof (cases "i = 0")
  case True
  with at have "cur_face0 = None" by (simp add: loop_at_def)
  moreover have "face_first w ips (face (recs w ! (ips ! i))) = i"
    by (rule face_first_eq [OF i]) (simp add: True)
  ultimately show ?thesis using fc by simp
next
  case False
  with at have c: "cur_face0 = face (recs w ! (ips ! (i - 1)))"
    and f: "first0 = Some (face_first w ips (face (recs w ! (ips ! (i - 1)))))"
    by (simp_all add: loop_at_def)
  show ?thesis
  proof (cases "face (recs w ! (ips ! i)) = cur_face0")
    case True
    with c f fc show ?thesis by simp
  next
    case ne: False
    from face_first_run [OF g i] False ne c have "face_first w ips (face (recs w ! (ips ! i))) = i"
      by simp
    with ne fc show ?thesis by simp
  qed
qed

lemma loop_refines:
  assumes c: "removeChain_contract env"
  shows "i \<le> length ips \<Longrightarrow> faces_grouped w ips \<Longrightarrow> crossings_apart (DP_TOL env) w ips \<Longrightarrow>
         overlap_flags_ok w ips \<Longrightarrow> loop_at w ips i cur_face0 first0 \<Longrightarrow>
         removeNotRelevantChains_loop env polygon op ips is_res i cur_face0 first0 w =
           foldE (spec_excise env polygon op is_res ips) [i..<length ips] w"
proof (induction "length ips - i" arbitrary: i w cur_face0 first0 rule: less_induct)
  case less
  show ?case
  proof (cases "i < length ips")
    case False
    with less.prems have "i = length ips" by simp
    then show ?thesis by (subst removeNotRelevantChains_loop.simps) simp
  next
    case i: True
    let ?cur = "ips ! i"
    let ?step = "spec_excise env polygon op is_res ips i w"
    have upt: "[i..<length ips] = i # [Suc i..<length ips]" using i by (simp add: upt_conv_Cons)
    have rhs: "foldE (spec_excise env polygon op is_res ips) [i..<length ips] w =
        bindE ?step (foldE (spec_excise env polygon op is_res ips) [Suc i..<length ips])"
      by (simp add: upt)
    have next_ok: "removeNotRelevantChains_loop env polygon op ips is_res (Suc i)
           (face (recs w ! ?cur)) (Some (face_first w ips (face (recs w ! ?cur)))) w1 =
         foldE (spec_excise env polygon op is_res ips) [Suc i..<length ips] w1"
      if st: "?step = Inr w1" for w1
    proof -
      note fr = spec_excise_frame [OF c st]
      have "loop_at w1 ips (Suc i) (face (recs w ! ?cur))
              (Some (face_first w ips (face (recs w ! ?cur))))"
        by (simp add: loop_at_def frame_keeps(4,5) [OF fr])
      moreover have "length ips - Suc i < length ips - i" using i by simp
      moreover have "Suc i \<le> length ips" using i by simp
      ultimately show ?thesis
        using less.prems
        by (intro less.hyps) (simp_all add: frame_keeps(1,2) [OF fr] frame_keeps(3) [OF fr])
    qed
    show ?thesis
    proof (cases "face (recs w ! ?cur)")
      case None
      have "removeNotRelevantChains_loop env polygon op ips is_res i cur_face0 first0 w = Inl TypeError"
        apply (subst removeNotRelevantChains_loop.simps)
        using None i by (simp add: Let_def)
      moreover have "?step = Inl TypeError"
        using None by (simp add: spec_excise_def Let_def bindE_def deref_def)
      ultimately show ?thesis by (simp add: rhs bindE_def)
    next
      case (Some cf)
      have cf: "(if face (recs w ! ?cur) \<noteq> cur_face0 then face (recs w ! ?cur) else cur_face0) = Some cf"
        using Some by auto
      note first = loop_first [OF less.prems(2) i less.prems(5) Some]
      show ?thesis
      proof (cases "isEmpty env w cf")
        case True
        have "removeNotRelevantChains_loop env polygon op ips is_res i cur_face0 first0 w =
            removeNotRelevantChains_loop env polygon op ips is_res (Suc i) (Some cf)
              (Some (face_first w ips (Some cf))) w"
          apply (subst removeNotRelevantChains_loop.simps)
          unfolding Let_def
          apply (simp only: i if_True cf first option.case True Suc_eq_plus1)
          done
        moreover have st: "?step = Inr w"
          using Some True by (simp add: spec_excise_def Let_def bindE_def deref_def)
        ultimately show ?thesis using next_ok [OF st] Some by (simp add: rhs bindE_def)
      next
        case False
        have pc: "intPointsPullCount env w ips i (Some cf) = 1"
          by (rule pull_count_apart [OF less.prems(3) i])
        have step: "i + (1 - 1) + 1 = Suc i" by simp
        have nn: "(if i + 1 < length ips \<and> face (recs w ! (ips ! (i + 1))) = face (recs w ! ?cur)
                   then Some (i + 1) else Some (face_first w ips (Some cf))) =
                  Some (spec_next w ips i)"
          using Some by (simp add: spec_next_def)
        from less.prems(4) i have ok: "case edge_after (recs w ! ?cur) of None \<Rightarrow> True
               | Some e \<Rightarrow> e_overlap (edges w ! e) = None \<or>
                          e_overlap (edges w ! e) = Some OVERLAP_SAME \<or>
                          e_overlap (edges w ! e) = Some OVERLAP_OPPOSITE"
          by (simp add: overlap_flags_ok_def list_all_iff)
        have rc: "remove_chain_between env polygon op is_res cf ?cur (ips ! spec_next w ips i) i 1
              (spec_next w ips i) (intPointsPullCount env w ips (spec_next w ips i) (Some cf)) w = ?step"
          using Some False
          by (simp add: remove_chain_between_eq [OF ok _ intPointsPullCount_pos]
                spec_excise_def Let_def bindE_def deref_def)
        have "removeNotRelevantChains_loop env polygon op ips is_res i cur_face0 first0 w =
            (case ?step of Inl err \<Rightarrow> Inl err
             | Inr w1 \<Rightarrow> removeNotRelevantChains_loop env polygon op ips is_res (Suc i) (Some cf)
                          (Some (face_first w ips (Some cf))) w1)"
          apply (subst removeNotRelevantChains_loop.simps)
          unfolding Let_def
          apply (simp only: i if_True cf first option.case False if_False pc nn rc step)
          done
        also have "\<dots> = bindE ?step (foldE (spec_excise env polygon op is_res ips) [Suc i..<length ips])"
          using next_ok Some by (cases ?step) (simp_all add: bindE_def)
        finally show ?thesis by (simp add: rhs)
      qed
    qed
  qed
qed



lemma segment_env_removeChain: "removeChain_contract segment_env"
  by (simp add: removeChain_contract_def segment_env_def)

lemma judged_squares_spec:
  "spec_removeChains segment_env 0 BOOLEAN_UNION True [0, 2] (fst judged_squares) =
     Inr ((fst judged_squares)\<lparr>recs :=
            [(mk_rec 0 (2, 4) 6 8 1 0 0)\<lparr>edge_after := None\<rparr>, mk_rec 0 (2, 4) 2 10 4 1 0,
             (mk_rec 1 (4, 2) 10 9 2 0 0)\<lparr>edge_before := None\<rparr>, mk_rec 1 (4, 2) 14 11 7 1 0]\<rparr>)"
  by (simp add: spec_removeChains_def spec_excise_def spec_next_def face_first_def
        spec_delete_chain_def upd_rec_def judged_squares_def deref_def bindE_def pull_defs)


lemma pull_world_excised:
  "removeNotRelevantChains segment_env 0 BOOLEAN_UNION (Some [0, 1, 2]) True pull_world =
     Inr (pull_world\<lparr>recs :=
            [(mk_rec 0 (2, 4) 6 4 5 0 2)\<lparr>edge_after := None\<rparr>, mk_rec 1 (2, 4) 6 4 5 0 2,
             (mk_rec 2 (3, 4) 7 5 1 0 2)\<lparr>edge_before := None\<rparr>]\<rparr>)"
  by (simp add: removeNotRelevantChains_def remove_chain_between_def chain_not_relevant_def
        intPointsPullCount_def upd_rec_def pull_defs)

text \<open>
  C2 fails on the code.  On \<open>pull_world\<close> the records 0 and 1 form the from-pull of the
  chain that is removed (the pull has two members), and after the call the second member
  still has its \<open>edge_after\<close>: each update loop assigns to the one captured record
  (\<^verbatim>\<open>int_point_current\<close>, \<^verbatim>\<open>int_point_next\<close>) and not to the member at index \<open>k\<close>.
\<close>

theorem removeNotRelevantChains_leaves_pull_member:
  "\<exists>w'. removeNotRelevantChains segment_env 0 BOOLEAN_UNION (Some [0, 1, 2]) True pull_world = Inr w' \<and>
     intPointsPullCount segment_env pull_world [0, 1, 2] 0 (Some 0) = 2 \<and>
     edge_after (recs w' ! ([0, 1, 2] ! 0)) = None \<and>
     edge_after (recs w' ! ([0, 1, 2] ! 1)) = Some 5"
proof -
  let ?w = "pull_world\<lparr>recs :=
            [(mk_rec 0 (2, 4) 6 4 5 0 2)\<lparr>edge_after := None\<rparr>, mk_rec 1 (2, 4) 6 4 5 0 2,
             (mk_rec 2 (3, 4) 7 5 1 0 2)\<lparr>edge_before := None\<rparr>]\<rparr>"
  have a: "edge_after (recs ?w ! ([0, 1, 2] ! 0)) = None"
    and b: "edge_after (recs ?w ! ([0, 1, 2] ! 1)) = Some 5"
    by (simp_all add: mk_rec_def)
  from pull_world_excised pull_count a b show ?thesis by blast
qed

section \<open>Properties of the restitcher\<close>


lemmas restitch_defs = copyWrkToRes_def copyWrkToRes_face_def swapLinks_def swapLinks_step_def
  swap_simple_def swap_touching_def swap_touching_step_def connect_def js_nth_def
  upd_rec_def upd_edge_def

lemma faces_delete_recs [simp]: "recs (faces_delete p f w) = recs w"
  by (simp add: faces_delete_def)

lemma clear_edge_face_recs [simp]: "recs (clear_edge_face e w) = recs w"
  by (cases e) (simp_all add: clear_edge_face_def)

lemma removeOldFaces_step_keeps:
  "edge_after (recs (removeOldFaces_step p ip w) ! r) = edge_after (recs w ! r)"
  "edge_before (recs (removeOldFaces_step p ip w) ! r) = edge_before (recs w ! r)"
  by (cases "ip < length (recs w)";
      simp add: removeOldFaces_step_def Let_def nth_list_update not_less list_update_beyond)+

lemma removeOldFaces_keeps:
  "edge_after (recs (removeOldFaces p ips w) ! r) = edge_after (recs w ! r) \<and>
   edge_before (recs (removeOldFaces p ips w) ! r) = edge_before (recs w ! r)"
  unfolding removeOldFaces_def
  by (induction ips arbitrary: w) (simp_all add: removeOldFaces_step_keeps)

lemma restoreFaces_step_skip:
  assumes "edge_before (recs w ! ip) = None \<or> edge_after (recs w ! ip) = None"
  shows "restoreFaces_step env p ips other ip w = Inr w"
  using assms by (auto simp: restoreFaces_step_def split: option.splits)

lemma restoreFaces_all_skipped:
  assumes "\<forall>ip\<in>set xs. edge_before (recs w ! ip) = None \<or> edge_after (recs w ! ip) = None"
  shows "foldE (restoreFaces_step env p ips other) xs w = Inr w"
  using assms by (induction xs) (simp_all add: restoreFaces_step_skip)

lemmas excise_defs = removeNotRelevantChains_def remove_chain_between_def chain_not_relevant_def
  intPointsPullCount_def upd_rec_def pull_defs

lemma judged_squares_excised:
  "bindE (removeNotRelevantChains segment_env 0 BOOLEAN_UNION
            (int_points1_sorted (snd judged_squares)) True (fst judged_squares))
     (removeNotRelevantChains segment_env 1 BOOLEAN_UNION
        (int_points2_sorted (snd judged_squares)) False) = Inr (fst dead_ends)"
proof -
  have "removeNotRelevantChains segment_env 0 BOOLEAN_UNION
          (int_points1_sorted (snd judged_squares)) True (fst judged_squares) =
        Inr ((fst judged_squares)\<lparr>recs :=
          [(mk_rec 0 (2, 4) 6 8 1 0 0)\<lparr>edge_after := None\<rparr>, mk_rec 0 (2, 4) 2 10 4 1 0,
           (mk_rec 1 (4, 2) 10 9 2 0 0)\<lparr>edge_before := None\<rparr>, mk_rec 1 (4, 2) 14 11 7 1 0]\<rparr>)"
    by (simp add: excise_defs judged_squares_def)
  moreover have "removeNotRelevantChains segment_env 1 BOOLEAN_UNION
          (int_points2_sorted (snd judged_squares)) False
          ((fst judged_squares)\<lparr>recs :=
          [(mk_rec 0 (2, 4) 6 8 1 0 0)\<lparr>edge_after := None\<rparr>, mk_rec 0 (2, 4) 2 10 4 1 0,
           (mk_rec 1 (4, 2) 10 9 2 0 0)\<lparr>edge_before := None\<rparr>, mk_rec 1 (4, 2) 14 11 7 1 0]\<rparr>) =
        Inr (fst dead_ends)"
    by (simp add: excise_defs judged_squares_def dead_ends_def)
  ultimately show ?thesis by (simp only: bindE_Inr)
qed

lemma dead_ends_copy:
  "copyWrkToRes segment_env 0 1 BOOLEAN_UNION (int_points2 (snd dead_ends)) (fst dead_ends) =
     Inr (fst dead_ends)"
  by (simp add: restitch_defs dead_ends_def judged_squares_def mk_rec_def run_defs)

lemma dead_ends_swap:
  "swapLinks segment_env 0 1 (snd dead_ends) (fst dead_ends) = Inr (fst dead_ends)"
  by (simp add: restitch_defs dead_ends_def judged_squares_def mk_rec_def run_defs upt_conv_Cons)


section \<open>Properties of the sorter\<close>


lemma compareFn_total: "compareFn tol a b \<le> 0 \<or> compareFn tol b a \<le> 0"
  by (auto simp: compareFn_def LT_def GT_def)

lemma compareFn_le:
  assumes "compareFn tol a b \<le> 0" "faceId a = Some x" "faceId b = Some y" "0 \<le> tol"
  shows "x \<le> y \<and> (x = y \<longrightarrow> \<not> GT tol (arc_length a) (arc_length b))"
  using assms by (auto simp: compareFn_def js_less_def LT_def GT_def split: if_splits)

lemma insort_cmp_successively:
  assumes total: "\<And>a b. cmp a b \<le> 0 \<or> cmp b a \<le> 0"
      and "successively (\<lambda>a b. cmp a b \<le> 0) ys"
  shows "successively (\<lambda>a b. cmp a b \<le> 0) (insort_cmp cmp x ys)"
  using assms(2)
proof (induction ys)
  case Nil
  then show ?case by simp
next
  case (Cons y ys)
  show ?case
  proof (cases "cmp x y \<le> 0")
    case True
    with Cons.prems show ?thesis by simp
  next
    case False
    with total [of x y] have yx: "cmp y x \<le> 0" by simp
    from Cons.prems have s: "successively (\<lambda>a b. cmp a b \<le> 0) ys"
      by (cases ys) simp_all
    note IH = Cons.IH [OF s]
    show ?thesis
    proof (cases ys)
      case Nil
      with False yx show ?thesis by simp
    next
      case (Cons z zs)
      with Cons.prems have yz: "cmp y z \<le> 0" by simp
      from False IH yx yz Cons show ?thesis by auto
    qed
  qed
qed

lemma js_sort_successively:
  assumes "\<And>a b. cmp a b \<le> 0 \<or> cmp b a \<le> 0"
  shows "successively (\<lambda>a b. cmp a b \<le> 0) (js_sort cmp xs)"
  unfolding js_sort_def
  by (induction xs) (simp_all add: insort_cmp_successively [OF assms])

lemma insort_cmp_set [simp]: "set (insort_cmp cmp x ys) = insert x (set ys)"
  by (induction ys) auto

lemma insort_cmp_length [simp]: "length (insort_cmp cmp x ys) = Suc (length ys)"
  by (induction ys) auto

lemma insort_cmp_distinct: "distinct (insort_cmp cmp x ys) \<longleftrightarrow> x \<notin> set ys \<and> distinct ys"
  by (induction ys) auto

lemma js_sort_set [simp]: "set (js_sort cmp xs) = set xs"
  unfolding js_sort_def by (induction xs) simp_all

lemma js_sort_length [simp]: "length (js_sort cmp xs) = length xs"
  unfolding js_sort_def by (induction xs) simp_all

lemma js_sort_distinct [simp]: "distinct (js_sort cmp xs) \<longleftrightarrow> distinct xs"
  unfolding js_sort_def by (induction xs) (simp_all add: insort_cmp_distinct js_sort_def [symmetric])

lemma insort_cmp_count: "count_list (insort_cmp cmp x ys) z = count_list (x # ys) z"
  by (induction ys) auto

lemma js_sort_count: "count_list (js_sort cmp xs) z = count_list xs z"
  unfolding js_sort_def by (induction xs) (simp_all add: insort_cmp_count)

text \<open>The face map after the first loop.\<close>

lemma first_seen_index_snoc_old:
  assumes "x \<in> set xs"
  shows "first_seen_index (xs @ [y]) x = first_seen_index xs x"
proof -
  from assms obtain z where "z \<in> set xs" "\<not> z \<noteq> x" by auto
  then have "takeWhile (\<lambda>y. y \<noteq> x) (xs @ [y]) = takeWhile (\<lambda>y. y \<noteq> x) xs"
    by (rule takeWhile_append1)
  then show ?thesis by (simp add: first_seen_index_def)
qed

lemma first_seen_index_snoc_new:
  assumes "x \<notin> set xs"
  shows "first_seen_index (xs @ [x]) x = card (set xs)"
proof -
  have "takeWhile (\<lambda>y. y \<noteq> x) (xs @ [x]) = xs @ takeWhile (\<lambda>y. y \<noteq> x) [x]"
    using assms by (intro takeWhile_append2) auto
  then show ?thesis by (simp add: first_seen_index_def)
qed

lemma faceMap_fold:
  "fold (faceMap_step w) ips (Map.empty, 0) = (m, n) \<Longrightarrow>
     n = card (set (map (\<lambda>ip. face (recs w ! ip)) ips)) \<and>
     dom m = set (map (\<lambda>ip. face (recs w ! ip)) ips) \<and>
     (\<forall>f \<in> set (map (\<lambda>ip. face (recs w ! ip)) ips).
        m f = Some (first_seen_index (map (\<lambda>ip. face (recs w ! ip)) ips) f))"
proof (induction ips arbitrary: m n rule: rev_induct)
  case Nil
  then show ?case by auto
next
  case (snoc x xs)
  let ?fs = "map (\<lambda>ip. face (recs w ! ip)) xs"
  let ?g = "face (recs w ! x)"
  obtain m0 n0 where f0: "fold (faceMap_step w) xs (Map.empty, 0) = (m0, n0)"
    by (cases "fold (faceMap_step w) xs (Map.empty, 0)") auto
  note IH = snoc.IH [OF f0]
  from snoc.prems f0 have step: "faceMap_step w x (m0, n0) = (m, n)" by simp
  show ?case
  proof (cases "?g \<in> set ?fs")
    case True
    with IH have "m0 ?g \<noteq> None" by auto
    with step have mn: "m = m0" "n = n0" by (auto simp: faceMap_step_def)
    from True have "set (?fs @ [?g]) = set ?fs" by auto
    with IH mn True show ?thesis
      by (auto simp: first_seen_index_snoc_old insert_absorb)
  next
    case False
    with IH have none: "m0 ?g = None" by (metis domIff)
    with step have mn: "m = m0(?g \<mapsto> n0)" "n = n0 + 1" by (auto simp: faceMap_step_def)
    from False have card: "card (set (?fs @ [?g])) = card (set ?fs) + 1" by simp
    show ?thesis
    proof (intro conjI ballI)
      show "n = card (set (map (\<lambda>ip. face (recs w ! ip)) (xs @ [x])))"
        using mn IH card by simp
      show "dom m = set (map (\<lambda>ip. face (recs w ! ip)) (xs @ [x]))"
        using mn IH by auto
    next
      fix f assume "f \<in> set (map (\<lambda>ip. face (recs w ! ip)) (xs @ [x]))"
      then consider "f = ?g" | "f \<noteq> ?g" "f \<in> set ?fs" by auto
      then show "m f = Some (first_seen_index (map (\<lambda>ip. face (recs w ! ip)) (xs @ [x])) f)"
      proof cases
        case 1
        with mn IH False show ?thesis by (auto simp: first_seen_index_snoc_new)
      next
        case 2
        with mn IH show ?thesis by (auto simp: first_seen_index_snoc_old)
      qed
    qed
  qed
qed


lemma insort_cmp_mset [simp]: "mset (insort_cmp cmp x ys) = add_mset x (mset ys)"
  by (induction ys) auto

lemma js_sort_mset [simp]: "mset (js_sort cmp xs) = mset xs"
  unfolding js_sort_def by (induction xs) simp_all

lemma fold_set_faceId_nth:
  assumes "\<forall>r\<in>set ips. r < length (recs w)"
  shows "recs (fold (set_faceId m) ips w) ! r =
           (if r \<in> set ips then (recs w ! r)\<lparr>faceId := m (face (recs w ! r))\<rparr> else recs w ! r)"
  using assms
proof (induction ips arbitrary: w)
  case Nil
  then show ?case by simp
next
  case (Cons x xs)
  let ?w1 = "set_faceId m x w"
  from Cons.prems have xv: "x < length (recs w)" by simp
  have r1: "recs ?w1 ! r = (if r = x then (recs w ! x)\<lparr>faceId := m (face (recs w ! x))\<rparr>
                            else recs w ! r)" for r
    using xv by (simp add: set_faceId_def nth_list_update)
  have len: "length (recs ?w1) = length (recs w)" by (simp add: set_faceId_def)
  from Cons.prems len have v1: "\<forall>r\<in>set xs. r < length (recs ?w1)" by simp
  show ?case
    using Cons.IH [OF v1] by (simp add: r1)
qed

text \<open>
  C6, as amended: \<^verbatim>\<open>getSortedArray\<close> returns a rearrangement of the list it is given,
  whose records are stamped with a \<open>faceId\<close> assigned densely in first-seen order (and are
  otherwise unchanged); along the sorted list the \<open>faceId\<close> is ascending, and of two
  consecutive records on the same face the first does not have the greater \<open>arc_length\<close>
  under the oracle's epsilon comparison.  Nothing is said of \<open>edge_before\<close> and
  \<open>edge_after\<close>.
\<close>

theorem getSortedArray_ordered:
  assumes run: "getSortedArray env w int_points = (w1, sorted_points)"
      and valid: "\<forall>r\<in>set int_points. r < length (recs w)"
      and tol: "0 \<le> DP_TOL env"
  shows "let fid = (\<lambda>r. first_seen_index (map (\<lambda>ip. face (recs w ! ip)) int_points)
                          (face (recs w ! r)))
         in mset sorted_points = mset int_points \<and>
            (\<forall>r\<in>set int_points. recs w1 ! r = (recs w ! r)\<lparr>faceId := Some (fid r)\<rparr>) \<and>
            sorted (map fid sorted_points) \<and>
            successively
              (\<lambda>a b. fid a = fid b \<longrightarrow>
                 \<not> GT (DP_TOL env) (arc_length (recs w ! a)) (arc_length (recs w ! b)))
              sorted_points"
proof -
  define faces where "faces = map (\<lambda>ip. face (recs w ! ip)) int_points"
  define fid where "fid = (\<lambda>r. first_seen_index faces (face (recs w ! r)))"
  obtain m n where fm: "fold (faceMap_step w) int_points (Map.empty, 0) = (m, n)"
    by (cases "fold (faceMap_step w) int_points (Map.empty, 0)") auto
  from faceMap_fold [OF fm]
  have m: "\<And>r. r \<in> set int_points \<Longrightarrow> m (face (recs w ! r)) = Some (fid r)"
    by (auto simp: fid_def faces_def)
  let ?cmp = "\<lambda>r1 r2. compareFn (DP_TOL env) (recs w1 ! r1) (recs w1 ! r2)"
  from run fm have w1: "w1 = fold (set_faceId m) int_points w"
    and s: "sorted_points = js_sort ?cmp int_points"
    by (auto simp: getSortedArray_def Let_def)
  have stamped: "recs w1 ! r = (recs w ! r)\<lparr>faceId := Some (fid r)\<rparr>" if "r \<in> set int_points" for r
    using that m by (simp add: w1 fold_set_faceId_nth [OF valid])
  have perm: "mset sorted_points = mset int_points" by (simp add: s)
  then have set_eq: "set sorted_points = set int_points" by (metis set_mset_mset)
  have succ: "successively (\<lambda>a b. ?cmp a b \<le> 0) sorted_points"
    unfolding s by (rule js_sort_successively) (rule compareFn_total)
  have le: "fid a \<le> fid b \<and>
            (fid a = fid b \<longrightarrow> \<not> GT (DP_TOL env) (arc_length (recs w ! a)) (arc_length (recs w ! b)))"
    if "a \<in> set int_points" "b \<in> set int_points" "?cmp a b \<le> 0" for a b
    using compareFn_le [OF that(3) _ _ tol, of "fid a" "fid b"] stamped that by simp
  have succ2: "successively (\<lambda>a b. fid a \<le> fid b \<and>
            (fid a = fid b \<longrightarrow> \<not> GT (DP_TOL env) (arc_length (recs w ! a)) (arc_length (recs w ! b))))
          sorted_points"
    unfolding successively_conv_nth
  proof (intro allI impI)
    fix i assume i: "Suc i < length sorted_points"
    then have "sorted_points ! i \<in> set int_points" "sorted_points ! Suc i \<in> set int_points"
      using set_eq nth_mem [of i sorted_points] nth_mem [of "Suc i" sorted_points] by auto
    moreover from succ i have "?cmp (sorted_points ! i) (sorted_points ! Suc i) \<le> 0"
      by (simp add: successively_conv_nth)
    ultimately show "fid (sorted_points ! i) \<le> fid (sorted_points ! Suc i) \<and>
       (fid (sorted_points ! i) = fid (sorted_points ! Suc i) \<longrightarrow>
        \<not> GT (DP_TOL env) (arc_length (recs w ! (sorted_points ! i)))
             (arc_length (recs w ! (sorted_points ! Suc i))))"
      by (rule le)
  qed
  have "successively (\<lambda>a b. fid a \<le> fid b) sorted_points"
    by (rule successively_mono [OF succ2]) simp
  then have "successively (\<le>) (map fid sorted_points)" by (simp add: successively_map)
  then have sorted: "sorted (map fid sorted_points)"
    by (simp add: successively_conv_sorted_wrt [where P = "(\<le>)"] transp_def)
  have arcs: "successively (\<lambda>a b. fid a = fid b \<longrightarrow>
            \<not> GT (DP_TOL env) (arc_length (recs w ! a)) (arc_length (recs w ! b))) sorted_points"
    by (rule successively_mono [OF succ2]) simp
  from perm stamped sorted arcs show ?thesis
    unfolding Let_def fid_def faces_def by blast
qed


lemmas sort_defs = getSortedArray_def faceMap_step_def set_faceId_def js_sort_def compareFn_def
  js_less_def upd_rec_def mk_collected_def square_and_vertex_def run_defs

lemmas slit_defs = segment_env_def slit_world_def mk_edge_def seg_def seg_len_def seg_split_def
  seg_intersect_def between_def equalTo_def EQ_def LT_def GT_def
  NOT_VERTEX_def START_VERTEX_def END_VERTEX_def Let_def

lemma slit_collected:
  "bindE (getIntersections segment_env slit_world 0 1) (\<lambda>s. Inr (sortIntersections segment_env s))
     = Inr slit_sorted"
  by (simp add: getIntersections_def getIntersections_edge1_def getIntersections_edge2_def
        getIntersections_pt_def addToIntPoints_def split_len_def vertex_flags_def
        sortIntersections_def getSortedArray_def faceMap_step_def set_faceId_def js_sort_def
        compareFn_def js_less_def upd_rec_def slit_sorted_def mk_collected_def slit_defs)

lemma slit_order:
  "int_points2_sorted (snd slit_sorted) = Some [1, 3, 5, 7] \<and>
   face (recs (fst slit_sorted) ! 1) = face (recs (fst slit_sorted) ! 5) \<and>
   GT (DP_TOL segment_env) (arc_length (recs (fst slit_sorted) ! 1))
      (arc_length (recs (fst slit_sorted) ! 5)) \<and>
   EQ (DP_TOL segment_env) (arc_length (recs (fst slit_sorted) ! 3))
      (arc_length (recs (fst slit_sorted) ! 5))"
  by (simp add: slit_sorted_def mk_collected_def slit_defs)

lemma slit_split:
  "\<exists>w'. bindE (splitByIntersections segment_env 0 (int_points1_sorted (snd slit_sorted))
                 (fst slit_sorted))
            (splitByIntersections segment_env 1 (int_points2_sorted (snd slit_sorted))) = Inr w' \<and>
     filterDuplicatedIntersections segment_env (w', snd slit_sorted) = Inr (w', snd slit_sorted) \<and>
     arc_length (recs w' ! 3) = arc_length (recs (fst slit_sorted) ! 3) \<and>
     arc_length (recs w' ! 5) = arc_length (recs (fst slit_sorted) ! 5) \<and>
     edge_before (recs w' ! 3) = Some 16 \<and> edge_after (recs w' ! 3) = Some 17 \<and>
     edge_before (recs w' ! 5) = Some 17 \<and> edge_after (recs w' ! 5) = Some 8"
  by (simp add: splitByIntersections_def split_first_pass_def split_second_pass_def
        store_addVertex_def upd_rec_def upd_edge_def slit_sorted_def mk_collected_def
        filterDuplicatedIntersections_def filter_scan1_def filter_scan2_def deref_def js_nth_def
        slit_defs)

text \<open>
  C6 as stated fails.  On \<open>slit_world\<close> the collector and the sorter produce the state
  \<open>slit_sorted\<close>, in which the sorted list of the square is \<open>1, 3, 5, 7\<close>.  The
  records 1, 3 and 5 lie on the same face with the arc lengths \<open>2.0016\<close>,
  \<open>2.0008\<close> and \<open>2\<close>: each is equal to its neighbour under the epsilon comparison,
  so the sort leaves them in the order of collection, and record 1 comes before record 5
  although its arc length is \<open>GT\<close> that of record 5.  So within a face the arc length is
  non-decreasing under epsilon only from one record to the next, not along the list.  After
  both lists have been split, and after the duplicate filter (which changes nothing here), the
  neighbours 3 and 5, whose arc lengths are still equal under epsilon, have different
  \<open>edge_before\<close> and different \<open>edge_after\<close>: the run is not a pull.
\<close>

theorem getSortedArray_run_counterexample:
  "bindE (getIntersections segment_env slit_world 0 1) (\<lambda>s. Inr (sortIntersections segment_env s))
     = Inr slit_sorted \<and>
   int_points2_sorted (snd slit_sorted) = Some [1, 3, 5, 7] \<and>
   face (recs (fst slit_sorted) ! 1) = face (recs (fst slit_sorted) ! 5) \<and>
   GT (DP_TOL segment_env) (arc_length (recs (fst slit_sorted) ! 1))
      (arc_length (recs (fst slit_sorted) ! 5)) \<and>
   EQ (DP_TOL segment_env) (arc_length (recs (fst slit_sorted) ! 3))
      (arc_length (recs (fst slit_sorted) ! 5)) \<and>
   (\<exists>w'. bindE (splitByIntersections segment_env 0 (int_points1_sorted (snd slit_sorted))
                  (fst slit_sorted))
             (splitByIntersections segment_env 1 (int_points2_sorted (snd slit_sorted))) = Inr w' \<and>
      filterDuplicatedIntersections segment_env (w', snd slit_sorted) = Inr (w', snd slit_sorted) \<and>
      arc_length (recs w' ! 3) = arc_length (recs (fst slit_sorted) ! 3) \<and>
      arc_length (recs w' ! 5) = arc_length (recs (fst slit_sorted) ! 5) \<and>
      edge_before (recs w' ! 3) = Some 16 \<and> edge_after (recs w' ! 3) = Some 17 \<and>
      edge_before (recs w' ! 5) = Some 17 \<and> edge_after (recs w' ! 5) = Some 8)"
  using slit_collected slit_order slit_split by (intro conjI) blast+

lemma sorter_faces_run:
  "getSortedArray segment_env sorter_faces [0, 1, 2, 3] =
     (sorter_faces\<lparr>recs :=
        [(mk_collected 0 (2, 6) 4 5 1 2)\<lparr>faceId := Some 0\<rparr>,
         (mk_collected 1 (4, 0) 12 2 0 2)\<lparr>faceId := Some 1\<rparr>,
         (mk_collected 2 (2, 4) 2 4 1 2)\<lparr>faceId := Some 0\<rparr>,
         (mk_collected 3 (0, 4) 4 0 0 2)\<lparr>faceId := Some 1\<rparr>]\<rparr>, [2, 0, 3, 1])"
  by (simp add: sorter_faces_def sort_defs)

theorem getSortedArray_ordered_witness:
  "getSortedArray segment_env sorter_faces [0, 1, 2, 3] =
     (sorter_faces\<lparr>recs :=
        [(mk_collected 0 (2, 6) 4 5 1 2)\<lparr>faceId := Some 0\<rparr>,
         (mk_collected 1 (4, 0) 12 2 0 2)\<lparr>faceId := Some 1\<rparr>,
         (mk_collected 2 (2, 4) 2 4 1 2)\<lparr>faceId := Some 0\<rparr>,
         (mk_collected 3 (0, 4) 4 0 0 2)\<lparr>faceId := Some 1\<rparr>]\<rparr>, [2, 0, 3, 1]) \<and>
   list_all (\<lambda>r. r < length (recs sorter_faces)) [0, 1, 2, 3] \<and>
   0 \<le> DP_TOL segment_env \<and>
   (let fid = (\<lambda>r. first_seen_index (map (\<lambda>ip. face (recs sorter_faces ! ip)) [0, 1, 2, 3])
                     (face (recs sorter_faces ! r)))
    in mset [2, 0, 3, 1] = mset [0::nat, 1, 2, 3] \<and>
       (\<forall>r\<in>set [0, 1, 2, 3].
          recs (sorter_faces\<lparr>recs :=
                 [(mk_collected 0 (2, 6) 4 5 1 2)\<lparr>faceId := Some 0\<rparr>,
                  (mk_collected 1 (4, 0) 12 2 0 2)\<lparr>faceId := Some 1\<rparr>,
                  (mk_collected 2 (2, 4) 2 4 1 2)\<lparr>faceId := Some 0\<rparr>,
                  (mk_collected 3 (0, 4) 4 0 0 2)\<lparr>faceId := Some 1\<rparr>]\<rparr>) ! r =
            (recs sorter_faces ! r)\<lparr>faceId := Some (fid r)\<rparr>) \<and>
       sorted (map fid [2, 0, 3, 1]) \<and>
       successively
         (\<lambda>a b. fid a = fid b \<longrightarrow>
            \<not> GT (DP_TOL segment_env) (arc_length (recs sorter_faces ! a))
                 (arc_length (recs sorter_faces ! b)))
         [2, 0, 3, 1])"
proof -
  have valid: "\<forall>r\<in>set [0, 1, 2, 3]. r < length (recs sorter_faces)"
    by (simp add: sorter_faces_def)
  have tol: "0 \<le> DP_TOL segment_env" by (simp add: segment_env_def)
  have inside: "list_all (\<lambda>r. r < length (recs sorter_faces)) [0, 1, 2, 3]"
    by (simp add: sorter_faces_def)
  from getSortedArray_ordered [OF sorter_faces_run valid tol] sorter_faces_run inside tol
  show ?thesis by (intro conjI)
qed

section \<open>Properties of the splitter\<close>

lemma foldE_preserves:
  assumes "foldE f xs s = Inr s'" and "I xs s"
      and "\<And>x ys t t'. I (x # ys) t \<Longrightarrow> f x t = Inr t' \<Longrightarrow> I ys t'"
  shows "I [] s'"
  using assms(1,2)
proof (induction xs arbitrary: s)
  case Nil
  then show ?case by simp
next
  case (Cons x xs)
  from Cons.prems(1) obtain t where t: "f x s = Inr t" "foldE f xs t = Inr s'"
    by (auto simp: bindE_eq_Inr)
  from assms(3) [OF Cons.prems(2) t(1)] have "I xs t" .
  with Cons.IH t(2) show ?case by blast
qed

lemma equalTo_refl: "0 < tol \<Longrightarrow> equalTo tol p p"
  by (simp add: equalTo_def EQ_def)

lemma segment_env_run:
  "squares_sorted =
     (case getIntersections segment_env two_squares 0 1 of
        Inr s \<Rightarrow> sortIntersections segment_env s)"
  by (simp add: getIntersections_def getIntersections_edge1_def getIntersections_edge2_def
        getIntersections_pt_def addToIntPoints_def split_len_def vertex_flags_def
        sortIntersections_def getSortedArray_def faceMap_step_def set_faceId_def js_sort_def
        compareFn_def js_less_def upd_rec_def squares_sorted_def mk_collected_def run_defs)

lemma ring_ok_recs [simp]: "ring_ok (upd_rec r f w) = ring_ok w"
  by (simp add: ring_ok_def)

lemma split_first_pass_cases:
  assumes eb: "edge_before (recs w ! x) = Some e"
      and run: "split_first_pass env polygon x w = Inr w'"
  obtains
    (at_start) "equalTo (DP_TOL env) (sh_start (e_shape (edges w ! e))) (pt (recs w ! x))"
            "w' = upd_rec x (\<lambda>r. r\<lparr>edge_before := e_prev (edges w ! e), is_vertex := END_VERTEX\<rparr>) w"
  | (at_end) iv where "equalTo (DP_TOL env) (sh_end (e_shape (edges w ! e))) (pt (recs w ! x))"
            "w' = upd_rec x (\<lambda>r. r\<lparr>is_vertex := iv\<rparr>) w"
  | (inside) w1 n where
            "addVertex env (upd_rec x (\<lambda>r. r\<lparr>is_vertex := NOT_VERTEX\<rparr>) w) polygon (pt (recs w ! x)) e
               = Inr (w1, n)"
            "w' = upd_rec x (\<lambda>r. r\<lparr>edge_before := Some n\<rparr>) w1"
proof (cases "equalTo (DP_TOL env) (sh_start (e_shape (edges w ! e))) (pt (recs w ! x))")
  case True
  with run eb have "w' = upd_rec x (\<lambda>r. r\<lparr>edge_before := e_prev (edges w ! e), is_vertex := END_VERTEX\<rparr>) w"
    by (auto simp: split_first_pass_def Let_def NOT_VERTEX_def START_VERTEX_def END_VERTEX_def
             split: if_splits)
  with True show ?thesis by (rule at_start)
next
  case False
  show ?thesis
  proof (cases "equalTo (DP_TOL env) (sh_end (e_shape (edges w ! e))) (pt (recs w ! x))")
    case True
    with run eb False have "w' = upd_rec x (\<lambda>r. r\<lparr>is_vertex := NOT_VERTEX OR END_VERTEX\<rparr>) w"
      by (auto simp: split_first_pass_def Let_def NOT_VERTEX_def START_VERTEX_def END_VERTEX_def
               split: if_splits)
    with True show ?thesis by (rule at_end)
  next
    case nend: False
    with run eb False obtain w1 n where
      "addVertex env (upd_rec x (\<lambda>r. r\<lparr>is_vertex := NOT_VERTEX\<rparr>) w) polygon (pt (recs w ! x)) e
               = Inr (w1, n)"
      "w' = upd_rec x (\<lambda>r. r\<lparr>edge_before := Some n\<rparr>) w1"
      by (auto simp: split_first_pass_def Let_def NOT_VERTEX_def START_VERTEX_def END_VERTEX_def
                     bindE_eq_Inr split: if_splits)
    then show ?thesis by (rule inside)
  qed
qed


lemma ring_ok_prev:
  assumes "ring_ok w" "e < length (edges w)"
  obtains p where "e_prev (edges w ! e) = Some p" "p < length (edges w)"
    "sh_end (e_shape (edges w ! p)) = sh_start (e_shape (edges w ! e))"
proof -
  from assms obtain p where p: "e_prev (edges w ! e) = Some p" "p < length (edges w)"
    "e_next (edges w ! p) = Some e"
    unfolding ring_ok_def by blast
  from assms(1) p(2) obtain n where "e_next (edges w ! p) = Some n"
    "sh_start (e_shape (edges w ! n)) = sh_end (e_shape (edges w ! p))"
    unfolding ring_ok_def by blast
  with p have "sh_end (e_shape (edges w ! p)) = sh_start (e_shape (edges w ! e))" by simp
  with p that show ?thesis by blast
qed

lemma ring_ok_next:
  assumes "ring_ok w" "e < length (edges w)"
  obtains n where "e_next (edges w ! e) = Some n" "n < length (edges w)"
    "sh_start (e_shape (edges w ! n)) = sh_end (e_shape (edges w ! e))"
  using assms unfolding ring_ok_def by blast

lemma addVertex_contractD:
  assumes "addVertex_contract env" "ring_ok w" "e < length (edges w)"
      and "addVertex env w polygon p e = Inr (w', n)"
  shows "ring_ok w'" "recs w' = recs w" "length (edges w) \<le> length (edges w')"
    "\<And>x. x < length (edges w) \<Longrightarrow>
       sh_end (e_shape (edges w' ! x)) = sh_end (e_shape (edges w ! x))"
    "n < length (edges w')" "sh_end (e_shape (edges w' ! n)) = p"
  using assms(1) [unfolded addVertex_contract_def, rule_format,
                  OF conjI [OF assms(2) conjI [OF assms(3) assms(4)]]]
  by blast+

lemma split_first_pass_step:
  assumes c: "addVertex_contract env" and tol: "0 < DP_TOL env"
      and ring: "ring_ok w"
      and xv: "split_valid x w"
      and run: "split_first_pass env polygon x w = Inr w'"
  shows "ring_ok w' \<and> split_good (DP_TOL env) x w' \<and>
         (\<forall>r. split_valid r w \<longrightarrow> split_valid r w') \<and>
         (\<forall>r. r \<noteq> x \<longrightarrow> split_good (DP_TOL env) r w \<longrightarrow> split_good (DP_TOL env) r w')"
proof -
  from xv obtain e where x: "x < length (recs w)" and eb: "edge_before (recs w ! x) = Some e"
    and e: "e < length (edges w)"
    by (auto simp: split_valid_def)
  from eb run show ?thesis
  proof (cases rule: split_first_pass_cases)
    case at_start
    from ring e obtain p where p: "e_prev (edges w ! e) = Some p" "p < length (edges w)"
      "sh_end (e_shape (edges w ! p)) = sh_start (e_shape (edges w ! e))"
      by (rule ring_ok_prev)
    show ?thesis
      using at_start ring x p
      by (auto simp: split_good_def split_valid_def nth_list_update)
  next
    case (at_end iv)
    show ?thesis
      using at_end ring x eb e
      by (auto simp: split_good_def split_valid_def nth_list_update)
  next
    case (inside w1 n)
    let ?wa = "upd_rec x (\<lambda>r. r\<lparr>is_vertex := NOT_VERTEX\<rparr>) w"
    have ra: "ring_ok ?wa" and ea: "e < length (edges ?wa)" using ring e by simp_all
    note k = addVertex_contractD [OF c ra ea inside(1)]
    have r1: "ring_ok w1" by (rule k(1))
    have recs1: "recs w1 = recs ?wa" by (rule k(2))
    have len: "length (edges w) \<le> length (edges w1)" using k(3) by simp
    have ends: "sh_end (e_shape (edges w1 ! y)) = sh_end (e_shape (edges w ! y))"
      if "y < length (edges w)" for y using k(4) [of y] that by simp
    have n: "n < length (edges w1)" "sh_end (e_shape (edges w1 ! n)) = pt (recs w ! x)"
      by (rule k(5), rule k(6))
    have rx: "recs w' ! x = (recs w ! x)\<lparr>is_vertex := NOT_VERTEX, edge_before := Some n\<rparr>"
      using inside(2) recs1 x by simp
    have ro: "recs w' ! r = recs w ! r" if "r \<noteq> x" for r
      using inside(2) recs1 that by simp
    have lr: "length (recs w') = length (recs w)" using inside(2) recs1 by simp
    have ew: "edges w' = edges w1" using inside(2) by simp
    have "ring_ok w'" using r1 inside(2) by simp
    moreover have "split_good (DP_TOL env) x w'"
      using rx ew n tol by (auto simp: split_good_def equalTo_refl)
    moreover have "split_valid r w'" if "split_valid r w" for r
    proof (cases "r = x")
      case True
      then show ?thesis using rx ew n lr x by (simp add: split_valid_def)
    next
      case False
      with that ro [OF False] ew len lr show ?thesis by (auto simp: split_valid_def)
    qed
    moreover have "split_good (DP_TOL env) r w'" if "r \<noteq> x" "split_good (DP_TOL env) r w" for r
      using that ro [OF that(1)] ew len ends by (auto simp: split_good_def)
    ultimately show ?thesis by blast
  qed
qed


lemma split_first_pass_fold:
  assumes c: "addVertex_contract env" and tol: "0 < DP_TOL env"
      and run: "foldE (split_first_pass env polygon) ips w = Inr w1"
      and ring: "ring_ok w"
      and valid: "\<forall>r\<in>set ips. split_valid r w"
  shows "ring_ok w1 \<and> (\<forall>r\<in>set ips. split_valid r w1 \<and> split_good (DP_TOL env) r w1)"
proof -
  define I where "I = (\<lambda>rem (t :: world). \<exists>done. ips = done @ rem \<and> ring_ok t \<and>
      (\<forall>r\<in>set ips. split_valid r t) \<and> (\<forall>r\<in>set done. split_good (DP_TOL env) r t))"
  have start: "I ips w" using ring valid by (auto simp: I_def)
  have step: "I ys t'" if inv: "I (x # ys) t" and st: "split_first_pass env polygon x t = Inr t'"
    for x ys t t'
  proof -
    from inv obtain dn where dn: "ips = dn @ x # ys" "ring_ok t"
      "\<forall>r\<in>set ips. split_valid r t" "\<forall>r\<in>set dn. split_good (DP_TOL env) r t"
      by (auto simp: I_def)
    then have xv: "split_valid x t" by simp
    note k = split_first_pass_step [OF c tol dn(2) xv st]
    have "ips = (dn @ [x]) @ ys" using dn(1) by simp
    moreover have "\<forall>r\<in>set (dn @ [x]). split_good (DP_TOL env) r t'"
      using k dn(4) by auto
    moreover have "\<forall>r\<in>set ips. split_valid r t'" using k dn(3) by blast
    ultimately show ?thesis using k unfolding I_def by blast
  qed
  from foldE_preserves [of "split_first_pass env polygon" ips w w1 I, OF run start step]
  show ?thesis by (auto simp: I_def)
qed

lemma split_second_pass_fold:
  assumes run: "foldE split_second_pass ips w1 = Inr w2"
      and valid: "\<forall>r\<in>set ips. r < length (recs w1)"
  shows "edges w2 = edges w1 \<and>
         (\<forall>r. edge_before (recs w2 ! r) = edge_before (recs w1 ! r) \<and>
              pt (recs w2 ! r) = pt (recs w1 ! r)) \<and>
         (\<forall>r\<in>set ips. \<exists>eb. edge_before (recs w1 ! r) = Some eb \<and>
              edge_after (recs w2 ! r) = e_next (edges w1 ! eb))"
proof -
  define I where "I = (\<lambda>rem (t :: world). \<exists>done. ips = done @ rem \<and> edges t = edges w1 \<and>
      length (recs t) = length (recs w1) \<and>
      (\<forall>r. edge_before (recs t ! r) = edge_before (recs w1 ! r) \<and>
           pt (recs t ! r) = pt (recs w1 ! r)) \<and>
      (\<forall>r\<in>set done. \<exists>eb. edge_before (recs w1 ! r) = Some eb \<and>
           edge_after (recs t ! r) = e_next (edges w1 ! eb)))"
  have start: "I ips w1" by (auto simp: I_def)
  have step: "I ys t'" if inv: "I (x # ys) t" and st: "split_second_pass x t = Inr t'"
    for x ys t t'
  proof -
    from inv obtain dn where dn: "ips = dn @ x # ys" "edges t = edges w1"
      "length (recs t) = length (recs w1)"
      "\<And>r. edge_before (recs t ! r) = edge_before (recs w1 ! r)"
      "\<And>r. pt (recs t ! r) = pt (recs w1 ! r)"
      "\<forall>r\<in>set dn. \<exists>eb. edge_before (recs w1 ! r) = Some eb \<and>
           edge_after (recs t ! r) = e_next (edges w1 ! eb)"
      by (auto simp: I_def)
    from dn(1) valid dn(3) have xl: "x < length (recs t)" by simp
    from st obtain eb where eb: "edge_before (recs t ! x) = Some eb"
      and t': "t' = upd_rec x (\<lambda>r. r\<lparr>edge_after := e_next (edges t ! eb)\<rparr>) t"
      by (auto simp: split_second_pass_def bindE_eq_Inr deref_eq_Inr)
    have nth: "recs t' ! r = (if r = x then (recs t ! x)\<lparr>edge_after := e_next (edges w1 ! eb)\<rparr>
                              else recs t ! r)" for r
      using xl by (simp add: t' dn(2) nth_list_update)
    have "ips = (dn @ [x]) @ ys" using dn(1) by simp
    moreover have "edges t' = edges w1" "length (recs t') = length (recs w1)"
      using dn(2,3) by (simp_all add: t')
    moreover have "edge_before (recs t' ! r) = edge_before (recs w1 ! r) \<and>
                   pt (recs t' ! r) = pt (recs w1 ! r)" for r
      using dn(4,5) by (simp add: nth)
    moreover have "\<forall>r\<in>set (dn @ [x]). \<exists>eb. edge_before (recs w1 ! r) = Some eb \<and>
           edge_after (recs t' ! r) = e_next (edges w1 ! eb)"
      using dn(6) eb dn(4) [of x] by (auto simp: nth)
    ultimately show ?thesis unfolding I_def by blast
  qed
  from foldE_preserves [of split_second_pass ips w1 w2 I, OF run start step]
  show ?thesis by (auto simp: I_def)
qed

text \<open>
  Claim C4.  When \<open>splitByIntersections\<close> returns on a polygon and a list of crossing records,
  every record of the list has \<open>edge_after\<close> equal to the \<open>next\<close> of its \<open>edge_before\<close>,
  the shape of \<open>edge_before\<close> ends at the point of the record and the shape of
  \<open>edge_after\<close> starts there, both up to the tolerance.  The store's \<open>addVertex\<close> is a
  parameter that meets its contract; the edges form well-linked rings before the call, the
  tolerance is positive, and every record enters with an \<open>edge_before\<close> of the store.
\<close>

theorem splitByIntersections_links:
  assumes contract: "addVertex_contract env" and tol: "0 < DP_TOL env"
      and ring: "ring_ok w"
      and valid: "\<forall>r\<in>set ips. r < length (recs w) \<and>
                    (\<exists>e. edge_before (recs w ! r) = Some e \<and> e < length (edges w))"
      and run: "splitByIntersections env polygon (Some ips) w = Inr w'"
  shows "\<forall>r\<in>set ips. \<exists>eb ea.
           edge_before (recs w' ! r) = Some eb \<and> edge_after (recs w' ! r) = Some ea \<and>
           e_next (edges w' ! eb) = Some ea \<and>
           equalTo (DP_TOL env) (sh_end (e_shape (edges w' ! eb))) (pt (recs w' ! r)) \<and>
           equalTo (DP_TOL env) (sh_start (e_shape (edges w' ! ea))) (pt (recs w' ! r))"
proof
  fix r assume r: "r \<in> set ips"
  from run obtain w1 where p1: "foldE (split_first_pass env polygon) ips w = Inr w1"
    and p2: "foldE split_second_pass ips w1 = Inr w'"
    by (auto simp: splitByIntersections_def bindE_eq_Inr)
  from valid have v: "\<forall>r\<in>set ips. split_valid r w" by (simp add: split_valid_def)
  from split_first_pass_fold [OF contract tol p1 ring v] r
  have ring1: "ring_ok w1" and v1: "\<forall>r\<in>set ips. split_valid r w1"
    and g1: "split_good (DP_TOL env) r w1"
    by auto
  from v1 have "\<forall>r\<in>set ips. r < length (recs w1)" by (simp add: split_valid_def)
  from split_second_pass_fold [OF p2 this] r
  have e2: "edges w' = edges w1"
    and b2: "edge_before (recs w' ! r) = edge_before (recs w1 ! r)"
    and pt2: "pt (recs w' ! r) = pt (recs w1 ! r)"
    and a2: "\<exists>eb. edge_before (recs w1 ! r) = Some eb \<and>
               edge_after (recs w' ! r) = e_next (edges w1 ! eb)"
    by auto
  from g1 obtain eb where eb: "edge_before (recs w1 ! r) = Some eb" "eb < length (edges w1)"
    "equalTo (DP_TOL env) (sh_end (e_shape (edges w1 ! eb))) (pt (recs w1 ! r))"
    by (auto simp: split_good_def)
  from ring1 eb(2) obtain ea where ea: "e_next (edges w1 ! eb) = Some ea"
    "sh_start (e_shape (edges w1 ! ea)) = sh_end (e_shape (edges w1 ! eb))"
    by (rule ring_ok_next)
  from a2 eb(1) ea(1) have "edge_after (recs w' ! r) = Some ea" by simp
  with eb ea b2 pt2 e2
  show "\<exists>eb ea.
           edge_before (recs w' ! r) = Some eb \<and> edge_after (recs w' ! r) = Some ea \<and>
           e_next (edges w' ! eb) = Some ea \<and>
           equalTo (DP_TOL env) (sh_end (e_shape (edges w' ! eb))) (pt (recs w' ! r)) \<and>
           equalTo (DP_TOL env) (sh_start (e_shape (edges w' ! ea))) (pt (recs w' ! r))"
    by simp
qed


lemma seg_split_inside:
  assumes "seg_split tol s p = [Some s0, Some s1]"
  shows "sh_start s0 = sh_start s \<and> sh_end s0 = p \<and> sh_start s1 = p \<and> sh_end s1 = sh_end s"
  using assms by (auto simp: seg_split_def seg_def split: if_splits)

lemma store_addVertex_result:
  assumes "store_addVertex splt w polygon p e = Inr (w', n)"
  obtains s0 s1 pb where
    "splt (e_shape (edges w ! e)) p = [Some s0, Some s1]"
    "e_prev (edges w ! e) = Some pb"
    "n = length (edges w)"
    "recs w' = recs w"
    "edges w' =
       ((edges w @ [(edges w ! e)\<lparr>e_shape := s0, e_next := Some e\<rparr>])
          [pb := ((edges w @ [(edges w ! e)\<lparr>e_shape := s0, e_next := Some e\<rparr>]) ! pb)
                   \<lparr>e_next := Some (length (edges w))\<rparr>])
          [e := (((edges w @ [(edges w ! e)\<lparr>e_shape := s0, e_next := Some e\<rparr>])
                   [pb := ((edges w @ [(edges w ! e)\<lparr>e_shape := s0, e_next := Some e\<rparr>]) ! pb)
                            \<lparr>e_next := Some (length (edges w))\<rparr>]) ! e)
                  \<lparr>e_shape := s1, e_prev := Some (length (edges w)),
                    e_arc_length := e_arc_length
                       (((edges w @ [(edges w ! e)\<lparr>e_shape := s0, e_next := Some e\<rparr>])
                   [pb := ((edges w @ [(edges w ! e)\<lparr>e_shape := s0, e_next := Some e\<rparr>]) ! pb)
                            \<lparr>e_next := Some (length (edges w))\<rparr>]) ! e) + sh_length s0\<rparr>]"
  using assms
  by (auto simp: store_addVertex_def Let_def bindE_eq_Inr deref_eq_Inr upd_edge_def
           split: list.splits option.splits)


lemma ring_okD:
  assumes "ring_ok w" "x < length (edges w)"
  obtains n p where "e_next (edges w ! x) = Some n" "n < length (edges w)"
    "e_prev (edges w ! x) = Some p" "p < length (edges w)"
    "e_prev (edges w ! n) = Some x" "e_next (edges w ! p) = Some x"
    "sh_start (e_shape (edges w ! n)) = sh_end (e_shape (edges w ! x))"
  using assms unfolding ring_ok_def by blast

lemma store_addVertex_contract:
  assumes sp: "\<And>s p s0 s1. splt s p = [Some s0, Some s1] \<Longrightarrow>
                 sh_start s0 = sh_start s \<and> sh_end s0 = p \<and> sh_start s1 = p \<and> sh_end s1 = sh_end s"
      and env: "addVertex env = store_addVertex splt"
  shows "addVertex_contract env"
  unfolding addVertex_contract_def
proof (intro allI impI, elim conjE)
  fix w polygon p e w' n
  assume ring: "ring_ok w" and e: "e < length (edges w)"
    and run: "addVertex env w polygon p e = Inr (w', n)"
  let ?E = "length (edges w)"
  let ?old = "edges w"
  from run env have "store_addVertex splt w polygon p e = Inr (w', n)" by simp
  then obtain s0 s1 pb where
    split: "splt (e_shape (?old ! e)) p = [Some s0, Some s1]"
    and pb: "e_prev (?old ! e) = Some pb"
    and n: "n = ?E" and recs: "recs w' = recs w"
    and ed: "edges w' =
       ((?old @ [(?old ! e)\<lparr>e_shape := s0, e_next := Some e\<rparr>])
          [pb := ((?old @ [(?old ! e)\<lparr>e_shape := s0, e_next := Some e\<rparr>]) ! pb)
                   \<lparr>e_next := Some ?E\<rparr>])
          [e := (((?old @ [(?old ! e)\<lparr>e_shape := s0, e_next := Some e\<rparr>])
                   [pb := ((?old @ [(?old ! e)\<lparr>e_shape := s0, e_next := Some e\<rparr>]) ! pb)
                            \<lparr>e_next := Some ?E\<rparr>]) ! e)
                  \<lparr>e_shape := s1, e_prev := Some ?E,
                    e_arc_length := e_arc_length
                       (((?old @ [(?old ! e)\<lparr>e_shape := s0, e_next := Some e\<rparr>])
                   [pb := ((?old @ [(?old ! e)\<lparr>e_shape := s0, e_next := Some e\<rparr>]) ! pb)
                            \<lparr>e_next := Some ?E\<rparr>]) ! e) + sh_length s0\<rparr>]"
    by (rule store_addVertex_result)
  from sp [OF split] have s0: "sh_start s0 = sh_start (e_shape (?old ! e))" "sh_end s0 = p"
    and s1: "sh_start s1 = p" "sh_end s1 = sh_end (e_shape (?old ! e))" by auto
  from ring e pb obtain nx where nx: "e_next (?old ! e) = Some nx" "nx < ?E" "pb < ?E"
    "e_prev (?old ! nx) = Some e" "e_next (?old ! pb) = Some e"
    "sh_start (e_shape (?old ! nx)) = sh_end (e_shape (?old ! e))"
    by (auto elim!: ring_okD)
  have len: "length (edges w') = Suc ?E" by (simp add: ed)
  have at_e: "e_shape (edges w' ! e) = s1" "e_prev (edges w' ! e) = Some ?E"
    "e_next (edges w' ! e) = (if pb = e then Some ?E else Some nx)"
    using e nx by (simp_all add: ed nth_list_update nth_append)
  have at_E: "e_shape (edges w' ! ?E) = s0" "e_prev (edges w' ! ?E) = Some pb"
    "e_next (edges w' ! ?E) = Some e"
    using e nx pb by (simp_all add: ed nth_list_update nth_append)
  have at_pb: "e_next (edges w' ! pb) = Some ?E"
    "pb \<noteq> e \<Longrightarrow> e_shape (edges w' ! pb) = e_shape (?old ! pb)"
    "pb \<noteq> e \<Longrightarrow> e_prev (edges w' ! pb) = e_prev (?old ! pb)"
    using e nx by (simp_all add: ed nth_list_update nth_append)
  have other: "edges w' ! x = ?old ! x" if "x < ?E" "x \<noteq> e" "x \<noteq> pb" for x
    using that by (simp add: ed nth_list_update nth_append)
  have shape_keep: "e_shape (edges w' ! x) = e_shape (?old ! x)" if "x < ?E" "x \<noteq> e" for x
    using that at_pb(2) other by (cases "x = pb") auto
  have prev_keep: "e_prev (edges w' ! x) = e_prev (?old ! x)" if "x < ?E" "x \<noteq> e" for x
    using that at_pb(3) other by (cases "x = pb") auto
  have next_keep: "e_next (edges w' ! x) = e_next (?old ! x)" if "x < ?E" "x \<noteq> pb" for x
    using that other at_e(3) nx(1) by (cases "x = e") auto
  have ends: "sh_end (e_shape (edges w' ! x)) = sh_end (e_shape (?old ! x))" if "x < ?E" for x
    using that shape_keep [of x] at_e(1) s1(2) by (cases "x = e") auto
  have ring': "ring_ok w'"
    unfolding ring_ok_def len
  proof (intro allI impI)
    fix x assume "x < Suc ?E"
    then consider "x = ?E" | "x = e" | "x = pb" "pb \<noteq> e" | "x < ?E" "x \<noteq> e" "x \<noteq> pb"
      by force
    then show "\<exists>n p. e_next (edges w' ! x) = Some n \<and> n < Suc ?E \<and>
              e_prev (edges w' ! x) = Some p \<and> p < Suc ?E \<and>
              e_prev (edges w' ! n) = Some x \<and> e_next (edges w' ! p) = Some x \<and>
              sh_start (e_shape (edges w' ! n)) = sh_end (e_shape (edges w' ! x))"
    proof cases
      case 1
      show ?thesis
        using 1 at_E at_e at_pb(1) e nx(3) s0 s1 by auto
    next
      case 2
      show ?thesis
      proof (cases "pb = e")
        case True
        with nx(1,5) have "nx = e" by simp
        with 2 True at_e at_E s0 s1 nx(6) show ?thesis by auto
      next
        case False
        with nx(4) pb have ne: "nx \<noteq> e" by auto
        have "e_prev (edges w' ! nx) = Some e" using prev_keep [OF nx(2) ne] nx(4) by simp
        moreover have "sh_start (e_shape (edges w' ! nx)) = sh_end s1"
          using shape_keep [OF nx(2) ne] nx(6) s1 by simp
        ultimately show ?thesis using 2 False at_e at_E nx(2) by auto
      qed
    next
      case 3
      from ring nx(3) obtain pp where pp: "e_prev (?old ! pb) = Some pp" "pp < ?E"
        "e_next (?old ! pp) = Some pb"
        by (auto elim!: ring_okD)
      from pp(3) nx(5) 3(2) have "pp \<noteq> pb" by auto
      then have np: "e_next (edges w' ! pp) = Some pb" using next_keep [OF pp(2)] pp(3) by simp
      from ring nx(3) nx(5) have "sh_start (e_shape (?old ! e)) = sh_end (e_shape (?old ! pb))"
        by (auto elim!: ring_okD)
      then have "sh_start (e_shape (edges w' ! ?E)) = sh_end (e_shape (edges w' ! pb))"
        using at_E(1) s0(1) ends [OF nx(3)] by simp
      with 3 at_pb pp np at_E show ?thesis by auto
    next
      case 4
      from ring 4(1) obtain xn xp where x: "e_next (?old ! x) = Some xn" "xn < ?E"
        "e_prev (?old ! x) = Some xp" "xp < ?E"
        "e_prev (?old ! xn) = Some x" "e_next (?old ! xp) = Some x"
        "sh_start (e_shape (?old ! xn)) = sh_end (e_shape (?old ! x))"
        by (rule ring_okD)
      from x(5) pb 4(3) have a: "xn \<noteq> e" by auto
      from x(6) nx(5) 4(2) have b: "xp \<noteq> pb" by auto
      have "e_prev (edges w' ! xn) = Some x" using prev_keep [OF x(2) a] x(5) by simp
      moreover have "e_next (edges w' ! xp) = Some x" using next_keep [OF x(4) b] x(6) by simp
      moreover have "sh_start (e_shape (edges w' ! xn)) = sh_end (e_shape (edges w' ! x))"
        using shape_keep [OF x(2) a] other [OF 4] x(7) by simp
      ultimately show ?thesis using other [OF 4] x by auto
    qed
  qed
  show "ring_ok w' \<and> recs w' = recs w \<and> length (edges w) \<le> length (edges w') \<and>
          (\<forall>x < length (edges w).
             sh_end (e_shape (edges w' ! x)) = sh_end (e_shape (edges w ! x))) \<and>
          n < length (edges w') \<and> sh_end (e_shape (edges w' ! n)) = p"
    using ring' recs len ends n at_E(1) s0(2) by simp
qed

lemma segment_env_contract: "addVertex_contract segment_env"
  by (rule store_addVertex_contract [where splt = "seg_split (1 / 1000)"])
     (simp_all add: seg_split_inside segment_env_def)


lemma squares_ring: "ring_ok (fst squares_sorted)"
  unfolding ring_ok_def
proof (intro allI impI)
  fix e assume "e < length (edges (fst squares_sorted))"
  then have "e < 8" by (simp add: squares_sorted_def two_squares_def)
  then consider "e = 0" | "e = 1" | "e = 2" | "e = 3" | "e = 4" | "e = 5" | "e = 6" | "e = 7"
    by arith
  then show "\<exists>n p. e_next (edges (fst squares_sorted) ! e) = Some n \<and>
       n < length (edges (fst squares_sorted)) \<and>
       e_prev (edges (fst squares_sorted) ! e) = Some p \<and>
       p < length (edges (fst squares_sorted)) \<and>
       e_prev (edges (fst squares_sorted) ! n) = Some e \<and>
       e_next (edges (fst squares_sorted) ! p) = Some e \<and>
       sh_start (e_shape (edges (fst squares_sorted) ! n)) =
       sh_end (e_shape (edges (fst squares_sorted) ! e))"
    by cases (simp_all add: squares_sorted_def two_squares_def mk_edge_def seg_def)
qed

lemma squares_split:
  "\<exists>w'. splitByIntersections segment_env 0 (Some [0, 2]) (fst squares_sorted) = Inr w'"
  by (simp add: splitByIntersections_def split_first_pass_def split_second_pass_def
        store_addVertex_def upd_rec_def upd_edge_def squares_sorted_def mk_collected_def
        run_defs)

theorem splitByIntersections_links_witness:
  "addVertex_contract segment_env \<and> 0 < DP_TOL segment_env \<and> ring_ok (fst squares_sorted) \<and>
   list_all (\<lambda>r. r < length (recs (fst squares_sorted)) \<and>
      (\<exists>e. edge_before (recs (fst squares_sorted) ! r) = Some e \<and>
           e < length (edges (fst squares_sorted)))) [0, 2] \<and>
   (\<exists>w'. splitByIntersections segment_env 0 (Some [0, 2]) (fst squares_sorted) = Inr w' \<and>
      (\<forall>r\<in>set [0, 2]. \<exists>eb ea.
         edge_before (recs w' ! r) = Some eb \<and> edge_after (recs w' ! r) = Some ea \<and>
         e_next (edges w' ! eb) = Some ea \<and>
         equalTo (DP_TOL segment_env) (sh_end (e_shape (edges w' ! eb))) (pt (recs w' ! r)) \<and>
         equalTo (DP_TOL segment_env) (sh_start (e_shape (edges w' ! ea))) (pt (recs w' ! r))))"
proof -
  have tol: "0 < DP_TOL segment_env" by (simp add: segment_env_def)
  have valid: "\<forall>r\<in>set [0, 2]. r < length (recs (fst squares_sorted)) \<and>
      (\<exists>e. edge_before (recs (fst squares_sorted) ! r) = Some e \<and>
           e < length (edges (fst squares_sorted)))"
    by (simp add: squares_sorted_def mk_collected_def two_squares_def)
  from squares_split obtain w' where
    run: "splitByIntersections segment_env 0 (Some [0, 2]) (fst squares_sorted) = Inr w'" ..
  from valid have inside: "list_all (\<lambda>r. r < length (recs (fst squares_sorted)) \<and>
      (\<exists>e. edge_before (recs (fst squares_sorted) ! r) = Some e \<and>
           e < length (edges (fst squares_sorted)))) [0, 2]"
    unfolding list_all_iff .
  from splitByIntersections_links [OF segment_env_contract tol squares_ring valid run]
    segment_env_contract tol squares_ring inside run
  show ?thesis by blast
qed

section \<open>Properties of the ownership invariant\<close>

lemma own_upd_rec [simp]:
  "own_edges w0 (upd_rec r f w) = own_edges w0 w"
  "own_faces w0 (upd_rec r f w) = own_faces w0 w"
  "own_polys w0 (upd_rec r f w) = own_polys w0 w"
  "own_recs w0 (upd_rec r f w) = own_recs w0 w"
  by (simp_all add: own_edges_def own_faces_def own_polys_def own_recs_def)

lemma own_upd_edge [simp]:
  "own_edges w0 (upd_edge e f w) = own_edges w0 w"
  "own_faces w0 (upd_edge e f w) = own_faces w0 w"
  "own_polys w0 (upd_edge e f w) = own_polys w0 w"
  "own_recs w0 (upd_edge e f w) = own_recs w0 w"
  by (simp_all add: own_edges_def own_faces_def own_polys_def own_recs_def)

lemma link_ok_simps [simp]: "link_ok S None" "link_ok S (Some x) \<longleftrightarrow> x \<in> S"
  by (simp_all add: link_ok_def)

lemma link_ok_mono: "link_ok S x \<Longrightarrow> S \<subseteq> T \<Longrightarrow> link_ok T x"
  by (auto simp: link_ok_def)

lemma grows_own:
  assumes "grows w w'"
  shows "own_edges w0 w \<subseteq> own_edges w0 w'" "own_faces w0 w \<subseteq> own_faces w0 w'"
    "own_polys w0 w \<subseteq> own_polys w0 w'" "own_recs w0 w \<subseteq> own_recs w0 w'"
  using assms by (auto simp: grows_def own_edges_def own_faces_def own_polys_def own_recs_def)

lemma grows_refl [simp]: "grows w w"
  by (simp add: grows_def)

lemma grows_trans: "grows w w1 \<Longrightarrow> grows w1 w2 \<Longrightarrow> grows w w2"
  by (auto simp: grows_def)

lemma grows_upd [simp]:
  "grows w (upd_rec r f w')  \<longleftrightarrow> grows w w'" "grows w (upd_edge e g w') \<longleftrightarrow> grows w w'"
  by (simp_all add: grows_def)

lemma keeps_refl: "confined w0 w \<Longrightarrow> keeps w0 w w"
  by (simp add: keeps_def)

lemma keeps_trans: "keeps w0 w w1 \<Longrightarrow> keeps w0 w1 w2 \<Longrightarrow> keeps w0 w w2"
  by (auto simp: keeps_def intro: grows_trans)

lemma keepsD: "keeps w0 w w' \<Longrightarrow> confined w0 w'" "keeps w0 w w' \<Longrightarrow> grows w w'"
  by (simp_all add: keeps_def)

lemma keeps_own:
  assumes "keeps w0 w w'"
  shows "x \<in> own_edges w0 w \<Longrightarrow> x \<in> own_edges w0 w'" "y \<in> own_faces w0 w \<Longrightarrow> y \<in> own_faces w0 w'"
    "p \<in> own_polys w0 w \<Longrightarrow> p \<in> own_polys w0 w'" "r \<in> own_recs w0 w \<Longrightarrow> r \<in> own_recs w0 w'"
  using grows_own [OF keepsD(2) [OF assms], of w0] by auto

lemma confined_recD:
  "confined w0 w \<Longrightarrow> r \<in> own_recs w0 w \<Longrightarrow> rec_ok (own_edges w0 w) (own_faces w0 w) (recs w ! r)"
  by (simp add: confined_def)

lemma confined_edgeD:
  "confined w0 w \<Longrightarrow> e \<in> own_edges w0 w \<Longrightarrow> edge_ok (own_edges w0 w) (own_faces w0 w) (edges w ! e)"
  by (simp add: confined_def)

lemma confined_faceD:
  "confined w0 w \<Longrightarrow> f \<in> own_faces w0 w \<Longrightarrow> face_ok (own_edges w0 w) (faces w ! f)"
  by (simp add: confined_def)

lemma confined_polyD:
  "confined w0 w \<Longrightarrow> p \<in> own_polys w0 w \<Longrightarrow> poly_ok (own_edges w0 w) (own_faces w0 w) (polys w ! p)"
  by (simp add: confined_def)

lemma rec_linksD:
  assumes "confined w0 w" "r \<in> own_recs w0 w"
  shows "edge_before (recs w ! r) = Some x \<Longrightarrow> x \<in> own_edges w0 w"
    "edge_after (recs w ! r) = Some y \<Longrightarrow> y \<in> own_edges w0 w"
    "face (recs w ! r) = Some z \<Longrightarrow> z \<in> own_faces w0 w"
    "link_ok (own_edges w0 w) (edge_before (recs w ! r))"
    "link_ok (own_edges w0 w) (edge_after (recs w ! r))"
    "link_ok (own_faces w0 w) (face (recs w ! r))"
  using confined_recD [OF assms] by (auto simp: rec_ok_def)

lemma edge_linksD:
  assumes "confined w0 w" "e \<in> own_edges w0 w"
  shows "e_prev (edges w ! e) = Some x \<Longrightarrow> x \<in> own_edges w0 w"
    "e_next (edges w ! e) = Some y \<Longrightarrow> y \<in> own_edges w0 w"
    "e_face (edges w ! e) = Some z \<Longrightarrow> z \<in> own_faces w0 w"
    "link_ok (own_edges w0 w) (e_prev (edges w ! e))"
    "link_ok (own_edges w0 w) (e_next (edges w ! e))"
    "link_ok (own_faces w0 w) (e_face (edges w ! e))"
  using confined_edgeD [OF assms] by (auto simp: edge_ok_def)

lemma face_linksD:
  assumes "confined w0 w" "f \<in> own_faces w0 w"
  shows "f_first (faces w ! f) = Some x \<Longrightarrow> x \<in> own_edges w0 w"
    "f_last (faces w ! f) = Some y \<Longrightarrow> y \<in> own_edges w0 w"
    "link_ok (own_edges w0 w) (f_first (faces w ! f))"
    "link_ok (own_edges w0 w) (f_last (faces w ! f))"
  using confined_faceD [OF assms] by (auto simp: face_ok_def)

lemma poly_linksD:
  assumes "confined w0 w" "p \<in> own_polys w0 w"
  shows "set (p_edges (polys w ! p)) \<subseteq> own_edges w0 w"
    "set (p_faces (polys w ! p)) \<subseteq> own_faces w0 w"
  using confined_polyD [OF assms] by (auto simp: poly_ok_def)

lemma confined_upd_rec:
  assumes c: "confined w0 w"
      and ok: "r \<in> own_recs w0 w \<longrightarrow> rec_ok (own_edges w0 w) (own_faces w0 w) (f (recs w ! r))"
  shows "confined w0 (upd_rec r f w)"
proof -
  have "rec_ok (own_edges w0 w) (own_faces w0 w) ((recs w)[r := f (recs w ! r)] ! x)"
    if "x \<in> own_recs w0 w" for x
  proof (cases "x = r")
    case True
    with that ok show ?thesis by (simp add: own_recs_def)
  next
    case False
    with that c show ?thesis by (simp add: confined_def)
  qed
  with c show ?thesis by (simp add: confined_def unchanged_def)
qed

lemma confined_upd_edge:
  assumes c: "confined w0 w" and e: "e \<in> own_edges w0 w"
      and ok: "edge_ok (own_edges w0 w) (own_faces w0 w) (f (edges w ! e))"
  shows "confined w0 (upd_edge e f w)"
proof -
  have "edge_ok (own_edges w0 w) (own_faces w0 w) ((edges w)[e := f (edges w ! e)] ! x)"
    if "x \<in> own_edges w0 w" for x
  proof (cases "x = e")
    case True
    with that ok show ?thesis by (simp add: own_edges_def)
  next
    case False
    with that c show ?thesis by (simp add: confined_def)
  qed
  moreover from e have "take (length (edges w0)) ((edges w)[e := f (edges w ! e)]) =
      take (length (edges w0)) (edges w)"
    by (simp add: own_edges_def)
  ultimately show ?thesis using c by (simp add: confined_def unchanged_def)
qed

lemma keeps_upd_rec:
  assumes "confined w0 w"
      and "r \<in> own_recs w0 w \<longrightarrow> rec_ok (own_edges w0 w) (own_faces w0 w) (f (recs w ! r))"
  shows "keeps w0 w (upd_rec r f w)"
  using confined_upd_rec [of w0 w r f] assms by (simp add: keeps_def)

lemma keeps_upd_edge:
  assumes "confined w0 w" and "e \<in> own_edges w0 w"
      and "edge_ok (own_edges w0 w) (own_faces w0 w) (f (edges w ! e))"
  shows "keeps w0 w (upd_edge e f w)"
  using confined_upd_edge [of w0 w e f] assms by (simp add: keeps_def)

lemma foldE_keeps:
  assumes step: "\<And>x s s'. x \<in> set xs \<Longrightarrow> keeps w0 w s \<Longrightarrow> f x s = Inr s' \<Longrightarrow> keeps w0 s s'"
      and start: "confined w0 w" and run: "foldE f xs w = Inr w'"
  shows "keeps w0 w w'"
proof -
  define I where "I = (\<lambda>ys (s :: world). set ys \<subseteq> set xs \<and> keeps w0 w s)"
  have "I [] w'"
  proof (rule foldE_preserves [OF run])
    show "I xs w" by (simp add: I_def keeps_refl start)
  next
    fix x ys t t' assume "I (x # ys) t" "f x t = Inr t'"
    then show "I ys t'"
      unfolding I_def using step [of x t t'] by (auto intro: keeps_trans)
  qed
  then show ?thesis by (simp add: I_def)
qed

lemma fold_keeps:
  assumes step: "\<And>x s. x \<in> set xs \<Longrightarrow> keeps w0 w s \<Longrightarrow> keeps w0 s (f x s)"
      and start: "confined w0 w"
  shows "keeps w0 w (fold f xs w)"
proof -
  have "set ys \<subseteq> set xs \<Longrightarrow> keeps w0 w s \<Longrightarrow> keeps w0 w (fold f ys s)" for ys s
  proof (induction ys arbitrary: s)
    case Nil
    then show ?case by simp
  next
    case (Cons y ys)
    from Cons.prems step [of y s] have "keeps w0 w (f y s)" by (auto intro: keeps_trans)
    with Cons show ?case by simp
  qed
  from this [of xs w] start show ?thesis by (simp add: keeps_refl)
qed

lemma foldE_keeps_inv:
  assumes step: "\<And>x s s'. x \<in> set xs \<Longrightarrow> keeps w0 w (\<pi> s) \<Longrightarrow> J s \<Longrightarrow> f x s = Inr s'
                   \<Longrightarrow> keeps w0 (\<pi> s) (\<pi> s') \<and> J s'"
      and start: "confined w0 w" "\<pi> s0 = w" "J s0" and run: "foldE f xs s0 = Inr s'"
  shows "keeps w0 w (\<pi> s') \<and> J s'"
proof -
  define I where "I = (\<lambda>ys s. set ys \<subseteq> set xs \<and> keeps w0 w (\<pi> s) \<and> J s)"
  have "I [] s'"
  proof (rule foldE_preserves [OF run])
    show "I xs s0" by (simp add: I_def keeps_refl start)
  next
    fix x ys t t' assume "I (x # ys) t" "f x t = Inr t'"
    then show "I ys t'"
      unfolding I_def using step [of x t t'] by (auto intro: keeps_trans)
  qed
  then show ?thesis by (simp add: I_def)
qed

lemma confined_self: "confined w w"
  by (simp add: confined_def unchanged_def own_edges_def own_faces_def own_polys_def own_recs_def)

lemma ints_ok_mono: "ints_ok R ints \<Longrightarrow> R \<subseteq> R' \<Longrightarrow> ints_ok R' ints"
  by (auto simp: ints_ok_def split: option.splits)

lemma ints_ok_keeps: "ints_ok (own_recs w0 w) ints \<Longrightarrow> keeps w0 w w' \<Longrightarrow> ints_ok (own_recs w0 w') ints"
  by (rule ints_ok_mono) (auto dest: keeps_own(4))

lemma store_confinedD:
  assumes "store_confined env" and "confined w0 w"
  shows "clone env w p = Inr (w', q) \<Longrightarrow> keeps w0 w w' \<and> q \<in> own_polys w0 w'"
    and "p \<in> own_polys w0 w \<Longrightarrow> reverse env w p = Inr w' \<Longrightarrow> keeps w0 w w'"
    and "p \<in> own_polys w0 w \<Longrightarrow> set (search env w p e) \<subseteq> own_edges w0 w"
    and "p \<in> own_polys w0 w \<Longrightarrow> e \<in> own_edges w0 w \<Longrightarrow> addVertex env w p x e = Inr (w', n)
           \<Longrightarrow> keeps w0 w w' \<and> n \<in> own_edges w0 w'"
    and "p \<in> own_polys w0 w \<Longrightarrow> f \<in> own_faces w0 w \<Longrightarrow> a \<in> own_edges w0 w \<Longrightarrow> b \<in> own_edges w0 w
           \<Longrightarrow> removeChain env w p f a b = Inr w' \<Longrightarrow> keeps w0 w w'"
    and "e \<in> own_edges w0 w \<Longrightarrow> p \<in> own_polys w0 w \<Longrightarrow> setInclusion env w e p = Inr w'
           \<Longrightarrow> keeps w0 w w'"
    and "a \<in> own_edges w0 w \<Longrightarrow> b \<in> own_edges w0 w \<Longrightarrow> setOverlap env w a b = Inr w'
           \<Longrightarrow> keeps w0 w w'"
    and "p \<in> own_polys w0 w \<Longrightarrow> link_ok (own_edges w0 w) la \<Longrightarrow> link_ok (own_edges w0 w) lb
           \<Longrightarrow> addFace env w p la lb = Inr (w', g) \<Longrightarrow> keeps w0 w w' \<and> g \<in> own_faces w0 w'"
    and "p \<in> own_polys w0 w \<Longrightarrow> f \<in> own_faces w0 w \<Longrightarrow> deleteFace env w p f = Inr w'
           \<Longrightarrow> keeps w0 w w'"
    and "f \<in> own_faces w0 w \<Longrightarrow> set (face_edges env w f) \<subseteq> own_edges w0 w"
    and "p \<in> own_polys w0 w \<Longrightarrow> e \<in> own_edges w0 w \<Longrightarrow> edges_add env w p e = Inr w'
           \<Longrightarrow> keeps w0 w w'"
proof -
  note b = assms(1) [unfolded store_confined_def, rule_format, OF assms(2)]
  show "clone env w p = Inr (w', q) \<Longrightarrow> keeps w0 w w' \<and> q \<in> own_polys w0 w'"
    using b [THEN conjunct1, rule_format] by simp
  show "p \<in> own_polys w0 w \<Longrightarrow> reverse env w p = Inr w' \<Longrightarrow> keeps w0 w w'"
    using b [THEN conjunct2, THEN conjunct1, rule_format] by simp
  show "p \<in> own_polys w0 w \<Longrightarrow> set (search env w p e) \<subseteq> own_edges w0 w"
    using b [THEN conjunct2, THEN conjunct2, THEN conjunct1, rule_format] by simp
  show "p \<in> own_polys w0 w \<Longrightarrow> e \<in> own_edges w0 w \<Longrightarrow> addVertex env w p x e = Inr (w', n)
           \<Longrightarrow> keeps w0 w w' \<and> n \<in> own_edges w0 w'"
    using b [THEN conjunct2, THEN conjunct2, THEN conjunct2, THEN conjunct1, rule_format] by simp
  show "p \<in> own_polys w0 w \<Longrightarrow> f \<in> own_faces w0 w \<Longrightarrow> a \<in> own_edges w0 w \<Longrightarrow> b \<in> own_edges w0 w
           \<Longrightarrow> removeChain env w p f a b = Inr w' \<Longrightarrow> keeps w0 w w'"
    using b [THEN conjunct2, THEN conjunct2, THEN conjunct2, THEN conjunct2, THEN conjunct1, rule_format] by simp
  show "e \<in> own_edges w0 w \<Longrightarrow> p \<in> own_polys w0 w \<Longrightarrow> setInclusion env w e p = Inr w'
           \<Longrightarrow> keeps w0 w w'"
    using b [THEN conjunct2, THEN conjunct2, THEN conjunct2, THEN conjunct2, THEN conjunct2, THEN conjunct1, rule_format] by simp
  show "a \<in> own_edges w0 w \<Longrightarrow> b \<in> own_edges w0 w \<Longrightarrow> setOverlap env w a b = Inr w'
           \<Longrightarrow> keeps w0 w w'"
    using b [THEN conjunct2, THEN conjunct2, THEN conjunct2, THEN conjunct2, THEN conjunct2, THEN conjunct2, THEN conjunct1, rule_format] by simp
  show "p \<in> own_polys w0 w \<Longrightarrow> link_ok (own_edges w0 w) la \<Longrightarrow> link_ok (own_edges w0 w) lb
           \<Longrightarrow> addFace env w p la lb = Inr (w', g) \<Longrightarrow> keeps w0 w w' \<and> g \<in> own_faces w0 w'"
    using b [THEN conjunct2, THEN conjunct2, THEN conjunct2, THEN conjunct2, THEN conjunct2, THEN conjunct2, THEN conjunct2, THEN conjunct1, rule_format] by simp
  show "p \<in> own_polys w0 w \<Longrightarrow> f \<in> own_faces w0 w \<Longrightarrow> deleteFace env w p f = Inr w'
           \<Longrightarrow> keeps w0 w w'"
    using b [THEN conjunct2, THEN conjunct2, THEN conjunct2, THEN conjunct2, THEN conjunct2, THEN conjunct2, THEN conjunct2, THEN conjunct2, THEN conjunct1, rule_format] by simp
  show "f \<in> own_faces w0 w \<Longrightarrow> set (face_edges env w f) \<subseteq> own_edges w0 w"
    using b [THEN conjunct2, THEN conjunct2, THEN conjunct2, THEN conjunct2, THEN conjunct2, THEN conjunct2, THEN conjunct2, THEN conjunct2, THEN conjunct2, THEN conjunct1, rule_format] by simp
  show "p \<in> own_polys w0 w \<Longrightarrow> e \<in> own_edges w0 w \<Longrightarrow> edges_add env w p e = Inr w'
           \<Longrightarrow> keeps w0 w w'"
    using b [THEN conjunct2, THEN conjunct2, THEN conjunct2, THEN conjunct2, THEN conjunct2, THEN conjunct2, THEN conjunct2, THEN conjunct2, THEN conjunct2, THEN conjunct2, rule_format] by simp
qed

lemma keeps_upd_rec_same:
  assumes "confined w0 w"
      and "\<And>x. edge_before (f x) = edge_before x" "\<And>x. edge_after (f x) = edge_after x"
      and "\<And>x. face (f x) = face x"
  shows "keeps w0 w (upd_rec r f w)"
proof (rule keeps_upd_rec [OF assms(1)], rule impI)
  assume "r \<in> own_recs w0 w"
  from confined_recD [OF assms(1) this] assms(2-4)
  show "rec_ok (own_edges w0 w) (own_faces w0 w) (f (recs w ! r))"
    by (simp add: rec_ok_def)
qed

lemma keeps_upd_rec_links:
  assumes "confined w0 w"
  shows "link_ok (own_edges w0 w) x \<Longrightarrow> keeps w0 w (upd_rec r (\<lambda>r. r\<lparr>edge_before := x\<rparr>) w)"
    and "link_ok (own_edges w0 w) x \<Longrightarrow> keeps w0 w (upd_rec r (\<lambda>r. r\<lparr>edge_after := x\<rparr>) w)"
    and "link_ok (own_faces w0 w) y \<Longrightarrow> keeps w0 w (upd_rec r (\<lambda>r. r\<lparr>face := y\<rparr>) w)"
    and "link_ok (own_edges w0 w) x \<Longrightarrow>
           keeps w0 w (upd_rec r (\<lambda>r. r\<lparr>edge_before := x, is_vertex := v\<rparr>) w)"
  using confined_recD [OF assms, of r]
  by (auto intro!: keeps_upd_rec [OF assms] simp: rec_ok_def)

lemma keeps_upd_edge_same:
  assumes "confined w0 w" and "e \<in> own_edges w0 w"
      and "\<And>x. e_prev (f x) = e_prev x" "\<And>x. e_next (f x) = e_next x"
      and "\<And>x. e_face (f x) = e_face x"
  shows "keeps w0 w (upd_edge e f w)"
  using confined_edgeD [OF assms(1,2)] assms(3-5)
  by (auto intro!: keeps_upd_edge [OF assms(1,2)] simp: edge_ok_def)

lemma keeps_upd_edge_links:
  assumes "confined w0 w" and "e \<in> own_edges w0 w"
  shows "link_ok (own_edges w0 w) x \<Longrightarrow> keeps w0 w (upd_edge e (\<lambda>d. d\<lparr>e_next := x\<rparr>) w)"
    and "link_ok (own_edges w0 w) x \<Longrightarrow> keeps w0 w (upd_edge e (\<lambda>d. d\<lparr>e_prev := x\<rparr>) w)"
    and "link_ok (own_faces w0 w) y \<Longrightarrow> keeps w0 w (upd_edge e (\<lambda>d. d\<lparr>e_face := y\<rparr>) w)"
  using confined_edgeD [OF assms]
  by (auto intro!: keeps_upd_edge [OF assms] simp: edge_ok_def)

lemma keeps_set_id: "confined w0 w \<Longrightarrow> keeps w0 w (set_id r i w)"
  unfolding set_id_def by (rule keeps_upd_rec_same) simp_all

lemma keeps_set_faceId: "confined w0 w \<Longrightarrow> keeps w0 w (set_faceId m ip w)"
  unfolding set_faceId_def by (rule keeps_upd_rec_same) simp_all

subsection \<open>The collector\<close>

lemma keeps_add_rec:
  assumes c: "confined w0 w" and ok: "rec_ok (own_edges w0 w) (own_faces w0 w) r"
  shows "keeps w0 w (w\<lparr>recs := recs w @ [r]\<rparr>)"
proof -
  let ?w = "w\<lparr>recs := recs w @ [r]\<rparr>"
  have own: "own_edges w0 ?w = own_edges w0 w" "own_faces w0 ?w = own_faces w0 w"
    "own_polys w0 ?w = own_polys w0 w"
    by (simp_all add: own_edges_def own_faces_def own_polys_def)
  have "rec_ok (own_edges w0 w) (own_faces w0 w) ((recs w @ [r]) ! x)"
    if "x \<in> own_recs w0 ?w" for x
  proof (cases "x < length (recs w)")
    case True
    with that c show ?thesis by (simp add: confined_def own_recs_def nth_append)
  next
    case False
    with that have "x = length (recs w)" by (simp add: own_recs_def)
    with ok show ?thesis by simp
  qed
  with c show ?thesis
    by (simp add: keeps_def confined_def unchanged_def grows_def own)
qed

lemma addToIntPoints_cases:
  assumes "addToIntPoints env w edge p l = Inr (w', l')"
  shows "(w' = w \<and> l' = l) \<or>
         (\<exists>arc iv. w' = w\<lparr>recs := recs w @
                      [\<lparr>ip_id = int (length l), pt = p, arc_length = arc,
                        edge_before = Some edge, edge_after = None,
                        face = e_face (edges w ! edge), is_vertex = iv, faceId = None\<rparr>]\<rparr> \<and>
                   l' = l @ [length (recs w)])"
  using assms by (auto simp: addToIntPoints_def Let_def bindE_eq_Inr split: if_splits)

lemma addToIntPoints_keeps:
  assumes c: "confined w0 w" and e: "edge \<in> own_edges w0 w" and l: "set l \<subseteq> own_recs w0 w"
      and run: "addToIntPoints env w edge p l = Inr (w', l')"
  shows "keeps w0 w w' \<and> set l' \<subseteq> own_recs w0 w'"
  using addToIntPoints_cases [OF run]
proof (elim disjE exE conjE)
  assume "w' = w" "l' = l"
  with c l show ?thesis by (simp add: keeps_refl)
next
  fix arc iv
  let ?r = "\<lparr>ip_id = int (length l), pt = p, arc_length = arc,
             edge_before = Some edge, edge_after = None,
             face = e_face (edges w ! edge), is_vertex = iv, faceId = None\<rparr>"
  assume w': "w' = w\<lparr>recs := recs w @ [?r]\<rparr>" and l': "l' = l @ [length (recs w)]"
  have "rec_ok (own_edges w0 w) (own_faces w0 w) ?r"
    using e edge_linksD(6) [OF c e] by (simp add: rec_ok_def)
  from keeps_add_rec [OF c this] have k: "keeps w0 w w'" by (simp add: w')
  from c have "length (recs w) \<in> own_recs w0 w'"
    by (simp add: w' own_recs_def confined_def)
  with l keeps_own(4) [OF k] show ?thesis by (auto simp: k l')
qed

lemma getIntersections_pt_keeps:
  assumes c: "confined w0 w" and e: "edge1 \<in> own_edges w0 w" "edge2 \<in> own_edges w0 w"
      and i: "ints_ok (own_recs w0 w) ints"
      and run: "getIntersections_pt env edge1 edge2 p (w, ints) = Inr (w', ints')"
  shows "keeps w0 w w' \<and> ints_ok (own_recs w0 w') ints'"
proof -
  from run obtain w1 l1 l2 where
    a1: "addToIntPoints env w edge1 p (int_points1 ints) = Inr (w1, l1)" and
    a2: "addToIntPoints env w1 edge2 p (int_points2 ints) = Inr (w', l2)" and
    ints': "ints' = ints\<lparr>int_points1 := l1, int_points2 := l2\<rparr>"
    by (auto simp: getIntersections_pt_def bindE_eq_Inr)
  from i have "set (int_points1 ints) \<subseteq> own_recs w0 w" by (simp add: ints_ok_def)
  from addToIntPoints_keeps [OF c e(1) this a1]
  have k1: "keeps w0 w w1" and l1: "set l1 \<subseteq> own_recs w0 w1" by simp_all
  from i keeps_own(4) [OF k1] have "set (int_points2 ints) \<subseteq> own_recs w0 w1"
    by (auto simp: ints_ok_def)
  from addToIntPoints_keeps [OF keepsD(1) [OF k1] keeps_own(1) [OF k1 e(2)] this a2]
  have k2: "keeps w0 w1 w'" and l2: "set l2 \<subseteq> own_recs w0 w'" by simp_all
  from keeps_trans [OF k1 k2] have k: "keeps w0 w w'" .
  from ints_ok_keeps [OF i k] l1 l2 keeps_own(4) [OF k2]
  have "ints_ok (own_recs w0 w') ints'"
    by (auto simp: ints_ok_def ints')
  with k show ?thesis by simp
qed

lemma getIntersections_edge2_keeps:
  assumes c: "confined w0 w" and e: "edge1 \<in> own_edges w0 w" "edge2 \<in> own_edges w0 w"
      and i: "ints_ok (own_recs w0 w) ints"
      and run: "getIntersections_edge2 env edge1 edge2 (w, ints) = Inr (w', ints')"
  shows "keeps w0 w w' \<and> ints_ok (own_recs w0 w') ints'"
proof -
  from run have run': "foldE (getIntersections_pt env edge1 edge2)
      (intersect env (e_shape (edges w ! edge1)) (e_shape (edges w ! edge2))) (w, ints) = Inr (w', ints')"
    by (simp add: getIntersections_edge2_def)
  have "keeps w0 w (fst (w', ints')) \<and> ints_ok (own_recs w0 (fst (w', ints'))) (snd (w', ints'))"
  proof (rule foldE_keeps_inv [where \<pi> = fst and J = "\<lambda>s. ints_ok (own_recs w0 (fst s)) (snd s)",
        OF _ c _ _ run'])
    fix x s s'
    assume k: "keeps w0 w (fst s)" and j: "ints_ok (own_recs w0 (fst s)) (snd s)"
      and r: "getIntersections_pt env edge1 edge2 x s = Inr s'"
    from getIntersections_pt_keeps [OF keepsD(1) [OF k] keeps_own(1) [OF k e(1)]
        keeps_own(1) [OF k e(2)] j, of env x "fst s'" "snd s'"] r
    show "keeps w0 (fst s) (fst s') \<and> ints_ok (own_recs w0 (fst s')) (snd s')" by simp
  qed (simp_all add: i)
  then show ?thesis by simp
qed

lemma getIntersections_edge1_keeps:
  assumes sc: "store_confined env" and c: "confined w0 w" and e: "edge1 \<in> own_edges w0 w"
      and p: "polygon2 \<in> own_polys w0 w" and i: "ints_ok (own_recs w0 w) ints"
      and run: "getIntersections_edge1 env polygon2 edge1 (w, ints) = Inr (w', ints')"
  shows "keeps w0 w w' \<and> ints_ok (own_recs w0 w') ints'"
proof -
  from run have run': "foldE (getIntersections_edge2 env edge1) (search env w polygon2 edge1)
      (w, ints) = Inr (w', ints')"
    by (simp add: getIntersections_edge1_def)
  have "keeps w0 w (fst (w', ints')) \<and> ints_ok (own_recs w0 (fst (w', ints'))) (snd (w', ints'))"
  proof (rule foldE_keeps_inv [where \<pi> = fst and J = "\<lambda>s. ints_ok (own_recs w0 (fst s)) (snd s)",
        OF _ c _ _ run'])
    fix x s s'
    assume x: "x \<in> set (search env w polygon2 edge1)"
      and k: "keeps w0 w (fst s)" and j: "ints_ok (own_recs w0 (fst s)) (snd s)"
      and r: "getIntersections_edge2 env edge1 x s = Inr s'"
    from x store_confinedD(3) [OF sc c p] have "x \<in> own_edges w0 w" by auto
    from getIntersections_edge2_keeps [OF keepsD(1) [OF k] keeps_own(1) [OF k e]
        keeps_own(1) [OF k this] j, of env "fst s'" "snd s'"] r
    show "keeps w0 (fst s) (fst s') \<and> ints_ok (own_recs w0 (fst s')) (snd s')" by simp
  qed (simp_all add: i)
  then show ?thesis by simp
qed

lemma getIntersections_keeps:
  assumes sc: "store_confined env" and c: "confined w0 w"
      and p: "polygon1 \<in> own_polys w0 w" "polygon2 \<in> own_polys w0 w"
      and run: "getIntersections env w polygon1 polygon2 = Inr (w', ints')"
  shows "keeps w0 w w' \<and> ints_ok (own_recs w0 w') ints'"
proof -
  let ?ints = "\<lparr>int_points1 = [], int_points2 = [],
                int_points1_sorted = None, int_points2_sorted = None\<rparr>"
  from run have run': "foldE (getIntersections_edge1 env polygon2) (p_edges (polys w ! polygon1))
      (w, ?ints) = Inr (w', ints')"
    by (simp add: getIntersections_def)
  have "keeps w0 w (fst (w', ints')) \<and> ints_ok (own_recs w0 (fst (w', ints'))) (snd (w', ints'))"
  proof (rule foldE_keeps_inv [where \<pi> = fst and J = "\<lambda>s. ints_ok (own_recs w0 (fst s)) (snd s)",
        OF _ c _ _ run'])
    fix x s s'
    assume x: "x \<in> set (p_edges (polys w ! polygon1))"
      and k: "keeps w0 w (fst s)" and j: "ints_ok (own_recs w0 (fst s)) (snd s)"
      and r: "getIntersections_edge1 env polygon2 x s = Inr s'"
    from x poly_linksD(1) [OF c p(1)] have "x \<in> own_edges w0 w" by auto
    from getIntersections_edge1_keeps [OF sc keepsD(1) [OF k] keeps_own(1) [OF k this]
        keeps_own(3) [OF k p(2)] j, of "fst s'" "snd s'"] r
    show "keeps w0 (fst s) (fst s') \<and> ints_ok (own_recs w0 (fst s')) (snd s')" by simp
  qed (simp_all add: ints_ok_def)
  then show ?thesis by simp
qed

subsection \<open>The sorter\<close>

lemma getSortedArray_keeps_own:
  assumes "confined w0 w"
  shows "keeps w0 w (fst (getSortedArray env w l))" "set (snd (getSortedArray env w l)) = set l"
  by (auto simp: getSortedArray_def Let_def intro!: fold_keeps assms
        intro: keeps_set_faceId keepsD(1))

lemma sortIntersections_keeps_own:
  assumes c: "confined w0 w" and i: "ints_ok (own_recs w0 w) ints"
      and run: "sortIntersections env (w, ints) = (w', ints')"
  shows "keeps w0 w w' \<and> ints_ok (own_recs w0 w') ints'"
proof -
  obtain w1 s1 where g1: "getSortedArray env w (int_points1 ints) = (w1, s1)" by fastforce
  obtain w2 s2 where g2: "getSortedArray env w1 (int_points2 ints) = (w2, s2)" by fastforce
  from run g1 g2 have w': "w' = w2"
    and ints': "ints' = ints\<lparr>int_points1_sorted := Some s1, int_points2_sorted := Some s2\<rparr>"
    by (simp_all add: sortIntersections_def)
  from getSortedArray_keeps_own [OF c, of env "int_points1 ints"] g1
  have k1: "keeps w0 w w1" and s1: "set s1 = set (int_points1 ints)" by simp_all
  from getSortedArray_keeps_own [OF keepsD(1) [OF k1], of env "int_points2 ints"] g2
  have k2: "keeps w0 w1 w2" and s2: "set s2 = set (int_points2 ints)" by simp_all
  from keeps_trans [OF k1 k2] have k: "keeps w0 w w'" by (simp add: w')
  from ints_ok_keeps [OF i k] s1 s2 have "ints_ok (own_recs w0 w') ints'"
    by (simp add: ints_ok_def ints')
  with k show ?thesis by simp
qed

subsection \<open>The splitter\<close>

lemma split_first_pass_keeps:
  assumes sc: "store_confined env" and c: "confined w0 w" and p: "polygon \<in> own_polys w0 w"
      and r: "ip \<in> own_recs w0 w" and run: "split_first_pass env polygon ip w = Inr w'"
  shows "keeps w0 w w'"
proof -
  from run obtain e where eb: "edge_before (recs w ! ip) = Some e"
    by (auto simp: split_first_pass_def bindE_eq_Inr deref_eq_Inr)
  from rec_linksD(1) [OF c r eb] have e: "e \<in> own_edges w0 w" .
  from eb run show ?thesis
  proof (cases rule: split_first_pass_cases)
    case at_start
    with keeps_upd_rec_links(4) [OF c edge_linksD(4) [OF c e]] show ?thesis by simp
  next
    case (at_end iv)
    have "keeps w0 w (upd_rec ip (\<lambda>r. r\<lparr>is_vertex := iv\<rparr>) w)"
      by (rule keeps_upd_rec_same [OF c]) simp_all
    with at_end show ?thesis by simp
  next
    case (inside w1 n)
    let ?w = "upd_rec ip (\<lambda>r. r\<lparr>is_vertex := NOT_VERTEX\<rparr>) w"
    have k0: "keeps w0 w ?w" by (rule keeps_upd_rec_same [OF c]) simp_all
    from store_confinedD(4) [OF sc keepsD(1) [OF k0] _ _ inside(1)] p e
    have k1: "keeps w0 ?w w1" and n: "n \<in> own_edges w0 w1" by simp_all
    from keeps_upd_rec_links(1) [OF keepsD(1) [OF k1], of "Some n" ip] n
    have "keeps w0 w1 w'" by (simp add: inside(2))
    with k0 k1 show ?thesis by (blast intro: keeps_trans)
  qed
qed

lemma split_second_pass_keeps:
  assumes c: "confined w0 w" and r: "ip \<in> own_recs w0 w"
      and run: "split_second_pass ip w = Inr w'"
  shows "keeps w0 w w'"
proof -
  from run obtain e where eb: "edge_before (recs w ! ip) = Some e"
    and w': "w' = upd_rec ip (\<lambda>r. r\<lparr>edge_after := e_next (edges w ! e)\<rparr>) w"
    by (auto simp: split_second_pass_def bindE_eq_Inr deref_eq_Inr)
  from rec_linksD(1) [OF c r eb] have "e \<in> own_edges w0 w" .
  from keeps_upd_rec_links(2) [OF c edge_linksD(5) [OF c this]] show ?thesis by (simp add: w')
qed

lemma splitByIntersections_keeps:
  assumes sc: "store_confined env" and c: "confined w0 w" and p: "polygon \<in> own_polys w0 w"
      and l: "case ips of None \<Rightarrow> True | Some s \<Rightarrow> set s \<subseteq> own_recs w0 w"
      and run: "splitByIntersections env polygon ips w = Inr w'"
  shows "keeps w0 w w'"
proof (cases ips)
  case None
  with run c show ?thesis by (simp add: splitByIntersections_def keeps_refl)
next
  case (Some s)
  with l have s: "set s \<subseteq> own_recs w0 w" by simp
  from run Some obtain w1 where
    r1: "foldE (split_first_pass env polygon) s w = Inr w1" and
    r2: "foldE split_second_pass s w1 = Inr w'"
    by (auto simp: splitByIntersections_def bindE_eq_Inr)
  have k1: "keeps w0 w w1"
  proof (rule foldE_keeps [OF _ c r1])
    fix x t t' assume "x \<in> set s" "keeps w0 w t" "split_first_pass env polygon x t = Inr t'"
    with s show "keeps w0 t t'"
      by (auto intro!: split_first_pass_keeps [OF sc] dest: keepsD(1) keeps_own(3) [OF _ p]
            keeps_own(4))
  qed
  have k2: "keeps w0 w1 w'"
  proof (rule foldE_keeps [OF _ keepsD(1) [OF k1] r2])
    fix x t t' assume "x \<in> set s" "keeps w0 w1 t" "split_second_pass x t = Inr t'"
    with s k1 show "keeps w0 t t'"
      by (auto intro!: split_second_pass_keeps dest: keepsD(1) keeps_own(4))
  qed
  from keeps_trans [OF k1 k2] show ?thesis .
qed

subsection \<open>The duplicate filter\<close>

lemma filter_scan1_keeps:
  assumes "confined w0 (fst s)" and "filter_scan1 env ints cur s = Inr s'"
  shows "keeps w0 (fst s) (fst s')"
proof -
  obtain w a b d where s: "s = (w, a, b, d)" by (cases s) auto
  from assms(1) have c: "confined w0 w" by (simp add: s)
  from keeps_set_id [OF c] have k1: "keeps w0 w (set_id cur (- 1) w)" .
  have k2: "keeps w0 w (set_id x (- 1) (set_id cur (- 1) w))" for x
    using keeps_trans [OF k1 keeps_set_id [OF keepsD(1) [OF k1]]] .
  from assms(2) show ?thesis
    by (auto simp: s filter_scan1_def Let_def bindE_eq_Inr deref_eq_Inr keeps_refl [OF c] k2
          split: if_splits)
qed

lemma filter_scan2_keeps:
  assumes "confined w0 (fst s)" and "filter_scan2 env ints cur s = Inr s'"
  shows "keeps w0 (fst s) (fst s')"
proof -
  obtain w a b d where s: "s = (w, a, b, d)" by (cases s) auto
  from assms(1) have c: "confined w0 w" by (simp add: s)
  have k2: "keeps w0 w (set_id x (- 1) (set_id y (- 1) w))" for x y
    using keeps_trans [OF keeps_set_id [OF c] keeps_set_id [OF keepsD(1) [OF keeps_set_id [OF c]]]] .
  from assms(2) show ?thesis
    by (auto simp: s filter_scan2_def Let_def bindE_eq_Inr deref_eq_Inr keeps_refl [OF c] k2
          split: if_splits)
qed

lemma update_ids_keeps: "confined w0 w \<Longrightarrow> keeps w0 w (update_ids l w)"
  unfolding update_ids_def
  by (rule fold_keeps) (auto intro: keeps_set_id dest: keepsD(1))

lemma squeeze_keeps:
  assumes c: "confined w0 w" and i: "ints_ok (own_recs w0 w) ints"
      and run: "squeeze env (w, ints) = (w', ints')"
  shows "keeps w0 w w' \<and> ints_ok (own_recs w0 w') ints'"
proof -
  let ?l1 = "filter (\<lambda>r. ip_id (recs w ! r) \<ge> 0) (int_points1 ints)"
  let ?l2 = "filter (\<lambda>r. ip_id (recs w ! r) \<ge> 0) (int_points2 ints)"
  let ?w2 = "update_ids ?l2 (update_ids ?l1 w)"
  let ?ints = "ints\<lparr>int_points1 := ?l1, int_points2 := ?l2,
                    int_points1_sorted := Some [], int_points2_sorted := Some []\<rparr>"
  from run have run': "sortIntersections env (?w2, ?ints) = (w', ints')"
    by (simp add: squeeze_def Let_def)
  have k1: "keeps w0 w (update_ids ?l1 w)" by (rule update_ids_keeps [OF c])
  have k2: "keeps w0 w ?w2"
    by (rule keeps_trans [OF k1 update_ids_keeps [OF keepsD(1) [OF k1]]])
  from i have "ints_ok (own_recs w0 w) ?ints" by (auto simp: ints_ok_def)
  from sortIntersections_keeps_own [OF keepsD(1) [OF k2] ints_ok_keeps [OF this k2] run']
  have "keeps w0 ?w2 w'" and "ints_ok (own_recs w0 w') ints'" by simp_all
  with k2 show ?thesis by (blast intro: keeps_trans)
qed

lemma filterDuplicatedIntersections_keeps:
  assumes c: "confined w0 w" and i: "ints_ok (own_recs w0 w) ints"
      and run: "filterDuplicatedIntersections env (w, ints) = Inr (w', ints')"
  shows "keeps w0 w w' \<and> ints_ok (own_recs w0 w') ints'"
proof (cases "length (int_points1 ints) < 2")
  case True
  with run c i show ?thesis by (simp add: filterDuplicatedIntersections_def keeps_refl)
next
  case False
  with run have "\<exists>sorted1 ref1 w1 a1 b1 d1 sorted2 ref2 w2 a2 b2 d2.
      foldE (filter_scan1 env ints) (drop (Suc 0) sorted1)
           (w, ref1, js_nth (int_points2 ints) (ip_id (recs w ! ref1)), False)
           = Inr (w1, a1, b1, d1) \<and>
      foldE (filter_scan2 env ints) (drop (Suc 0) sorted2)
           (w1, ref2, js_nth (int_points1 ints) (ip_id (recs w1 ! ref2)), d1)
           = Inr (w2, a2, b2, d2) \<and>
      (if d2 then Inr (squeeze env (w2, ints)) else Inr (w2, ints)) = Inr (w', ints')"
    by (fastforce simp: filterDuplicatedIntersections_def bindE_eq_Inr
          split: prod.splits if_splits)
  then obtain sorted1 ref1 w1 a1 b1 d1 sorted2 ref2 w2 a2 b2 d2 where
    f1: "foldE (filter_scan1 env ints) (drop (Suc 0) sorted1)
           (w, ref1, js_nth (int_points2 ints) (ip_id (recs w ! ref1)), False)
           = Inr (w1, a1, b1, d1)" and
    f2: "foldE (filter_scan2 env ints) (drop (Suc 0) sorted2)
           (w1, ref2, js_nth (int_points1 ints) (ip_id (recs w1 ! ref2)), d1)
           = Inr (w2, a2, b2, d2)" and
    fin: "(if d2 then Inr (squeeze env (w2, ints)) else Inr (w2, ints)) = Inr (w', ints')"
    by (elim exE conjE) (rule that; assumption)
  have "keeps w0 w (fst (w1, a1, b1, d1)) \<and> True"
    by (rule foldE_keeps_inv [where \<pi> = fst and J = "\<lambda>s. True", OF _ c _ _ f1])
       (auto intro: filter_scan1_keeps dest: keepsD(1))
  then have k1: "keeps w0 w w1" by simp
  have "keeps w0 w1 (fst (w2, a2, b2, d2)) \<and> True"
    by (rule foldE_keeps_inv [where \<pi> = fst and J = "\<lambda>s. True", OF _ keepsD(1) [OF k1] _ _ f2])
       (auto intro: filter_scan2_keeps dest: keepsD(1))
  then have k2: "keeps w0 w1 w2" by simp
  from keeps_trans [OF k1 k2] have k: "keeps w0 w w2" .
  show ?thesis
  proof (cases d2)
    case True
    with fin have "squeeze env (w2, ints) = (w', ints')" by simp
    from squeeze_keeps [OF keepsD(1) [OF k] ints_ok_keeps [OF i k] this] k
    show ?thesis by (blast intro: keeps_trans)
  next
    case False
    with fin k i show ?thesis by (auto intro: ints_ok_keeps)
  qed
qed

subsection \<open>The classifier\<close>

lemma getNotIntersectedFaces_own:
  assumes "confined w0 w" "p \<in> own_polys w0 w"
  shows "set (getNotIntersectedFaces w p l) \<subseteq> own_faces w0 w"
  using poly_linksD(2) [OF assms] by (auto simp: getNotIntersectedFaces_def)

lemma calcInclusion_step_keeps:
  assumes sc: "store_confined env" and c: "confined w0 w" and fc: "fc \<in> own_faces w0 w"
      and p: "poly2 \<in> own_polys w0 w" and run: "calcInclusion_step env poly2 fc w = Inr w'"
  shows "keeps w0 w w'"
proof -
  from run obtain first where f: "f_first (faces w ! fc) = Some first"
    and r: "setInclusion env
         (upd_edge first (\<lambda>e. e\<lparr>e_bv := None, e_bvStart := None, e_bvEnd := None\<rparr>) w)
         first poly2 = Inr w'" (is "setInclusion env ?w first poly2 = _")
    by (auto simp: calcInclusion_step_def bindE_eq_Inr deref_eq_Inr)
  from face_linksD(1) [OF c fc f] have e: "first \<in> own_edges w0 w" .
  have k0: "keeps w0 w ?w" by (rule keeps_upd_edge_same [OF c e]) simp_all
  from store_confinedD(6) [OF sc keepsD(1) [OF k0] _ _ r] e p have "keeps w0 ?w w'" by simp
  with k0 show ?thesis by (rule keeps_trans)
qed

lemma calcInclusionForNotIntersectedFaces_keeps:
  assumes sc: "store_confined env" and c: "confined w0 w" and fs: "set fs \<subseteq> own_faces w0 w"
      and p: "poly2 \<in> own_polys w0 w"
      and run: "calcInclusionForNotIntersectedFaces env fs poly2 w = Inr w'"
  shows "keeps w0 w w'"
proof (rule foldE_keeps [OF _ c run [unfolded calcInclusionForNotIntersectedFaces_def]])
  fix x s s' assume "x \<in> set fs" "keeps w0 w s" "calcInclusion_step env poly2 x s = Inr s'"
  with fs show "keeps w0 s s'"
    by (auto intro!: calcInclusion_step_keeps [OF sc] dest: keepsD(1) keeps_own(2)
          keeps_own(3) [OF _ p])
qed

lemma clear_flags_links [simp]:
  "e_prev (clear_flags x) = e_prev x" "e_next (clear_flags x) = e_next x"
  "e_face (clear_flags x) = e_face x"
  by (simp_all add: clear_flags_def)

lemma initialize_clear_keeps:
  assumes c: "confined w0 w" and r: "ip \<in> own_recs w0 w"
      and run: "initialize_clear ip w = Inr w'"
  shows "keeps w0 w w'"
proof -
  from run obtain eb ea where eb: "edge_before (recs w ! ip) = Some eb"
    and ea: "edge_after (recs w ! ip) = Some ea"
    and w': "w' = upd_edge ea clear_flags (upd_edge eb clear_flags w)"
    by (auto simp: initialize_clear_def Let_def bindE_eq_Inr deref_eq_Inr)
  from rec_linksD(1) [OF c r eb] rec_linksD(2) [OF c r ea]
  have e: "eb \<in> own_edges w0 w" "ea \<in> own_edges w0 w" .
  have k1: "keeps w0 w (upd_edge eb clear_flags w)"
    by (rule keeps_upd_edge_same [OF c e(1)]) simp_all
  have "keeps w0 (upd_edge eb clear_flags w) w'"
    unfolding w' by (rule keeps_upd_edge_same [OF keepsD(1) [OF k1]]) (simp_all add: e)
  with k1 show ?thesis by (rule keeps_trans)
qed

lemma initialize_boundary_keeps:
  assumes c: "confined w0 w" and r: "ip \<in> own_recs w0 w"
      and run: "initialize_boundary ip w = Inr w'"
  shows "keeps w0 w w'"
proof -
  from run obtain eb ea where eb: "edge_before (recs w ! ip) = Some eb"
    and ea: "edge_after (recs w ! ip) = Some ea"
    and w': "w' = upd_edge ea (\<lambda>e. e\<lparr>e_bvStart := Some BOUNDARY\<rparr>)
                    (upd_edge eb (\<lambda>e. e\<lparr>e_bvEnd := Some BOUNDARY\<rparr>) w)"
    by (auto simp: initialize_boundary_def Let_def bindE_eq_Inr deref_eq_Inr)
  from rec_linksD(1) [OF c r eb] rec_linksD(2) [OF c r ea]
  have e: "eb \<in> own_edges w0 w" "ea \<in> own_edges w0 w" .
  have k1: "keeps w0 w (upd_edge eb (\<lambda>e. e\<lparr>e_bvEnd := Some BOUNDARY\<rparr>) w)"
    by (rule keeps_upd_edge_same [OF c e(1)]) simp_all
  have "keeps w0 (upd_edge eb (\<lambda>e. e\<lparr>e_bvEnd := Some BOUNDARY\<rparr>) w) w'"
    unfolding w' by (rule keeps_upd_edge_same [OF keepsD(1) [OF k1]]) (simp_all add: e)
  with k1 show ?thesis by (rule keeps_trans)
qed

lemma initializeInclusionFlags_keeps:
  assumes c: "confined w0 w" and l: "set l \<subseteq> own_recs w0 w"
      and run: "initializeInclusionFlags l w = Inr w'"
  shows "keeps w0 w w'"
proof -
  from run obtain w1 where r1: "foldE initialize_clear l w = Inr w1"
    and r2: "foldE initialize_boundary l w1 = Inr w'"
    by (auto simp: initializeInclusionFlags_def bindE_eq_Inr)
  have k1: "keeps w0 w w1"
  proof (rule foldE_keeps [OF _ c r1])
    fix x s s' assume "x \<in> set l" "keeps w0 w s" "initialize_clear x s = Inr s'"
    with l show "keeps w0 s s'"
      by (auto intro!: initialize_clear_keeps dest: keepsD(1) keeps_own(4))
  qed
  have k2: "keeps w0 w1 w'"
  proof (rule foldE_keeps [OF _ keepsD(1) [OF k1] r2])
    fix x s s' assume "x \<in> set l" "keeps w0 w1 s" "initialize_boundary x s = Inr s'"
    with l k1 show "keeps w0 s s'"
      by (auto intro!: initialize_boundary_keeps dest: keepsD(1) keeps_own(4))
  qed
  from keeps_trans [OF k1 k2] show ?thesis .
qed

lemma calculateInclusion_step_keeps:
  assumes sc: "store_confined env" and c: "confined w0 w" and r: "ip \<in> own_recs w0 w"
      and p: "polygon \<in> own_polys w0 w"
      and run: "calculateInclusion_step env polygon ip w = Inr w'"
  shows "keeps w0 w w'"
proof -
  from run obtain eb w1 ea where eb: "edge_before (recs w ! ip) = Some eb"
    and s1: "setInclusion env w eb polygon = Inr w1"
    and ea: "edge_after (recs w1 ! ip) = Some ea"
    and s2: "setInclusion env w1 ea polygon = Inr w'"
    by (auto simp: calculateInclusion_step_def bindE_eq_Inr deref_eq_Inr)
  from store_confinedD(6) [OF sc c rec_linksD(1) [OF c r eb] p s1] have k1: "keeps w0 w w1" .
  note c1 = keepsD(1) [OF k1]
  from store_confinedD(6) [OF sc c1 rec_linksD(2) [OF c1 keeps_own(4) [OF k1 r] ea]
      keeps_own(3) [OF k1 p] s2]
  have "keeps w0 w1 w'" .
  with k1 show ?thesis by (rule keeps_trans)
qed

lemma calculateInclusionFlags_keeps:
  assumes sc: "store_confined env" and c: "confined w0 w" and l: "set l \<subseteq> own_recs w0 w"
      and p: "polygon \<in> own_polys w0 w"
      and run: "calculateInclusionFlags env l polygon w = Inr w'"
  shows "keeps w0 w w'"
proof (rule foldE_keeps [OF _ c run [unfolded calculateInclusionFlags_def]])
  fix x s s' assume "x \<in> set l" "keeps w0 w s" "calculateInclusion_step env polygon x s = Inr s'"
  with l show "keeps w0 s s'"
    by (auto intro!: calculateInclusion_step_keeps [OF sc] dest: keepsD(1) keeps_own(4)
          keeps_own(3) [OF _ p])
qed

lemma js_nth_in_set: "js_nth xs k = Some x \<Longrightarrow> x \<in> set xs"
  by (auto simp: js_nth_def split: if_splits)

lemma chain2_links:
  assumes c: "confined w0 w" and i: "ints_ok (own_recs w0 w) ints"
      and run: "chain2 w ints a b = Inr (x, y)"
  shows "link_ok (own_edges w0 w) x"
proof -
  from run obtain c2 where "js_nth (int_points2 ints) (ip_id (recs w ! a)) = Some c2"
    and x: "x = edge_after (recs w ! c2)"
    by (auto simp: chain2_def bindE_eq_Inr deref_eq_Inr)
  with i have "c2 \<in> own_recs w0 w" by (auto simp: ints_ok_def dest: js_nth_in_set)
  from rec_linksD(5) [OF c this] show ?thesis by (simp add: x)
qed

lemma find_overlap_links:
  assumes c: "confined w0 w" and i: "ints_ok (own_recs w0 w) ints"
      and r: "cur \<in> own_recs w0 w"
      and run: "find_overlap w ints cur nxt = Inr (Some (a, b))"
  shows "link_ok (own_edges w0 w) a \<and> link_ok (own_edges w0 w) b"
proof -
  from run have a: "a = edge_after (recs w ! cur)"
    and "\<exists>y. chain2 w ints cur nxt = Inr (b, y) \<or> chain2 w ints nxt cur = Inr (b, y)"
    by (auto simp: find_overlap_def Let_def bindE_eq_Inr split: if_splits prod.splits)
  with chain2_links [OF c i] rec_linksD(5) [OF c r] show ?thesis by auto
qed

lemma setOverlappingFlags_step_keeps:
  assumes sc: "store_confined env" and c: "confined w0 (fst s)"
      and i: "ints_ok (own_recs w0 (fst s)) ints"
      and run: "setOverlappingFlags_step env ints k s = Inr s'"
  shows "keeps w0 (fst s) (fst s')"
proof -
  obtain w cf fi where s: "s = (w, cf, fi)" by (cases s) auto
  from c i have c': "confined w0 w" and i': "ints_ok (own_recs w0 w) ints" by (simp_all add: s)
  from run have "fst s' = w \<or>
    (\<exists>sorted1 cur nxt ef1 ef2. int_points1_sorted ints = Some sorted1 \<and>
        js_nth sorted1 (int k) = Some cur \<and>
        find_overlap w ints cur nxt = Inr (Some (Some ef1, Some ef2)) \<and>
        setOverlap env w ef1 ef2 = Inr (fst s'))"
    by (fastforce simp: s setOverlappingFlags_step_def Let_def bindE_eq_Inr deref_eq_Inr
          split: option.splits prod.splits)
  then show ?thesis
  proof (elim disjE exE conjE)
    assume "fst s' = w"
    with c' show ?thesis by (simp add: s keeps_refl)
  next
    fix sorted1 cur nxt ef1 ef2
    assume so: "int_points1_sorted ints = Some sorted1" and cur: "js_nth sorted1 (int k) = Some cur"
      and fo: "find_overlap w ints cur nxt = Inr (Some (Some ef1, Some ef2))"
      and ov: "setOverlap env w ef1 ef2 = Inr (fst s')"
    from i' so js_nth_in_set [OF cur] have "cur \<in> own_recs w0 w" by (auto simp: ints_ok_def)
    from find_overlap_links [OF c' i' this fo]
    have "ef1 \<in> own_edges w0 w" "ef2 \<in> own_edges w0 w" by simp_all
    from store_confinedD(7) [OF sc c' this ov] show ?thesis by (simp add: s)
  qed
qed

lemma setOverlappingFlags_keeps:
  assumes sc: "store_confined env" and c: "confined w0 w" and i: "ints_ok (own_recs w0 w) ints"
      and run: "setOverlappingFlags env ints w = Inr w'"
  shows "keeps w0 w w'"
proof -
  from run obtain s' where r: "foldE (setOverlappingFlags_step env ints)
      [0..<length (int_points1 ints)] (w, None, None) = Inr s'" and w': "w' = fst s'"
    by (auto simp: setOverlappingFlags_def bindE_eq_Inr)
  have "keeps w0 w (fst s') \<and> True"
  proof (rule foldE_keeps_inv [where \<pi> = fst and J = "\<lambda>s. True", OF _ c _ _ r])
    fix x s t assume "keeps w0 w (fst s)" "setOverlappingFlags_step env ints x s = Inr t"
    then show "keeps w0 (fst s) (fst t) \<and> True"
      by (auto intro!: setOverlappingFlags_step_keeps [OF sc] ints_ok_keeps [OF i]
            dest: keepsD(1))
  qed simp_all
  then show ?thesis by (simp add: w')
qed

lemma removeNotIntersected_step_keeps:
  assumes sc: "store_confined env" and c: "confined w0 w" and fc: "fc \<in> own_faces w0 w"
      and p: "polygon \<in> own_polys w0 w"
      and run: "removeNotIntersected_step env polygon op is_res fc w = Inr w'"
  shows "keeps w0 w w'"
proof -
  from run have "w' = w \<or> deleteFace env w polygon fc = Inr w'"
    by (auto simp: removeNotIntersected_step_def Let_def bindE_eq_Inr split: if_splits)
  with store_confinedD(9) [OF sc c p fc] c show ?thesis by (auto simp: keeps_refl)
qed

lemma removeNotRelevantNotIntersectedFaces_keeps:
  assumes sc: "store_confined env" and c: "confined w0 w" and fs: "set fs \<subseteq> own_faces w0 w"
      and p: "polygon \<in> own_polys w0 w"
      and run: "removeNotRelevantNotIntersectedFaces env polygon fs op is_res w = Inr w'"
  shows "keeps w0 w w'"
proof (rule foldE_keeps [OF _ c run [unfolded removeNotRelevantNotIntersectedFaces_def]])
  fix x s s' assume "x \<in> set fs" "keeps w0 w s"
    "removeNotIntersected_step env polygon op is_res x s = Inr s'"
  with fs show "keeps w0 s s'"
    by (auto intro!: removeNotIntersected_step_keeps [OF sc] dest: keepsD(1) keeps_own(2)
          keeps_own(3) [OF _ p])
qed

subsection \<open>The chain excisor\<close>

lemma remove_chain_between_keeps:
  assumes sc: "store_confined env" and c: "confined w0 w" and p: "polygon \<in> own_polys w0 w"
      and f: "cf \<in> own_faces w0 w" and r: "cur \<in> own_recs w0 w" "nxt \<in> own_recs w0 w"
      and run: "remove_chain_between env polygon op is_res cf cur nxt fs fnum ts tnum w = Inr w'"
  shows "keeps w0 w w'"
proof -
  from run obtain ef et where ef: "edge_after (recs w ! cur) = Some ef"
    and et: "edge_before (recs w ! nxt) = Some et"
    and w': "w' = w \<or> (\<exists>w1. removeChain env w polygon cf ef et = Inr w1 \<and>
               w' = fold (\<lambda>k. upd_rec nxt (\<lambda>r. r\<lparr>edge_before := None\<rparr>)) [ts..<ts + tnum]
                      (fold (\<lambda>k. upd_rec cur (\<lambda>r. r\<lparr>edge_after := None\<rparr>)) [fs..<fs + fnum] w1))"
    by (auto simp: remove_chain_between_def Let_def bindE_eq_Inr deref_eq_Inr split: if_splits)
  from w' show ?thesis
  proof (elim disjE exE conjE)
    assume "w' = w"
    with c show ?thesis by (simp add: keeps_refl)
  next
    fix w1
    assume rc: "removeChain env w polygon cf ef et = Inr w1"
      and w'': "w' = fold (\<lambda>k. upd_rec nxt (\<lambda>r. r\<lparr>edge_before := None\<rparr>)) [ts..<ts + tnum]
                      (fold (\<lambda>k. upd_rec cur (\<lambda>r. r\<lparr>edge_after := None\<rparr>)) [fs..<fs + fnum] w1)"
      (is "_ = fold ?g _ (fold ?f _ _)")
    from store_confinedD(5) [OF sc c p f rec_linksD(2) [OF c r(1) ef] rec_linksD(1) [OF c r(2) et] rc]
    have k1: "keeps w0 w w1" .
    have k2: "keeps w0 w1 (fold ?f [fs..<fs + fnum] w1)"
      by (rule fold_keeps [OF _ keepsD(1) [OF k1]])
         (auto intro!: keeps_upd_rec_links(2) dest: keepsD(1))
    have k3: "keeps w0 (fold ?f [fs..<fs + fnum] w1) w'"
      unfolding w'' by (rule fold_keeps [OF _ keepsD(1) [OF k2]])
         (auto intro!: keeps_upd_rec_links(1) dest: keepsD(1))
    from k1 k2 k3 show ?thesis by (blast intro: keeps_trans)
  qed
qed

lemma removeNotRelevantChains_loop_keeps:
  assumes sc: "store_confined env"
  shows "confined w0 w \<Longrightarrow> polygon \<in> own_polys w0 w \<Longrightarrow> set ips \<subseteq> own_recs w0 w \<Longrightarrow>
         link_ok (own_faces w0 w) cf0 \<Longrightarrow>
         (case first0 of None \<Rightarrow> True | Some j \<Rightarrow> j < length ips) \<Longrightarrow>
         removeNotRelevantChains_loop env polygon op ips is_res i cf0 first0 w = Inr w' \<Longrightarrow>
         keeps w0 w w'"
proof (induction "length ips - i" arbitrary: i cf0 first0 w rule: less_induct)
  case less
  note c = less.prems(1) and p = less.prems(2) and l = less.prems(3) and cf0 = less.prems(4)
    and f0 = less.prems(5) and run = less.prems(6)
  show ?case
  proof (cases "i < length ips")
    case False
    have "removeNotRelevantChains_loop env polygon op ips is_res i cf0 first0 w = Inr w"
      by (subst removeNotRelevantChains_loop.simps) (simp add: False)
    with run c show ?thesis by (simp add: keeps_refl del: removeNotRelevantChains_loop.simps)
  next
    case True
    define cur where "cur = ips ! i"
    define first where "first = (if face (recs w ! cur) \<noteq> cf0 then Some i else first0)"
    define cf where "cf = (if face (recs w ! cur) \<noteq> cf0 then face (recs w ! cur) else cf0)"
    define fpn where "fpn = intPointsPullCount env w ips i cf"
    define nno where "nno = (if i + fpn < length ips \<and>
          face (recs w ! (ips ! (i + fpn))) = face (recs w ! cur) then Some (i + fpn) else first)"
    have eq: "removeNotRelevantChains_loop env polygon op ips is_res i cf0 first0 w =
        (case cf of None \<Rightarrow> Inl TypeError
         | Some f \<Rightarrow>
           if isEmpty env w f
           then removeNotRelevantChains_loop env polygon op ips is_res (i + 1) cf first w
           else (case nno of None \<Rightarrow> Inl TypeError
                 | Some nn \<Rightarrow>
                   (case remove_chain_between env polygon op is_res f cur (ips ! nn) i fpn nn
                           (intPointsPullCount env w ips nn cf) w of
                      Inl err \<Rightarrow> Inl err
                    | Inr w1 \<Rightarrow> removeNotRelevantChains_loop env polygon op ips is_res
                                 (i + (fpn - 1) + 1) cf first w1)))"
      apply (subst removeNotRelevantChains_loop.simps)
      unfolding Let_def cur_def first_def cf_def fpn_def nno_def
      apply (simp only: True if_True)
      done
    have curR: "cur \<in> own_recs w0 w" using l True by (auto simp: cur_def)
    have cf_ok: "link_ok (own_faces w0 w) cf"
      using cf0 rec_linksD(6) [OF c curR] by (simp add: cf_def)
    have first_ok: "case first of None \<Rightarrow> True | Some j \<Rightarrow> j < length ips"
      using f0 True by (simp add: first_def)
    from run [unfolded eq] obtain f where cfS: "cf = Some f" by (cases cf) auto
    with cf_ok have fF: "f \<in> own_faces w0 w" by simp
    show ?thesis
    proof (cases "isEmpty env w f")
      case True
      with run [unfolded eq] cfS
      have r: "removeNotRelevantChains_loop env polygon op ips is_res (i + 1) cf first w = Inr w'"
        by (simp del: removeNotRelevantChains_loop.simps)
      have m: "length ips - (i + 1) < length ips - i" using \<open>i < length ips\<close> by simp
      from less.hyps [OF m c p l cf_ok first_ok r] show ?thesis .
    next
      case False
      with run [unfolded eq] cfS obtain nn w1 where nn: "nno = Some nn"
        and rcb: "remove_chain_between env polygon op is_res f cur (ips ! nn) i fpn nn
                    (intPointsPullCount env w ips nn cf) w = Inr w1"
        and r: "removeNotRelevantChains_loop env polygon op ips is_res (i + (fpn - 1) + 1)
                  cf first w1 = Inr w'"
        by (auto simp del: removeNotRelevantChains_loop.simps split: option.splits sum.splits)
      from nn first_ok have "nn < length ips" by (auto simp: nno_def split: if_splits)
      with l have nxtR: "ips ! nn \<in> own_recs w0 w" by auto
      from remove_chain_between_keeps [OF sc c p fF curR nxtR rcb] have k1: "keeps w0 w w1" .
      have m: "length ips - (i + (fpn - 1) + 1) < length ips - i" using \<open>i < length ips\<close> by simp
      from l keeps_own(4) [OF k1] have l1: "set ips \<subseteq> own_recs w0 w1" by auto
      from cf_ok keeps_own(2) [OF k1] have cf1: "link_ok (own_faces w0 w1) cf"
        by (cases cf) auto
      from less.hyps [OF m keepsD(1) [OF k1] keeps_own(3) [OF k1 p] l1 cf1 first_ok r]
      have "keeps w0 w1 w'" .
      with k1 show ?thesis by (rule keeps_trans)
    qed
  qed
qed

lemma removeNotRelevantChains_keeps:
  assumes sc: "store_confined env" and c: "confined w0 w" and p: "polygon \<in> own_polys w0 w"
      and l: "case ips of None \<Rightarrow> True | Some s \<Rightarrow> set s \<subseteq> own_recs w0 w"
      and run: "removeNotRelevantChains env polygon op ips is_res w = Inr w'"
  shows "keeps w0 w w'"
proof (cases ips)
  case None
  with run c show ?thesis by (simp add: removeNotRelevantChains_def keeps_refl)
next
  case (Some s)
  with l run have "set s \<subseteq> own_recs w0 w"
    and "removeNotRelevantChains_loop env polygon op s is_res 0 None None w = Inr w'"
    by (simp_all add: removeNotRelevantChains_def del: removeNotRelevantChains_loop.simps)
  from removeNotRelevantChains_loop_keeps [OF sc c p this(1) _ _ this(2)] show ?thesis by simp
qed

subsection \<open>The restitcher\<close>

lemma keeps_own_sub:
  assumes "keeps w0 w w'"
  shows "S \<subseteq> own_edges w0 w \<Longrightarrow> S \<subseteq> own_edges w0 w'"
    "S \<subseteq> own_faces w0 w \<Longrightarrow> S \<subseteq> own_faces w0 w'"
    "S \<subseteq> own_polys w0 w \<Longrightarrow> S \<subseteq> own_polys w0 w'"
    "S \<subseteq> own_recs w0 w \<Longrightarrow> S \<subseteq> own_recs w0 w'"
  using grows_own [OF keepsD(2) [OF assms], of w0] by auto

lemma ints_okD:
  assumes "ints_ok R ints"
  shows "set (int_points1 ints) \<subseteq> R" "set (int_points2 ints) \<subseteq> R"
    "case int_points1_sorted ints of None \<Rightarrow> True | Some s \<Rightarrow> set s \<subseteq> R"
    "case int_points2_sorted ints of None \<Rightarrow> True | Some s \<Rightarrow> set s \<subseteq> R"
  using assms by (simp_all add: ints_ok_def)

lemma copyWrkToRes_face_keeps:
  assumes sc: "store_confined env" and c: "confined w0 w" and p: "res \<in> own_polys w0 w"
      and fc: "fc \<in> own_faces w0 w" and run: "copyWrkToRes_face env res ips fc w = Inr w'"
  shows "keeps w0 w w'"
proof -
  from run obtain w1 where
    r1: "foldE (\<lambda>edge w'. edges_add env w' res edge) (face_edges env w fc) w = Inr w1" and
    r2: "w' = w1 \<or> (\<exists>nf. addFace env w1 res (f_first (faces w1 ! fc)) (f_last (faces w1 ! fc))
                       = Inr (w', nf))"
    by (auto simp: copyWrkToRes_face_def bindE_eq_Inr split: if_splits)
  have k1: "keeps w0 w w1"
  proof (rule foldE_keeps [OF _ c r1])
    fix x s s' assume x: "x \<in> set (face_edges env w fc)" and k: "keeps w0 w s"
      and r: "edges_add env s res x = Inr s'"
    from x store_confinedD(10) [OF sc c fc] have "x \<in> own_edges w0 w" by auto
    from store_confinedD(11) [OF sc keepsD(1) [OF k] keeps_own(3) [OF k p] keeps_own(1) [OF k this] r]
    show "keeps w0 s s'" .
  qed
  note c1 = keepsD(1) [OF k1] and fc1 = keeps_own(2) [OF k1 fc]
  from r2 show ?thesis
  proof (elim disjE exE)
    assume "w' = w1"
    with k1 show ?thesis by simp
  next
    fix nf assume "addFace env w1 res (f_first (faces w1 ! fc)) (f_last (faces w1 ! fc)) = Inr (w', nf)"
    from store_confinedD(8) [OF sc c1 keeps_own(3) [OF k1 p] face_linksD(3) [OF c1 fc1]
        face_linksD(4) [OF c1 fc1] this]
    have "keeps w0 w1 w'" by simp
    with k1 show ?thesis by (rule keeps_trans)
  qed
qed

lemma copyWrkToRes_keeps:
  assumes sc: "store_confined env" and c: "confined w0 w" and p: "res \<in> own_polys w0 w"
      and q: "wrk \<in> own_polys w0 w" and run: "copyWrkToRes env res wrk op ips w = Inr w'"
  shows "keeps w0 w w'"
proof (rule foldE_keeps [OF _ c run [unfolded copyWrkToRes_def]])
  fix x s s' assume "x \<in> set (p_faces (polys w ! wrk))" "keeps w0 w s"
    "copyWrkToRes_face env res ips x s = Inr s'"
  with poly_linksD(2) [OF c q] show "keeps w0 s s'"
    by (auto intro!: copyWrkToRes_face_keeps [OF sc] dest: keepsD(1) keeps_own(2)
          keeps_own(3) [OF _ p])
qed

lemma connect_keeps:
  assumes c: "confined w0 w" and e: "a_before \<in> own_edges w0 w" "b_after \<in> own_edges w0 w"
  shows "keeps w0 w (connect a a_before b b_after w)"
proof -
  let ?w1 = "upd_edge a_before (\<lambda>e. e\<lparr>e_next := Some b_after\<rparr>) w"
  let ?w2 = "upd_edge b_after (\<lambda>e. e\<lparr>e_prev := Some a_before\<rparr>) ?w1"
  let ?w3 = "upd_rec a (\<lambda>r. r\<lparr>edge_after := Some b_after\<rparr>) ?w2"
  let ?w4 = "upd_rec b (\<lambda>r. r\<lparr>edge_before := Some a_before\<rparr>) ?w3"
  have k1: "keeps w0 w ?w1" by (rule keeps_upd_edge_links(1) [OF c e(1)]) (simp add: e)
  have k2: "keeps w0 ?w1 ?w2"
    by (rule keeps_upd_edge_links(2) [OF keepsD(1) [OF k1]]) (simp_all add: e)
  from keeps_trans [OF k1 k2] have k12: "keeps w0 w ?w2" .
  have k3: "keeps w0 ?w2 ?w3"
    by (rule keeps_upd_rec_links(2) [OF keepsD(1) [OF k12]]) (simp add: e)
  from keeps_trans [OF k12 k3] have k13: "keeps w0 w ?w3" .
  have k4: "keeps w0 ?w3 ?w4"
    by (rule keeps_upd_rec_links(1) [OF keepsD(1) [OF k13]]) (simp add: e)
  from keeps_trans [OF k13 k4] show ?thesis by (simp add: connect_def Let_def)
qed

lemma swap_simple_keeps:
  assumes c: "confined w0 w" and r: "a \<in> own_recs w0 w" "b \<in> own_recs w0 w"
  shows "keeps w0 w (swap_simple a b w)"
  using rec_linksD(1) [OF c r(1)] rec_linksD(2) [OF c r(2)]
  by (auto simp: swap_simple_def keeps_refl [OF c] split: option.splits
        intro!: connect_keeps [OF c])

lemma swap_touching_step_keeps:
  assumes c: "confined w0 w" and r: "a \<in> own_recs w0 w" "ip \<in> own_recs w0 w"
      and run: "swap_touching_step env a ip w = Inr w'"
  shows "keeps w0 w w'"
proof -
  from run have "w' = w \<or> (\<exists>x y. edge_before (recs w ! a) = Some x \<and>
      edge_after (recs w ! ip) = Some y \<and> w' = connect a x ip y w)"
    by (auto simp: swap_touching_step_def bindE_eq_Inr deref_eq_Inr
          split: option.splits if_splits)
  with rec_linksD(1) [OF c r(1)] rec_linksD(2) [OF c r(2)] connect_keeps [OF c] keeps_refl [OF c]
  show ?thesis by auto
qed

lemma swap_touching_keeps:
  assumes c: "confined w0 w" and r: "a \<in> own_recs w0 w"
      and l: "case sorted_points of None \<Rightarrow> True | Some s \<Rightarrow> set s \<subseteq> own_recs w0 w"
      and run: "swap_touching env a sorted_points w = Inr w'"
  shows "keeps w0 w w'"
proof -
  from run have "w' = w \<or> (\<exists>ips. sorted_points = Some ips \<and>
      foldE (swap_touching_step env a) ips w = Inr w')"
    by (auto simp: swap_touching_def bindE_eq_Inr deref_eq_Inr split: option.splits)
  then show ?thesis
  proof (elim disjE exE conjE)
    assume "w' = w"
    with c show ?thesis by (simp add: keeps_refl)
  next
    fix ips assume s: "sorted_points = Some ips"
      and f: "foldE (swap_touching_step env a) ips w = Inr w'"
    show ?thesis
    proof (rule foldE_keeps [OF _ c f])
      fix x t t' assume x: "x \<in> set ips" and k: "keeps w0 w t"
        and st: "swap_touching_step env a x t = Inr t'"
      from x l s have "x \<in> own_recs w0 w" by auto
      from swap_touching_step_keeps [OF keepsD(1) [OF k] keeps_own(4) [OF k r]
          keeps_own(4) [OF k this] st]
      show "keeps w0 t t'" .
    qed
  qed
qed

lemma swapLinks_step_keeps:
  assumes c: "confined w0 w" and i: "ints_ok (own_recs w0 w) ints"
      and k: "k < length (int_points1 ints)"
      and run: "swapLinks_step env ints k w = Inr w'"
  shows "keeps w0 w w'"
proof -
  let ?a = "int_points1 ints ! k"
  from run obtain b w3 where b: "js_nth (int_points2 ints) (int k) = Some b"
    and t1: "swap_touching env ?a (int_points1_sorted ints)
               (swap_simple b ?a (swap_simple ?a b w)) = Inr w3"
    and t2: "swap_touching env b (int_points2_sorted ints) w3 = Inr w'"
    by (auto simp: swapLinks_step_def Let_def bindE_eq_Inr deref_eq_Inr)
  from ints_okD(1) [OF i] k have a: "?a \<in> own_recs w0 w" by auto
  from ints_okD(2) [OF i] js_nth_in_set [OF b] have b': "b \<in> own_recs w0 w" by auto
  have k1: "keeps w0 w (swap_simple ?a b w)" by (rule swap_simple_keeps [OF c a b'])
  have k2: "keeps w0 (swap_simple ?a b w) (swap_simple b ?a (swap_simple ?a b w))"
    by (rule swap_simple_keeps [OF keepsD(1) [OF k1] keeps_own(4) [OF k1 b'] keeps_own(4) [OF k1 a]])
  from keeps_trans [OF k1 k2] have k12: "keeps w0 w (swap_simple b ?a (swap_simple ?a b w))" .
  note i2 = ints_ok_keeps [OF i k12]
  from swap_touching_keeps [OF keepsD(1) [OF k12] keeps_own(4) [OF k12 a] ints_okD(3) [OF i2] t1]
  have k3: "keeps w0 (swap_simple b ?a (swap_simple ?a b w)) w3" .
  from keeps_trans [OF k12 k3] have k13: "keeps w0 w w3" .
  note i3 = ints_ok_keeps [OF i k13]
  from swap_touching_keeps [OF keepsD(1) [OF k13] keeps_own(4) [OF k13 b'] ints_okD(4) [OF i3] t2]
  have "keeps w0 w3 w'" .
  with k13 show ?thesis by (rule keeps_trans)
qed

lemma swapLinks_keeps:
  assumes c: "confined w0 w" and i: "ints_ok (own_recs w0 w) ints"
      and run: "swapLinks env res wrk ints w = Inr w'"
  shows "keeps w0 w w'"
proof (cases "length (int_points1 ints) = 0")
  case True
  with run c show ?thesis by (simp add: swapLinks_def keeps_refl)
next
  case False
  with run have f: "foldE (swapLinks_step env ints) [0..<length (int_points1 ints)] w = Inr w'"
    by (simp add: swapLinks_def)
  show ?thesis
  proof (rule foldE_keeps [OF _ c f])
    fix x t t' assume "x \<in> set [0..<length (int_points1 ints)]" "keeps w0 w t"
      "swapLinks_step env ints x t = Inr t'"
    then show "keeps w0 t t'"
      by (auto intro!: swapLinks_step_keeps ints_ok_keeps [OF i] dest: keepsD(1))
  qed
qed

lemma faces_delete_keeps:
  assumes c: "confined w0 w" and p: "polygon \<in> own_polys w0 w"
  shows "keeps w0 w (faces_delete polygon fc w)"
proof -
  let ?q = "(polys w ! polygon)\<lparr>p_faces := filter (\<lambda>f. Some f \<noteq> fc) (p_faces (polys w ! polygon))\<rparr>"
  let ?w = "w\<lparr>polys := (polys w)[polygon := ?q]\<rparr>"
  have own: "own_edges w0 ?w = own_edges w0 w" "own_faces w0 ?w = own_faces w0 w"
    "own_polys w0 ?w = own_polys w0 w" "own_recs w0 ?w = own_recs w0 w"
    by (simp_all add: own_edges_def own_faces_def own_polys_def own_recs_def)
  from confined_polyD [OF c p] have q: "poly_ok (own_edges w0 w) (own_faces w0 w) ?q"
    by (auto simp: poly_ok_def)
  have "poly_ok (own_edges w0 w) (own_faces w0 w) ((polys w)[polygon := ?q] ! x)"
    if "x \<in> own_polys w0 w" for x
  proof (cases "x = polygon")
    case True
    with that q show ?thesis by (simp add: own_polys_def)
  next
    case False
    with that c show ?thesis by (simp add: confined_def)
  qed
  moreover from p have "take (length (polys w0)) ((polys w)[polygon := ?q]) =
      take (length (polys w0)) (polys w)"
    by (simp add: own_polys_def)
  ultimately have "confined w0 ?w" using c by (simp add: confined_def unchanged_def own)
  then show ?thesis by (simp add: keeps_def grows_def faces_delete_def)
qed

lemma clear_edge_face_keeps:
  assumes c: "confined w0 w" and e: "link_ok (own_edges w0 w) e"
  shows "keeps w0 w (clear_edge_face e w)"
proof (cases e)
  case None
  with c show ?thesis by (simp add: clear_edge_face_def keeps_refl)
next
  case (Some x)
  with e have "x \<in> own_edges w0 w" by simp
  from keeps_upd_edge_links(3) [OF c this, of None] Some show ?thesis
    by (simp add: clear_edge_face_def)
qed

lemma removeOldFaces_step_keeps_own:
  assumes c: "confined w0 w" and p: "polygon \<in> own_polys w0 w" and r: "ip \<in> own_recs w0 w"
  shows "keeps w0 w (removeOldFaces_step polygon ip w)"
proof -
  let ?w1 = "faces_delete polygon (face (recs w ! ip)) w"
  let ?w2 = "upd_rec ip (\<lambda>r. r\<lparr>face := None\<rparr>) ?w1"
  let ?w3 = "clear_edge_face (edge_before (recs ?w2 ! ip)) ?w2"
  let ?w4 = "clear_edge_face (edge_after (recs ?w3 ! ip)) ?w3"
  have k1: "keeps w0 w ?w1" by (rule faces_delete_keeps [OF c p])
  have k2: "keeps w0 ?w1 ?w2" by (rule keeps_upd_rec_links(3) [OF keepsD(1) [OF k1]]) simp
  from keeps_trans [OF k1 k2] have k12: "keeps w0 w ?w2" .
  have k3: "keeps w0 ?w2 ?w3"
    by (rule clear_edge_face_keeps [OF keepsD(1) [OF k12]
          rec_linksD(4) [OF keepsD(1) [OF k12] keeps_own(4) [OF k12 r]]])
  from keeps_trans [OF k12 k3] have k13: "keeps w0 w ?w3" .
  have k4: "keeps w0 ?w3 ?w4"
    by (rule clear_edge_face_keeps [OF keepsD(1) [OF k13]
          rec_linksD(5) [OF keepsD(1) [OF k13] keeps_own(4) [OF k13 r]]])
  from keeps_trans [OF k13 k4] show ?thesis by (simp add: removeOldFaces_step_def Let_def)
qed

lemma removeOldFaces_keeps_own:
  assumes c: "confined w0 w" and p: "polygon \<in> own_polys w0 w" and l: "set l \<subseteq> own_recs w0 w"
  shows "keeps w0 w (removeOldFaces polygon l w)"
  unfolding removeOldFaces_def
proof (rule fold_keeps [OF _ c])
  fix x s assume "x \<in> set l" "keeps w0 w s"
  with l show "keeps w0 s (removeOldFaces_step polygon x s)"
    by (auto intro!: removeOldFaces_step_keeps_own dest: keepsD(1) keeps_own(4)
          keeps_own(3) [OF _ p])
qed

lemma mark_face_keeps:
  assumes c: "confined w0 w" and f: "fc \<in> own_faces w0 w"
  shows "keeps w0 w (mark_face fc ip w)"
  using keeps_upd_rec_links(3) [OF c, of "Some fc" ip] f
  by (auto simp: mark_face_def keeps_refl [OF c] split: option.splits)

lemma fold_mark_face_keeps:
  assumes c: "confined w0 w" and f: "fc \<in> own_faces w0 w"
  shows "keeps w0 w (fold (mark_face fc) l w)"
proof (rule fold_keeps [OF _ c])
  fix x s assume "keeps w0 w s"
  with f show "keeps w0 s (mark_face fc x s)"
    by (auto intro!: mark_face_keeps dest: keepsD(1) keeps_own(2))
qed

lemma restoreFaces_step_keeps:
  assumes sc: "store_confined env" and c: "confined w0 w" and p: "polygon \<in> own_polys w0 w"
      and r: "ip \<in> own_recs w0 w"
      and run: "restoreFaces_step env polygon ips other ip w = Inr w'"
  shows "keeps w0 w w'"
proof -
  from run have "w' = w \<or> (\<exists>eb ea w1 fc. edge_before (recs w ! ip) = Some eb \<and>
      edge_after (recs w ! ip) = Some ea \<and>
      addFace env w polygon (Some ea) (Some eb) = Inr (w1, fc) \<and>
      w' = fold (mark_face fc) other (fold (mark_face fc) ips w1))"
    by (auto simp: restoreFaces_step_def bindE_eq_Inr split: option.splits if_splits)
  then show ?thesis
  proof (elim disjE exE conjE)
    assume "w' = w"
    with c show ?thesis by (simp add: keeps_refl)
  next
    fix eb ea w1 fc
    assume eb: "edge_before (recs w ! ip) = Some eb" and ea: "edge_after (recs w ! ip) = Some ea"
      and af: "addFace env w polygon (Some ea) (Some eb) = Inr (w1, fc)"
      and w': "w' = fold (mark_face fc) other (fold (mark_face fc) ips w1)"
    from rec_linksD(1) [OF c r eb] rec_linksD(2) [OF c r ea]
    have "link_ok (own_edges w0 w) (Some ea)" "link_ok (own_edges w0 w) (Some eb)" by simp_all
    from store_confinedD(8) [OF sc c p this af]
    have k1: "keeps w0 w w1" and f: "fc \<in> own_faces w0 w1" by simp_all
    have k2: "keeps w0 w1 (fold (mark_face fc) ips w1)"
      by (rule fold_mark_face_keeps [OF keepsD(1) [OF k1] f])
    have k3: "keeps w0 (fold (mark_face fc) ips w1) w'"
      unfolding w' by (rule fold_mark_face_keeps [OF keepsD(1) [OF k2] keeps_own(2) [OF k2 f]])
    from k1 k2 k3 show ?thesis by (blast intro: keeps_trans)
  qed
qed

lemma restoreFaces_keeps:
  assumes sc: "store_confined env" and c: "confined w0 w" and p: "polygon \<in> own_polys w0 w"
      and l: "set ips \<subseteq> own_recs w0 w"
      and run: "restoreFaces env polygon ips other w = Inr w'"
  shows "keeps w0 w w'"
proof (rule foldE_keeps [OF _ c run [unfolded restoreFaces_def]])
  fix x s s' assume "x \<in> set ips" "keeps w0 w s"
    "restoreFaces_step env polygon ips other x s = Inr s'"
  with l show "keeps w0 s s'"
    by (auto intro!: restoreFaces_step_keeps [OF sc] dest: keepsD(1) keeps_own(4)
          keeps_own(3) [OF _ p])
qed

lemma swapLinksAndRestore_keeps:
  assumes sc: "store_confined env" and c: "confined w0 w"
      and p: "res \<in> own_polys w0 w" "wrk \<in> own_polys w0 w"
      and i: "ints_ok (own_recs w0 w) ints"
      and run: "swapLinksAndRestore env res wrk ints op w = Inr w'"
  shows "keeps w0 w w'"
proof -
  from run obtain w1 w2 w5 where
    r1: "copyWrkToRes env res wrk op (int_points2 ints) w = Inr w1" and
    r2: "swapLinks env res wrk ints w1 = Inr w2" and
    r5: "restoreFaces env res (int_points1 ints) (int_points2 ints)
           (removeOldFaces wrk (int_points2 ints) (removeOldFaces res (int_points1 ints) w2))
           = Inr w5" (is "restoreFaces _ _ _ _ ?w4 = _") and
    r6: "restoreFaces env res (int_points2 ints) (int_points1 ints) w5 = Inr w'"
    by (auto simp: swapLinksAndRestore_def Let_def bindE_eq_Inr)
  let ?w3 = "removeOldFaces res (int_points1 ints) w2"
  from copyWrkToRes_keeps [OF sc c p r1] have k1: "keeps w0 w w1" .
  from swapLinks_keeps [OF keepsD(1) [OF k1] ints_ok_keeps [OF i k1] r2] k1
  have k2: "keeps w0 w w2" by (blast intro: keeps_trans)
  from removeOldFaces_keeps_own [OF keepsD(1) [OF k2] keeps_own(3) [OF k2 p(1)]
      ints_okD(1) [OF ints_ok_keeps [OF i k2]]] k2
  have k3: "keeps w0 w ?w3" by (blast intro: keeps_trans)
  from removeOldFaces_keeps_own [OF keepsD(1) [OF k3] keeps_own(3) [OF k3 p(2)]
      ints_okD(2) [OF ints_ok_keeps [OF i k3]]] k3
  have k4: "keeps w0 w ?w4" by (blast intro: keeps_trans)
  from restoreFaces_keeps [OF sc keepsD(1) [OF k4] keeps_own(3) [OF k4 p(1)]
      ints_okD(1) [OF ints_ok_keeps [OF i k4]] r5] k4
  have k5: "keeps w0 w w5" by (blast intro: keeps_trans)
  from restoreFaces_keeps [OF sc keepsD(1) [OF k5] keeps_own(3) [OF k5 p(1)]
      ints_okD(2) [OF ints_ok_keeps [OF i k5]] r6] k5
  show ?thesis by (blast intro: keeps_trans)
qed

subsection \<open>The drivers\<close>

lemma filterNotRelevantEdges_keeps:
  assumes sc: "store_confined env" and c: "confined w0 w"
      and p: "res \<in> own_polys w0 w" "wrk \<in> own_polys w0 w"
      and i: "ints_ok (own_recs w0 w) ints"
      and run: "filterNotRelevantEdges env res wrk ints op w = Inr w'"
  shows "keeps w0 w w'"
proof -
  let ?nr = "getNotIntersectedFaces w res (int_points1 ints)"
  let ?nw = "getNotIntersectedFaces w wrk (int_points2 ints)"
  from run obtain w1 w2 w3 w4 w5 w6 w7 w8 w9 w10 where
    r1: "calcInclusionForNotIntersectedFaces env ?nr wrk w = Inr w1" and
    r2: "calcInclusionForNotIntersectedFaces env ?nw res w1 = Inr w2" and
    r3: "initializeInclusionFlags (int_points1 ints) w2 = Inr w3" and
    r4: "initializeInclusionFlags (int_points2 ints) w3 = Inr w4" and
    r5: "calculateInclusionFlags env (int_points1 ints) wrk w4 = Inr w5" and
    r6: "calculateInclusionFlags env (int_points2 ints) res w5 = Inr w6" and
    r7: "setOverlappingFlags env ints w6 = Inr w7" and
    r8: "removeNotRelevantChains env res op (int_points1_sorted ints) True w7 = Inr w8" and
    r9: "removeNotRelevantChains env wrk op (int_points2_sorted ints) False w8 = Inr w9" and
    r10: "removeNotRelevantNotIntersectedFaces env res ?nr op True w9 = Inr w10" and
    r11: "removeNotRelevantNotIntersectedFaces env wrk ?nw op False w10 = Inr w'"
    by (auto simp: filterNotRelevantEdges_def Let_def bindE_eq_Inr)
  note nr = getNotIntersectedFaces_own [OF c p(1), of "int_points1 ints"]
  note nw = getNotIntersectedFaces_own [OF c p(2), of "int_points2 ints"]
  from calcInclusionForNotIntersectedFaces_keeps [OF sc c nr p(2) r1] have k1: "keeps w0 w w1" .
  from calcInclusionForNotIntersectedFaces_keeps [OF sc keepsD(1) [OF k1]
      keeps_own_sub(2) [OF k1 nw] keeps_own(3) [OF k1 p(1)] r2] k1
  have k2: "keeps w0 w w2" by (blast intro: keeps_trans)
  from initializeInclusionFlags_keeps [OF keepsD(1) [OF k2]
      ints_okD(1) [OF ints_ok_keeps [OF i k2]] r3] k2
  have k3: "keeps w0 w w3" by (blast intro: keeps_trans)
  from initializeInclusionFlags_keeps [OF keepsD(1) [OF k3]
      ints_okD(2) [OF ints_ok_keeps [OF i k3]] r4] k3
  have k4: "keeps w0 w w4" by (blast intro: keeps_trans)
  from calculateInclusionFlags_keeps [OF sc keepsD(1) [OF k4]
      ints_okD(1) [OF ints_ok_keeps [OF i k4]] keeps_own(3) [OF k4 p(2)] r5] k4
  have k5: "keeps w0 w w5" by (blast intro: keeps_trans)
  from calculateInclusionFlags_keeps [OF sc keepsD(1) [OF k5]
      ints_okD(2) [OF ints_ok_keeps [OF i k5]] keeps_own(3) [OF k5 p(1)] r6] k5
  have k6: "keeps w0 w w6" by (blast intro: keeps_trans)
  from setOverlappingFlags_keeps [OF sc keepsD(1) [OF k6] ints_ok_keeps [OF i k6] r7] k6
  have k7: "keeps w0 w w7" by (blast intro: keeps_trans)
  from removeNotRelevantChains_keeps [OF sc keepsD(1) [OF k7] keeps_own(3) [OF k7 p(1)]
      ints_okD(3) [OF ints_ok_keeps [OF i k7]] r8] k7
  have k8: "keeps w0 w w8" by (blast intro: keeps_trans)
  from removeNotRelevantChains_keeps [OF sc keepsD(1) [OF k8] keeps_own(3) [OF k8 p(2)]
      ints_okD(4) [OF ints_ok_keeps [OF i k8]] r9] k8
  have k9: "keeps w0 w w9" by (blast intro: keeps_trans)
  from removeNotRelevantNotIntersectedFaces_keeps [OF sc keepsD(1) [OF k9]
      keeps_own_sub(2) [OF k9 nr] keeps_own(3) [OF k9 p(1)] r10] k9
  have k10: "keeps w0 w w10" by (blast intro: keeps_trans)
  from removeNotRelevantNotIntersectedFaces_keeps [OF sc keepsD(1) [OF k10]
      keeps_own_sub(2) [OF k10 nw] keeps_own(3) [OF k10 p(2)] r11] k10
  show ?thesis by (blast intro: keeps_trans)
qed

lemma clone_and_split_keeps:
  assumes sc: "store_confined env" and c: "confined w0 w"
      and run: "clone_and_split env w polygon1 polygon2 = Inr (w', res, wrk, ints)"
  shows "keeps w0 w w' \<and> res \<in> own_polys w0 w' \<and> wrk \<in> own_polys w0 w' \<and>
         ints_ok (own_recs w0 w') ints"
proof -
  from run obtain w1 p w2 q col where
    r1': "clone env w polygon1 = Inr (w1, p)" and r2': "clone env w1 polygon2 = Inr (w2, q)" and
    r3': "getIntersections env w2 p q = Inr col" and
    rest: "(case sortIntersections env col of (w3, ints) \<Rightarrow>
            bindE (splitByIntersections env p (int_points1_sorted ints) w3) (\<lambda>w4.
            bindE (splitByIntersections env q (int_points2_sorted ints) w4) (\<lambda>w5.
            bindE (filterDuplicatedIntersections env (w5, ints)) (\<lambda>(w6, ints').
              Inr (w6, p, q, ints'))))) = Inr (w', res, wrk, ints)"
    by (auto simp: clone_and_split_def bindE_eq_Inr)
  obtain wc ic where col: "col = (wc, ic)" by (cases col) auto
  obtain w3 i3 where rs: "sortIntersections env (wc, ic) = (w3, i3)" by fastforce
  from rest rs col obtain w4 w5 where
    r4': "splitByIntersections env p (int_points1_sorted i3) w3 = Inr w4" and
    r5': "splitByIntersections env q (int_points2_sorted i3) w4 = Inr w5" and
    r6: "filterDuplicatedIntersections env (w5, i3) = Inr (w', ints)" and
    pq: "p = res" "q = wrk"
    by (auto simp: bindE_eq_Inr)
  note r1 = r1' [unfolded pq] and r2 = r2' [unfolded pq] and r3 = r3' [unfolded pq col]
    and r4 = r4' [unfolded pq] and r5 = r5' [unfolded pq]
  from store_confinedD(1) [OF sc c r1] have k1: "keeps w0 w w1" and p1: "res \<in> own_polys w0 w1"
    by simp_all
  from store_confinedD(1) [OF sc keepsD(1) [OF k1] r2]
  have k12: "keeps w0 w1 w2" and q2: "wrk \<in> own_polys w0 w2" by simp_all
  from keeps_trans [OF k1 k12] have k2: "keeps w0 w w2" .
  note p2 = keeps_own(3) [OF k12 p1]
  from getIntersections_keeps [OF sc keepsD(1) [OF k2] p2 q2 r3]
  have k2c: "keeps w0 w2 wc" and ic: "ints_ok (own_recs w0 wc) ic" by simp_all
  from sortIntersections_keeps_own [OF keepsD(1) [OF k2c] ic rs]
  have kc3: "keeps w0 wc w3" and i3: "ints_ok (own_recs w0 w3) i3" by simp_all
  from k2 k2c kc3 have k3: "keeps w0 w w3" by (blast intro: keeps_trans)
  from k12 k2c kc3 have k13: "keeps w0 w1 w3" by (blast intro: keeps_trans)
  from k2c kc3 have k23: "keeps w0 w2 w3" by (blast intro: keeps_trans)
  note p3 = keeps_own(3) [OF k13 p1] and q3 = keeps_own(3) [OF k23 q2]
  from splitByIntersections_keeps [OF sc keepsD(1) [OF k3] p3 ints_okD(3) [OF i3] r4]
  have k34: "keeps w0 w3 w4" .
  note c4 = keepsD(1) [OF k34] and i4 = ints_ok_keeps [OF i3 k34]
  from splitByIntersections_keeps [OF sc c4 keeps_own(3) [OF k34 q3] ints_okD(4) [OF i4] r5]
  have k45: "keeps w0 w4 w5" .
  note c5 = keepsD(1) [OF k45] and i5 = ints_ok_keeps [OF i4 k45]
  from filterDuplicatedIntersections_keeps [OF c5 i5 r6]
  have k56: "keeps w0 w5 w'" and i6: "ints_ok (own_recs w0 w') ints" by simp_all
  from k34 k45 k56 have k36: "keeps w0 w3 w'" by (blast intro: keeps_trans)
  from keeps_trans [OF k3 k36] keeps_own(3) [OF k36 p3] keeps_own(3) [OF k36 q3] i6
  show ?thesis by simp
qed

lemma booleanOpBinary_keeps:
  assumes sc: "store_confined env" and c: "confined w0 w"
      and run: "booleanOpBinary env w polygon1 polygon2 op restore = Inr (w', res, wrk)"
  shows "keeps w0 w w'" and "res \<in> own_polys w0 w'" and "wrk \<in> own_polys w0 w'"
proof -
  from run obtain w1 ints w2 where
    r1: "clone_and_split env w polygon1 polygon2 = Inr (w1, res, wrk, ints)" and
    r2: "filterNotRelevantEdges env res wrk ints op w1 = Inr w2" and
    r3: "(if restore then swapLinksAndRestore env res wrk ints op w2 else Inr w2) = Inr w'"
    by (auto simp: booleanOpBinary_def bindE_eq_Inr)
  from clone_and_split_keeps [OF sc c r1]
  have k1: "keeps w0 w w1" and p: "res \<in> own_polys w0 w1" "wrk \<in> own_polys w0 w1"
    and i: "ints_ok (own_recs w0 w1) ints" by simp_all
  from filterNotRelevantEdges_keeps [OF sc keepsD(1) [OF k1] p i r2]
  have k12: "keeps w0 w1 w2" .
  from keeps_trans [OF k1 k12] have k2: "keeps w0 w w2" .
  note p2 = keeps_own(3) [OF k12 p(1)] keeps_own(3) [OF k12 p(2)]
  have k23: "keeps w0 w2 w'"
  proof (cases restore)
    case True
    with r3 have "swapLinksAndRestore env res wrk ints op w2 = Inr w'" by simp
    from swapLinksAndRestore_keeps [OF sc keepsD(1) [OF k2] p2 ints_ok_keeps [OF i k12] this]
    show ?thesis .
  next
    case False
    with r3 have "w' = w2" by simp
    with keeps_refl [OF keepsD(1) [OF k2]] show ?thesis by simp
  qed
  from keeps_trans [OF k2 k23] show "keeps w0 w w'" .
  from keeps_own(3) [OF k23] p2 show "res \<in> own_polys w0 w'" "wrk \<in> own_polys w0 w'" by simp_all
qed

lemma keeps_unchanged: "keeps w w w' \<Longrightarrow> unchanged w w'"
  by (simp add: keeps_def confined_def)

lemma subtract_keeps:
  assumes sc: "store_confined env" and c: "confined w0 w"
      and run: "subtract env w polygon1 polygon2 = Inr (w', r)"
  shows "keeps w0 w w' \<and> r \<in> own_polys w0 w' \<and>
         (\<exists>w1 polygon2_tmp w2 wrk.
            clone env w polygon2 = Inr (w1, polygon2_tmp) \<and> polygon2_tmp \<in> own_polys w0 w1 \<and>
            reverse env w1 polygon2_tmp = Inr w2 \<and> keeps w0 w w2 \<and>
            booleanOpBinary env w2 polygon1 polygon2_tmp BOOLEAN_SUBTRACT True = Inr (w', r, wrk))"
proof -
  from run obtain w1 tmp w2 wrk where
    r1: "clone env w polygon2 = Inr (w1, tmp)" and r2: "reverse env w1 tmp = Inr w2" and
    r3: "booleanOpBinary env w2 polygon1 tmp BOOLEAN_SUBTRACT True = Inr (w', r, wrk)"
    by (auto simp: subtract_def Let_def bindE_eq_Inr)
  from store_confinedD(1) [OF sc c r1] have k1: "keeps w0 w w1" and t: "tmp \<in> own_polys w0 w1"
    by simp_all
  from store_confinedD(2) [OF sc keepsD(1) [OF k1] t r2] have k12: "keeps w0 w1 w2" .
  from keeps_trans [OF k1 k12] have k2: "keeps w0 w w2" .
  from booleanOpBinary_keeps(1,2) [OF sc keepsD(1) [OF k2] r3]
  have k3: "keeps w0 w2 w'" and rr: "r \<in> own_polys w0 w'" by simp_all
  from keeps_trans [OF k2 k3] rr r1 t r2 k2 r3 show ?thesis by blast
qed

subsection \<open>The segment store keeps to the objects of the call\<close>

lemma confined_grows: "confined w0 w \<Longrightarrow> grows w0 w"
proof -
  assume c: "confined w0 w"
  then have "length (take (length (edges w0)) (edges w)) = length (edges w0)"
    "length (take (length (faces w0)) (faces w)) = length (faces w0)"
    "length (take (length (polys w0)) (polys w)) = length (polys w0)"
    by (simp_all add: confined_def unchanged_def)
  with c show ?thesis by (auto simp: grows_def confined_def min_def split: if_splits)
qed

lemma edge_ok_mono: "edge_ok E F e \<Longrightarrow> E \<subseteq> E' \<Longrightarrow> F \<subseteq> F' \<Longrightarrow> edge_ok E' F' e"
  by (auto simp: edge_ok_def intro: link_ok_mono)

lemma face_ok_mono: "face_ok E f \<Longrightarrow> E \<subseteq> E' \<Longrightarrow> face_ok E' f"
  by (auto simp: face_ok_def intro: link_ok_mono)

lemma poly_ok_mono: "poly_ok E F p \<Longrightarrow> E \<subseteq> E' \<Longrightarrow> F \<subseteq> F' \<Longrightarrow> poly_ok E' F' p"
  by (auto simp: poly_ok_def)

lemma rec_ok_mono: "rec_ok E F r \<Longrightarrow> E \<subseteq> E' \<Longrightarrow> F \<subseteq> F' \<Longrightarrow> rec_ok E' F' r"
  by (auto simp: rec_ok_def intro: link_ok_mono)

lemma keeps_alloc:
  assumes c: "confined w0 w"
      and ne: "\<forall>e\<in>set ne. edge_ok {length (edges w0)..<length (edges w) + length ne}
                              {length (faces w0)..<length (faces w) + length nf} e"
      and nf: "\<forall>f\<in>set nf. face_ok {length (edges w0)..<length (edges w) + length ne} f"
      and np: "\<forall>p\<in>set np. poly_ok {length (edges w0)..<length (edges w) + length ne}
                              {length (faces w0)..<length (faces w) + length nf} p"
  shows "keeps w0 w (w\<lparr>edges := edges w @ ne, faces := faces w @ nf, polys := polys w @ np\<rparr>)"
proof -
  let ?w = "w\<lparr>edges := edges w @ ne, faces := faces w @ nf, polys := polys w @ np\<rparr>"
  let ?E = "{length (edges w0)..<length (edges w) + length ne}"
  let ?F = "{length (faces w0)..<length (faces w) + length nf}"
  from confined_grows [OF c] have g: "length (edges w0) \<le> length (edges w)"
    "length (faces w0) \<le> length (faces w)" "length (polys w0) \<le> length (polys w)"
    by (simp_all add: grows_def)
  have own: "own_edges w0 ?w = ?E" "own_faces w0 ?w = ?F"
    "own_polys w0 ?w = {length (polys w0)..<length (polys w) + length np}"
    "own_recs w0 ?w = own_recs w0 w"
    by (simp_all add: own_edges_def own_faces_def own_polys_def own_recs_def)
  have sub: "own_edges w0 w \<subseteq> ?E" "own_faces w0 w \<subseteq> ?F"
    by (auto simp: own_edges_def own_faces_def)
  have e: "edge_ok ?E ?F ((edges w @ ne) ! x)" if "x \<in> ?E" for x
  proof (cases "x < length (edges w)")
    case True
    with that have "x \<in> own_edges w0 w" by (simp add: own_edges_def)
    from edge_ok_mono [OF confined_edgeD [OF c this] sub] True show ?thesis
      by (simp add: nth_append)
  next
    case False
    with that have "(edges w @ ne) ! x \<in> set ne" by (auto simp: nth_append intro!: nth_mem)
    with ne show ?thesis by blast
  qed
  have f: "face_ok ?E ((faces w @ nf) ! x)" if "x \<in> ?F" for x
  proof (cases "x < length (faces w)")
    case True
    with that have "x \<in> own_faces w0 w" by (simp add: own_faces_def)
    from face_ok_mono [OF confined_faceD [OF c this] sub(1)] True show ?thesis
      by (simp add: nth_append)
  next
    case False
    with that have "(faces w @ nf) ! x \<in> set nf" by (auto simp: nth_append intro!: nth_mem)
    with nf show ?thesis by blast
  qed
  have p: "poly_ok ?E ?F ((polys w @ np) ! x)"
    if "x \<in> {length (polys w0)..<length (polys w) + length np}" for x
  proof (cases "x < length (polys w)")
    case True
    with that have "x \<in> own_polys w0 w" by (simp add: own_polys_def)
    from poly_ok_mono [OF confined_polyD [OF c this] sub] True show ?thesis
      by (simp add: nth_append)
  next
    case False
    with that have "(polys w @ np) ! x \<in> set np" by (auto simp: nth_append intro!: nth_mem)
    with np show ?thesis by blast
  qed
  have r: "rec_ok ?E ?F (recs w ! x)" if "x \<in> own_recs w0 w" for x
    by (rule rec_ok_mono [OF confined_recD [OF c that] sub])
  from c g have "unchanged w0 ?w" by (simp add: confined_def unchanged_def)
  with c e f p r show ?thesis
    by (simp add: keeps_def confined_def own grows_def)
qed

lemma keeps_upd_poly:
  assumes c: "confined w0 w" and p: "polygon \<in> own_polys w0 w"
      and q: "poly_ok (own_edges w0 w) (own_faces w0 w) q"
  shows "keeps w0 w (w\<lparr>polys := (polys w)[polygon := q]\<rparr>)"
proof -
  let ?w = "w\<lparr>polys := (polys w)[polygon := q]\<rparr>"
  have own: "own_edges w0 ?w = own_edges w0 w" "own_faces w0 ?w = own_faces w0 w"
    "own_polys w0 ?w = own_polys w0 w" "own_recs w0 ?w = own_recs w0 w"
    by (simp_all add: own_edges_def own_faces_def own_polys_def own_recs_def)
  have "poly_ok (own_edges w0 w) (own_faces w0 w) ((polys w)[polygon := q] ! x)"
    if "x \<in> own_polys w0 w" for x
  proof (cases "x = polygon")
    case True
    with that q show ?thesis by (simp add: own_polys_def)
  next
    case False
    with that c show ?thesis by (simp add: confined_def)
  qed
  moreover from p have "take (length (polys w0)) ((polys w)[polygon := q]) =
      take (length (polys w0)) (polys w)"
    by (simp add: own_polys_def)
  ultimately have "confined w0 ?w" using c by (simp add: confined_def unchanged_def own)
  then show ?thesis by (simp add: keeps_def grows_def)
qed

lemma keeps_upd_face:
  assumes c: "confined w0 w" and f: "f \<in> own_faces w0 w"
      and g: "face_ok (own_edges w0 w) g"
  shows "keeps w0 w (w\<lparr>faces := (faces w)[f := g]\<rparr>)"
proof -
  let ?w = "w\<lparr>faces := (faces w)[f := g]\<rparr>"
  have own: "own_edges w0 ?w = own_edges w0 w" "own_faces w0 ?w = own_faces w0 w"
    "own_polys w0 ?w = own_polys w0 w" "own_recs w0 ?w = own_recs w0 w"
    by (simp_all add: own_edges_def own_faces_def own_polys_def own_recs_def)
  have "face_ok (own_edges w0 w) ((faces w)[f := g] ! x)" if "x \<in> own_faces w0 w" for x
  proof (cases "x = f")
    case True
    with that g show ?thesis by (simp add: own_faces_def)
  next
    case False
    with that c show ?thesis by (simp add: confined_def)
  qed
  moreover from f have "take (length (faces w0)) ((faces w)[f := g]) =
      take (length (faces w0)) (faces w)"
    by (simp add: own_faces_def)
  ultimately have "confined w0 ?w" using c by (simp add: confined_def unchanged_def own)
  then show ?thesis by (simp add: keeps_def grows_def)
qed

lemma index_of_less: "index_of xs x = Some i \<Longrightarrow> i < length xs"
  by (induction xs arbitrary: i) (auto split: if_splits)

lemma relocate_ok: "link_ok {base..<base + length olds} (relocate olds base x)"
  by (auto simp: relocate_def dest: index_of_less split: option.splits)

lemma store_clone_keeps:
  assumes c: "confined w0 w" and run: "store_clone w p = Inr (w', q)"
  shows "keeps w0 w w' \<and> q \<in> own_polys w0 w'"
proof -
  let ?oe = "p_edges (polys w ! p)" and ?of = "p_faces (polys w ! p)"
  let ?te = "relocate ?oe (length (edges w))" and ?tf = "relocate ?of (length (faces w))"
  let ?ne = "map (\<lambda>e. (edges w ! e)\<lparr>e_prev := ?te (e_prev (edges w ! e)),
                                       e_next := ?te (e_next (edges w ! e)),
                                       e_face := ?tf (e_face (edges w ! e))\<rparr>) ?oe"
  let ?nf = "map (\<lambda>f. \<lparr>f_first = ?te (f_first (faces w ! f)),
                        f_last = ?te (f_last (faces w ! f))\<rparr>) ?of"
  let ?copy = "\<lparr>p_faces = [length (faces w)..<length (faces w) + length ?of],
                p_edges = [length (edges w)..<length (edges w) + length ?oe]\<rparr>"
  from run have w': "w' = w\<lparr>edges := edges w @ ?ne, faces := faces w @ ?nf,
                            polys := polys w @ [?copy]\<rparr>"
    and q: "q = length (polys w)"
    by (simp_all add: store_clone_def Let_def)
  from confined_grows [OF c] have g: "length (edges w0) \<le> length (edges w)"
    "length (faces w0) \<le> length (faces w)" "length (polys w0) \<le> length (polys w)"
    by (simp_all add: grows_def)
  have le: "link_ok {length (edges w0)..<length (edges w) + length ?oe} (?te x)" for x
    by (rule link_ok_mono [OF relocate_ok]) (use g in auto)
  have lf: "link_ok {length (faces w0)..<length (faces w) + length ?of} (?tf x)" for x
    by (rule link_ok_mono [OF relocate_ok]) (use g in auto)
  have "keeps w0 w (w\<lparr>edges := edges w @ ?ne, faces := faces w @ ?nf, polys := polys w @ [?copy]\<rparr>)"
    by (rule keeps_alloc [OF c]) (use g in \<open>auto simp: edge_ok_def face_ok_def poly_ok_def le lf\<close>)
  with g show ?thesis by (simp add: w' q own_polys_def)
qed

lemma reverse_edge_ok: "edge_ok E F d \<Longrightarrow> edge_ok E F (reverse_edge d)"
  by (simp add: edge_ok_def reverse_edge_def)

lemma store_reverse_keeps:
  assumes c: "confined w0 w" and p: "p \<in> own_polys w0 w" and run: "store_reverse w p = Inr w'"
  shows "keeps w0 w w'"
proof -
  let ?w1 = "fold (\<lambda>e. upd_edge e reverse_edge) (p_edges (polys w ! p)) w"
  from run have w': "w' = fold reverse_face (p_faces (polys w ! p)) ?w1"
    by (simp add: store_reverse_def)
  have k1: "keeps w0 w ?w1"
  proof (rule fold_keeps [OF _ c])
    fix x s assume x: "x \<in> set (p_edges (polys w ! p))" and k: "keeps w0 w s"
    from x poly_linksD(1) [OF c p] have "x \<in> own_edges w0 w" by auto
    note xs = keeps_own(1) [OF k this]
    from keeps_upd_edge [where f = reverse_edge, OF keepsD(1) [OF k] xs
        reverse_edge_ok [OF confined_edgeD [OF keepsD(1) [OF k] xs]]]
    show "keeps w0 s (upd_edge x reverse_edge s)" .
  qed
  have k2: "keeps w0 ?w1 w'"
    unfolding w'
  proof (rule fold_keeps [OF _ keepsD(1) [OF k1]])
    fix x s assume x: "x \<in> set (p_faces (polys w ! p))" and k: "keeps w0 ?w1 s"
    from x poly_linksD(2) [OF c p] have "x \<in> own_faces w0 w" by auto
    note xs = keeps_own(2) [OF k keeps_own(2) [OF k1 this]]
    from confined_faceD [OF keepsD(1) [OF k] xs]
    have "face_ok (own_edges w0 s) \<lparr>f_first = f_last (faces s ! x), f_last = f_first (faces s ! x)\<rparr>"
      by (simp add: face_ok_def)
    from keeps_upd_face [OF keepsD(1) [OF k] xs this]
    show "keeps w0 s (reverse_face x s)" by (simp add: reverse_face_def)
  qed
  from keeps_trans [OF k1 k2] show ?thesis .
qed

lemma store_addVertex_keeps:
  assumes c: "confined w0 w" and p: "polygon \<in> own_polys w0 w" and e: "e \<in> own_edges w0 w"
      and run: "store_addVertex splt w polygon x e = Inr (w', n)"
  shows "keeps w0 w w' \<and> n \<in> own_edges w0 w'"
proof -
  from run obtain s0 s1 pb where pb: "e_prev (edges w ! e) = Some pb"
    and n: "n = length (edges w)"
    and w': "w' = (let w1 = w\<lparr>edges := edges w @ [(edges w ! e)\<lparr>e_shape := s0, e_next := Some e\<rparr>]\<rparr>;
                      w2 = upd_edge pb (\<lambda>d. d\<lparr>e_next := Some (length (edges w))\<rparr>) w1;
                      w3 = upd_edge e (\<lambda>d. d\<lparr>e_shape := s1, e_prev := Some (length (edges w)),
                                  e_arc_length := e_arc_length d + sh_length s0\<rparr>) w2
                  in w3\<lparr>polys := (polys w3)[polygon :=
                          (polys w3 ! polygon)\<lparr>p_edges := p_edges (polys w3 ! polygon) @
                             [length (edges w)]\<rparr>]\<rparr>)"
    by (auto simp: store_addVertex_def Let_def bindE_eq_Inr deref_eq_Inr
          split: list.splits option.splits)
  let ?new = "(edges w ! e)\<lparr>e_shape := s0, e_next := Some e\<rparr>"
  let ?w1 = "w\<lparr>edges := edges w @ [?new]\<rparr>"
  let ?w2 = "upd_edge pb (\<lambda>d. d\<lparr>e_next := Some (length (edges w))\<rparr>) ?w1"
  let ?w3 = "upd_edge e (\<lambda>d. d\<lparr>e_shape := s1, e_prev := Some (length (edges w)),
                                  e_arc_length := e_arc_length d + sh_length s0\<rparr>) ?w2"
  from confined_grows [OF c] have g: "length (edges w0) \<le> length (edges w)"
    by (simp add: grows_def)
  from e edge_linksD(1) [OF c e pb] have eb: "e < length (edges w)" "length (edges w0) \<le> e"
    and pbE: "pb \<in> own_edges w0 w"
    by (simp_all add: own_edges_def)
  have "keeps w0 w (w\<lparr>edges := edges w @ [?new], faces := faces w @ [], polys := polys w @ []\<rparr>)"
  proof (rule keeps_alloc [OF c])
    from confined_edgeD [OF c e] e
    show "\<forall>d\<in>set [?new]. edge_ok {length (edges w0)..<length (edges w) + length [?new]}
        {length (faces w0)..<length (faces w) + length []} d"
      by (auto simp: edge_ok_def own_edges_def own_faces_def link_ok_def)
  qed simp_all
  then have k1: "keeps w0 w ?w1" by simp
  have nE: "length (edges w) \<in> own_edges w0 ?w1" using g by (simp add: own_edges_def)
  have k2: "keeps w0 ?w1 ?w2"
    by (rule keeps_upd_edge_links(1) [OF keepsD(1) [OF k1] keeps_own(1) [OF k1 pbE]])
       (use nE in simp)
  from keeps_trans [OF k1 k2] have k12: "keeps w0 w ?w2" .
  have nE2: "length (edges w) \<in> own_edges w0 ?w2" using nE by simp
  have k3: "keeps w0 ?w2 ?w3"
  proof (rule keeps_upd_edge [OF keepsD(1) [OF k12] keeps_own(1) [OF k12 e]])
    from confined_edgeD [OF keepsD(1) [OF k12] keeps_own(1) [OF k12 e]] nE2
    show "edge_ok (own_edges w0 ?w2) (own_faces w0 ?w2)
        ((edges ?w2 ! e)\<lparr>e_shape := s1, e_prev := Some (length (edges w)),
                          e_arc_length := e_arc_length (edges ?w2 ! e) + sh_length s0\<rparr>)"
      by (simp add: edge_ok_def)
  qed
  from keeps_trans [OF k12 k3] have k13: "keeps w0 w ?w3" .
  have nE3: "length (edges w) \<in> own_edges w0 ?w3" using nE2 by simp
  have k4: "keeps w0 ?w3 (?w3\<lparr>polys := (polys ?w3)[polygon :=
              (polys ?w3 ! polygon)\<lparr>p_edges := p_edges (polys ?w3 ! polygon) @ [length (edges w)]\<rparr>]\<rparr>)"
  proof (rule keeps_upd_poly [OF keepsD(1) [OF k13] keeps_own(3) [OF k13 p]])
    from confined_polyD [OF keepsD(1) [OF k13] keeps_own(3) [OF k13 p]] nE3
    show "poly_ok (own_edges w0 ?w3) (own_faces w0 ?w3)
        ((polys ?w3 ! polygon)\<lparr>p_edges := p_edges (polys ?w3 ! polygon) @ [length (edges w)]\<rparr>)"
      by (simp add: poly_ok_def)
  qed
  from keeps_trans [OF k13 k4] have k: "keeps w0 w w'" by (simp add: w' Let_def)
  from nE keeps_own(1) [OF keeps_trans [OF k2 keeps_trans [OF k3 k4]]]
  have "n \<in> own_edges w0 w'" by (simp add: n w' Let_def)
  with k show ?thesis by simp
qed

lemma segment_env_confined: "store_confined segment_env"
  unfolding store_confined_def
proof (intro allI impI conjI; (elim conjE)?)
  fix w0 w p w' q assume "confined w0 w" "clone segment_env w p = Inr (w', q)"
  then show "keeps w0 w w'" "q \<in> own_polys w0 w'"
    using store_clone_keeps [of w0 w p w' q] by (simp_all add: segment_env_def)
next
  fix w0 w p w' assume "confined w0 w" "p \<in> own_polys w0 w" "reverse segment_env w p = Inr w'"
  then show "keeps w0 w w'"
    using store_reverse_keeps [of w0 w p w'] by (simp add: segment_env_def)
next
  fix w0 w p e assume "confined w0 w" "p \<in> own_polys w0 w"
  then show "set (search segment_env w p e) \<subseteq> own_edges w0 w"
    using poly_linksD(1) [of w0 w p] by (simp add: segment_env_def)
next
  fix w0 w p x e w' n
  assume "confined w0 w" "p \<in> own_polys w0 w" "e \<in> own_edges w0 w"
    "addVertex segment_env w p x e = Inr (w', n)"
  then show "keeps w0 w w'" "n \<in> own_edges w0 w'"
    using store_addVertex_keeps [of w0 w p e "seg_split (1 / 1000)" x w' n]
    by (simp_all add: segment_env_def)
qed (auto simp: segment_env_def keeps_refl)

subsection \<open>The entry points\<close>

text \<open>
  C9: every public entry point leaves the polygons of its caller as they were.  A call that
  starts in the world \<open>w\<close> and returns in \<open>w'\<close> has changed no edge, face or polygon of
  \<open>w\<close>: it has worked on the two polygons that \<^verbatim>\<open>clone()\<close> made and on what was created
  for them, and the polygon that \<^verbatim>\<open>unify\<close>, \<^verbatim>\<open>intersect\<close> or \<^verbatim>\<open>subtract\<close> returns is one
  made during the call.  In \<^verbatim>\<open>subtract\<close> the polygon that is reversed is the one
  \<^verbatim>\<open>polygon2.clone()\<close> has just made, the caller's objects are unchanged after the
  reversal, and that clone is what enters \<^verbatim>\<open>booleanOpBinary\<close>.  The store is any store
  that satisfies \<open>store_confined\<close>.
\<close>

theorem entry_points_leave_arguments:
  assumes sc: "store_confined env"
  shows "(\<forall>w' r. unify env w polygon1 polygon2 = Inr (w', r) \<longrightarrow>
            unchanged w w' \<and> r \<in> own_polys w w') \<and>
         (\<forall>w' r. intersect_polygons env w polygon1 polygon2 = Inr (w', r) \<longrightarrow>
            unchanged w w' \<and> r \<in> own_polys w w') \<and>
         (\<forall>w' r. subtract env w polygon1 polygon2 = Inr (w', r) \<longrightarrow>
            unchanged w w' \<and> r \<in> own_polys w w' \<and>
            (\<exists>w1 polygon2_tmp w2 wrk.
               clone env w polygon2 = Inr (w1, polygon2_tmp) \<and> polygon2_tmp \<in> own_polys w w1 \<and>
               reverse env w1 polygon2_tmp = Inr w2 \<and> unchanged w w2 \<and>
               booleanOpBinary env w2 polygon1 polygon2_tmp BOOLEAN_SUBTRACT True =
                 Inr (w', r, wrk))) \<and>
         (\<forall>w' shapes. innerClip env w polygon1 polygon2 = Inr (w', shapes) \<longrightarrow> unchanged w w') \<and>
         (\<forall>w' shapes. outerClip env w polygon1 polygon2 = Inr (w', shapes) \<longrightarrow> unchanged w w') \<and>
         (\<forall>w' points. calculateIntersections env w polygon1 polygon2 = Inr (w', points) \<longrightarrow>
            unchanged w w')"
proof (intro conjI allI impI)
  note c = confined_self [of w]
  {
    fix w' r op assume "bindE (booleanOpBinary env w polygon1 polygon2 op True)
                 (\<lambda>(w1, res_poly, wrk_poly). Inr (w1, res_poly)) = Inr (w', r)"
    then obtain wrk where "booleanOpBinary env w polygon1 polygon2 op True = Inr (w', r, wrk)"
      by (auto simp: bindE_eq_Inr)
    from booleanOpBinary_keeps(1,2) [OF sc c this]
    have "unchanged w w'" "r \<in> own_polys w w'" by (simp_all add: keeps_unchanged)
  } note restitched = this
  {
    fix w' op assume "\<exists>res wrk. booleanOpBinary env w polygon1 polygon2 op False = Inr (w', res, wrk)"
    then obtain res wrk where "booleanOpBinary env w polygon1 polygon2 op False = Inr (w', res, wrk)"
      by blast
    from booleanOpBinary_keeps(1) [OF sc c this]
    have "unchanged w w'" by (rule keeps_unchanged)
  } note clipped = this
  fix w' r
  {
    assume "unify env w polygon1 polygon2 = Inr (w', r)"
    then show "unchanged w w'" "r \<in> own_polys w w'"
      using restitched [of BOOLEAN_UNION w' r] by (simp_all add: unify_def)
  }
  {
    assume "intersect_polygons env w polygon1 polygon2 = Inr (w', r)"
    then show "unchanged w w'" "r \<in> own_polys w w'"
      using restitched [of BOOLEAN_INTERSECT w' r] by (simp_all add: intersect_polygons_def)
  }
  {
    assume run: "subtract env w polygon1 polygon2 = Inr (w', r)"
    from subtract_keeps [OF sc c run]
    show "unchanged w w'" "r \<in> own_polys w w'"
      "\<exists>w1 polygon2_tmp w2 wrk.
         clone env w polygon2 = Inr (w1, polygon2_tmp) \<and> polygon2_tmp \<in> own_polys w w1 \<and>
         reverse env w1 polygon2_tmp = Inr w2 \<and> unchanged w w2 \<and>
         booleanOpBinary env w2 polygon1 polygon2_tmp BOOLEAN_SUBTRACT True = Inr (w', r, wrk)"
      by (blast intro: keeps_unchanged)+
  }
next
  fix w' shapes
  assume "innerClip env w polygon1 polygon2 = Inr (w', shapes)"
  then have "\<exists>res wrk. booleanOpBinary env w polygon1 polygon2 BOOLEAN_INTERSECT False =
      Inr (w', res, wrk)"
    by (auto simp: innerClip_def bindE_eq_Inr)
  from booleanOpBinary_keeps(1) [OF sc confined_self] this
  show "unchanged w w'" by (blast intro: keeps_unchanged)
next
  fix w' shapes
  assume "outerClip env w polygon1 polygon2 = Inr (w', shapes)"
  then have "\<exists>res wrk. booleanOpBinary env w polygon1 polygon2 BOOLEAN_SUBTRACT False =
      Inr (w', res, wrk)"
    by (auto simp: outerClip_def bindE_eq_Inr)
  from booleanOpBinary_keeps(1) [OF sc confined_self] this
  show "unchanged w w'" by (blast intro: keeps_unchanged)
next
  fix w' points
  assume "calculateIntersections env w polygon1 polygon2 = Inr (w', points)"
  then have "\<exists>res wrk ints. clone_and_split env w polygon1 polygon2 = Inr (w', res, wrk, ints)"
    by (auto simp: calculateIntersections_def bindE_eq_Inr)
  from clone_and_split_keeps [OF sc confined_self] this
  show "unchanged w w'" by (blast intro: keeps_unchanged)
qed

lemmas collect_defs = getIntersections_def getIntersections_edge1_def getIntersections_edge2_def
  getIntersections_pt_def addToIntPoints_def split_len_def vertex_flags_def
  sortIntersections_def getSortedArray_def faceMap_step_def set_faceId_def js_sort_def
  compareFn_def js_less_def upd_rec_def upd_edge_def
  splitByIntersections_def split_first_pass_def split_second_pass_def store_addVertex_def
  filterDuplicatedIntersections_def filter_scan1_def filter_scan2_def deref_def js_nth_def
  store_clone_def relocate_def clone_and_split_def

lemmas classify_defs = filterNotRelevantEdges_def getNotIntersectedFaces_def
  calcInclusion_step_def calcInclusionForNotIntersectedFaces_def clear_flags_def
  initialize_clear_def initialize_boundary_def initializeInclusionFlags_def
  calculateInclusion_step_def calculateInclusionFlags_def boundary_chain_def
  overlapping_chain_def chain2_def next_in_face_def find_overlap_def
  setOverlappingFlags_step_def setOverlappingFlags_def removeNotIntersected_step_def
  removeNotRelevantNotIntersectedFaces_def removeNotRelevantChains_def
  remove_chain_between_def chain_not_relevant_def intPointsPullCount_def overlap_has_def
  BOOLEAN_UNION_def BOOLEAN_INTERSECT_def BOOLEAN_SUBTRACT_def OVERLAP_SAME_def
  OVERLAP_OPPOSITE_def

lemmas restitch_all_defs = swapLinksAndRestore_def copyWrkToRes_def copyWrkToRes_face_def
  swapLinks_def swapLinks_step_def swap_simple_def swap_touching_def swap_touching_step_def
  connect_def removeOldFaces_def removeOldFaces_step_def faces_delete_def clear_edge_face_def
  restoreFaces_def restoreFaces_step_def mark_face_def

lemma calc_run:
  "\<exists>w' points. calculateIntersections segment_env squares_and_none 0 1 = Inr (w', points)"
  by (simp add: calculateIntersections_def squares_and_none_def collect_defs run_defs)

lemma unify_run:
  "\<exists>w' r. unify segment_env squares_and_none 0 2 = Inr (w', r)"
  by (simp add: unify_def booleanOpBinary_def squares_and_none_def collect_defs classify_defs
        restitch_all_defs run_defs)


lemma intersect_run:
  "\<exists>w' r. intersect_polygons segment_env squares_and_none 0 2 = Inr (w', r)"
  by (simp add: intersect_polygons_def booleanOpBinary_def squares_and_none_def collect_defs
        classify_defs restitch_all_defs run_defs)

lemma subtract_run:
  "\<exists>w' r. subtract segment_env squares_and_none 0 2 = Inr (w', r)"
  by (simp add: subtract_def booleanOpBinary_def squares_and_none_def collect_defs
        classify_defs restitch_all_defs store_reverse_def reverse_face_def reverse_edge_def
        run_defs)

lemma innerClip_run:
  "\<exists>w' shapes. innerClip segment_env squares_and_none 0 1 = Inr (w', shapes)"
  by (simp add: innerClip_def booleanOpBinary_def squares_and_none_def collect_defs
        classify_defs clip_shapes_def run_defs)

lemma outerClip_run:
  "\<exists>w' shapes. outerClip segment_env squares_and_none 0 1 = Inr (w', shapes)"
  by (simp add: outerClip_def booleanOpBinary_def squares_and_none_def collect_defs
        classify_defs clip_shapes_def run_defs)

theorem entry_points_leave_arguments_witness:
  "store_confined segment_env \<and>
   (\<exists>w' r. unify segment_env squares_and_none 0 2 = Inr (w', r) \<and>
      unchanged squares_and_none w' \<and> r \<in> own_polys squares_and_none w') \<and>
   (\<exists>w' r. intersect_polygons segment_env squares_and_none 0 2 = Inr (w', r) \<and>
      unchanged squares_and_none w' \<and> r \<in> own_polys squares_and_none w') \<and>
   (\<exists>w' r. subtract segment_env squares_and_none 0 2 = Inr (w', r) \<and>
      unchanged squares_and_none w' \<and> r \<in> own_polys squares_and_none w') \<and>
   (\<exists>w' shapes. innerClip segment_env squares_and_none 0 1 = Inr (w', shapes) \<and>
      unchanged squares_and_none w') \<and>
   (\<exists>w' shapes. outerClip segment_env squares_and_none 0 1 = Inr (w', shapes) \<and>
      unchanged squares_and_none w') \<and>
   (\<exists>w' points. calculateIntersections segment_env squares_and_none 0 1 = Inr (w', points) \<and>
      unchanged squares_and_none w')"
proof -
  note none = entry_points_leave_arguments [OF segment_env_confined, of squares_and_none 0 2]
  note both = entry_points_leave_arguments [OF segment_env_confined, of squares_and_none 0 1]
  from unify_run none
  have a: "\<exists>w' r. unify segment_env squares_and_none 0 2 = Inr (w', r) \<and>
      unchanged squares_and_none w' \<and> r \<in> own_polys squares_and_none w'" by blast
  from intersect_run none
  have b: "\<exists>w' r. intersect_polygons segment_env squares_and_none 0 2 = Inr (w', r) \<and>
      unchanged squares_and_none w' \<and> r \<in> own_polys squares_and_none w'" by blast
  from subtract_run none
  have c: "\<exists>w' r. subtract segment_env squares_and_none 0 2 = Inr (w', r) \<and>
      unchanged squares_and_none w' \<and> r \<in> own_polys squares_and_none w'" by blast
  from innerClip_run both
  have d: "\<exists>w' shapes. innerClip segment_env squares_and_none 0 1 = Inr (w', shapes) \<and>
      unchanged squares_and_none w'" by blast
  from outerClip_run both
  have e: "\<exists>w' shapes. outerClip segment_env squares_and_none 0 1 = Inr (w', shapes) \<and>
      unchanged squares_and_none w'" by blast
  from calc_run both
  have f: "\<exists>w' points. calculateIntersections segment_env squares_and_none 0 1 = Inr (w', points) \<and>
      unchanged squares_and_none w'" by blast
  from segment_env_confined a b c d e f show ?thesis by (intro conjI)
qed

end
